(* ===== verification/Prelude.thy ===== *)
theory Prelude
  imports Main "HOL-Library.AList" "HOL-Library.Sublist"
begin

text \<open>
  What every component shares: the failures a C++ call can end in, sequencing of calls that
  can fail, the development's lemma collections, and generic facts on lists and on association
  lists (the model of \<open>std::map\<close> and \<open>std::unordered_map\<close>, which the code both looks up and
  iterates).
\<close>

section \<open>Failures as values\<close>

text \<open>
  \<open>Out_of_range\<close>, \<open>Invalid_argument\<close> and \<open>Runtime_error\<close> are the standard exceptions the
  code can raise (\<open>vector::at\<close>, \<open>string::substr\<close>, \<open>std::stoi\<close>, the explicit
  \<open>throw std::runtime_error\<close>). \<open>Undefined_behaviour\<close> is a step the language gives no
  meaning (dereferencing a null lock, unlocking a lock that is not held, writing past a buffer).
  \<open>Mutex_blocked\<close> is a lock operation on a mutex that no thread will ever release.
  \<open>Process_exit\<close> is an explicit \<open>exit\<close> of the code, \<open>Diverges\<close> a loop that never ends.
\<close>

datatype exn =
    Out_of_range
  | Invalid_argument
  | Runtime_error
  | Undefined_behaviour
  | Mutex_blocked
  | Process_exit
  | Diverges

definition ebind :: "exn + 'a \<Rightarrow> ('a \<Rightarrow> exn + 'b) \<Rightarrow> exn + 'b" where
  "ebind r f = (case r of Inl e \<Rightarrow> Inl e | Inr a \<Rightarrow> f a)"

named_theorems model_simps \<open>unfolding equations of the model used to evaluate closed runs\<close>
named_theorems frame \<open>fields an operation does not write\<close>

lemma ebind_Inl [simp]: "ebind (Inl e) f = Inl e"
  by (simp add: ebind_def)

lemma ebind_Inr [simp]: "ebind (Inr a) f = f a"
  by (simp add: ebind_def)

lemma ebind_eq_Inr_iff: "ebind r f = Inr b \<longleftrightarrow> (\<exists>a. r = Inr a \<and> f a = Inr b)"
  by (cases r) auto

lemma ebind_InrE:
  assumes "ebind r f = Inr b"
  obtains a where "r = Inr a" and "f a = Inr b"
  using assms by (auto simp: ebind_eq_Inr_iff)

lemma ebind_assoc: "ebind (ebind r f) g = ebind r (\<lambda>x. ebind (f x) g)"
  by (cases r) auto

text \<open>Running a fallible step over a list, stopping at the first failure.\<close>

primrec efold :: "('a \<Rightarrow> 's \<Rightarrow> exn + 's) \<Rightarrow> 'a list \<Rightarrow> 's \<Rightarrow> exn + 's" where
  "efold f [] s = Inr s"
| "efold f (x # xs) s = ebind (f x s) (efold f xs)"

lemma efold_append: "efold f (xs @ ys) s = ebind (efold f xs s) (efold f ys)"
proof (induction xs arbitrary: s)
  case (Cons x xs)
  then show ?case by (cases "f x s") auto
qed simp

lemma efold_invariant:
  assumes step: "\<And>x s s'. P s \<Longrightarrow> f x s = Inr s' \<Longrightarrow> P s'"
    and "P s" and "efold f xs s = Inr s'"
  shows "P s'"
  using assms(2,3)
proof (induction xs arbitrary: s)
  case (Cons x xs)
  from Cons.prems(2) obtain t where t: "f x s = Inr t" and rest: "efold f xs t = Inr s'"
    by (auto elim: ebind_InrE)
  from step [OF Cons.prems(1) t] rest show ?case by (rule Cons.IH)
qed simp

text \<open>The contents of a configuration file; one that cannot be opened ends the process.\<close>

definition open_file :: "string option \<Rightarrow> exn + string" where
  "open_file f = (case f of None \<Rightarrow> Inl Process_exit | Some s \<Rightarrow> Inr s)"

section \<open>Lists\<close>

lemma takeWhile_neq_append [simp]:
  "c \<notin> set xs \<Longrightarrow> takeWhile (\<lambda>x. x \<noteq> c) (xs @ c # ys) = xs"
  by (induction xs) auto

lemma dropWhile_neq_append [simp]:
  "c \<notin> set xs \<Longrightarrow> dropWhile (\<lambda>x. x \<noteq> c) (xs @ c # ys) = c # ys"
  by (induction xs) auto

lemma takeWhile_neq_id [simp]: "c \<notin> set xs \<Longrightarrow> takeWhile (\<lambda>x. x \<noteq> c) xs = xs"
  by (induction xs) auto

lemma dropWhile_neq_Nil [simp]: "c \<notin> set xs \<Longrightarrow> dropWhile (\<lambda>x. x \<noteq> c) xs = []"
  by (induction xs) auto

section \<open>Association lists\<close>

text \<open>
  \<open>AList.update\<close> and \<open>AList.delete\<close> are the map's \<open>m[k] = v\<close> and \<open>m.erase(k)\<close>;
  \<open>map_of\<close> is \<open>find\<close>. The order of the list stands for the iteration order, which the
  standard leaves open for the unordered containers.
\<close>

lemma map_of_update [simp]: "map_of (AList.update k v m) = (map_of m)(k \<mapsto> v)"
  by (rule ext) (simp add: update_conv')

lemma map_of_delete [simp]: "map_of (AList.delete k m) = (map_of m)(k := None)"
  by (rule ext) (simp add: delete_conv')

lemma map_of_update_same: "map_of (AList.update k v m) k = Some v"
  by simp

text \<open>\<open>m[k] = v\<close> for a \<open>std::map\<close>, whose iteration is in the order of the keys.\<close>

primrec map_put :: "'k::linorder \<Rightarrow> 'v \<Rightarrow> ('k \<times> 'v) list \<Rightarrow> ('k \<times> 'v) list" where
  "map_put k v [] = [(k, v)]"
| "map_put k v (p # ps) =
     (if k < fst p then (k, v) # p # ps
      else if k = fst p then (k, v) # ps
      else p # map_put k v ps)"

lemma map_of_map_put [simp]: "map_of (map_put k v m) = (map_of m)(k \<mapsto> v)"
  by (induction m) auto

lemma set_map_put: "fst ` set (map_put k v m) = insert k (fst ` set m)"
  by (induction m) auto

lemma sorted_map_put: "sorted (map fst m) \<Longrightarrow> sorted (map fst (map_put k v m))"
proof (induction m)
  case (Cons p m)
  have "\<forall>x \<in> fst ` set (map_put k v m). fst p \<le> x" if "\<not> k < fst p"
    using Cons.prems that by (auto simp: set_map_put)
  with Cons show ?case by auto
qed simp

lemma map_of_neq_None_iff: "map_of m k \<noteq> None \<longleftrightarrow> k \<in> fst ` set m"
  by (metis map_of_eq_None_iff)

end
