(* ===== verification/Cpp_String.thy ===== *)
theory Cpp_String
  imports Prelude "HOL-Library.Char_ord"
begin

text \<open>
  The operations of \<open>std::string\<close>, \<open>std::getline\<close>, \<open>std::stoi\<close>, \<open>atoi\<close> and
  \<open>std::to_string\<close> that the code uses, and the string helpers of the repository built
  directly on them. A string is its list of bytes; \<open>std::string::npos\<close> is \<open>None\<close>.
\<close>

section \<open>Searching\<close>

text \<open>
  \<open>find_scan p s i\<close> is the position of the first occurrence of \<open>p\<close> in \<open>s\<close>, counted from
  \<open>i\<close>; \<open>rfind_scan\<close> of the last one.
\<close>

primrec find_scan :: "string \<Rightarrow> string \<Rightarrow> nat \<Rightarrow> nat option" where
  "find_scan p [] i = (if p = [] then Some i else None)"
| "find_scan p (c # cs) i = (if prefix p (c # cs) then Some i else find_scan p cs (Suc i))"

primrec rfind_scan :: "string \<Rightarrow> string \<Rightarrow> nat \<Rightarrow> nat option" where
  "rfind_scan p [] i = (if p = [] then Some i else None)"
| "rfind_scan p (c # cs) i =
     (case rfind_scan p cs (Suc i) of
        Some j \<Rightarrow> Some j
      | None \<Rightarrow> if prefix p (c # cs) then Some i else None)"

definition str_find :: "string \<Rightarrow> string \<Rightarrow> nat option" where
  "str_find s p = find_scan p s 0"

definition str_find_from :: "string \<Rightarrow> string \<Rightarrow> nat \<Rightarrow> nat option" where
  "str_find_from s p k = (if k \<le> length s then find_scan p (drop k s) k else None)"

definition str_rfind :: "string \<Rightarrow> string \<Rightarrow> nat option" where
  "str_rfind s p = rfind_scan p s 0"

text \<open>\<open>s.find(p) != npos\<close>, and \<open>s.rfind(p, 0) == 0\<close>.\<close>

definition contains :: "string \<Rightarrow> string \<Rightarrow> bool" where
  "contains s p = (str_find s p \<noteq> None)"

definition starts_with :: "string \<Rightarrow> string \<Rightarrow> bool" where
  "starts_with s p = prefix p s"

section \<open>Substrings\<close>

text \<open>
  \<open>substr s pos n\<close> raises \<open>out_of_range\<close> when \<open>pos\<close> is past the end. The code's idioms
  \<open>s.substr(0, p)\<close> and \<open>s.substr(p + 1)\<close> for a position \<open>p\<close> that \<open>find\<close> returned cannot
  raise: \<open>npos + 1\<close> wraps to 0, and a found position is below the length. The last one is
  \<open>s.substr(a + 1, b - (a + 1))\<close>, where \<open>b\<close> was searched from \<open>a + 1\<close>.
\<close>

definition substr :: "string \<Rightarrow> nat \<Rightarrow> nat \<Rightarrow> exn + string" where
  "substr s pos n = (if pos \<le> length s then Inr (take n (drop pos s)) else Inl Out_of_range)"

fun substr_to :: "string \<Rightarrow> nat option \<Rightarrow> string" where
  "substr_to s None = s"
| "substr_to s (Some i) = take i s"

fun npos_succ :: "nat option \<Rightarrow> nat" where
  "npos_succ None = 0"
| "npos_succ (Some i) = Suc i"

definition substr_after :: "string \<Rightarrow> nat option \<Rightarrow> string" where
  "substr_after s p = drop (npos_succ p) s"

definition substr_between :: "string \<Rightarrow> nat option \<Rightarrow> nat option \<Rightarrow> string" where
  "substr_between s a b =
     (case b of
        None \<Rightarrow> drop (npos_succ a) s
      | Some j \<Rightarrow> take (j - npos_succ a) (drop (npos_succ a) s))"

section \<open>Splitting\<close>

text \<open>
  \<open>split\<close> is the loop \<open>while (getline(ss, token, delimiter)) tokens.push_back(token)\<close>: a
  delimiter at the very end of the input does not start another (empty) token.
\<close>

primrec split_acc :: "char \<Rightarrow> string \<Rightarrow> string \<Rightarrow> string list" where
  "split_acc d acc [] = (if acc = [] then [] else [acc])"
| "split_acc d acc (c # cs) =
     (if c = d then acc # split_acc d [] cs else split_acc d (acc @ [c]) cs)"

definition split :: "string \<Rightarrow> char \<Rightarrow> string list" where
  "split s d = split_acc d [] s"

text \<open>\<open>tokens.at(i)\<close>.\<close>

definition at :: "'a list \<Rightarrow> nat \<Rightarrow> exn + 'a" where
  "at xs i = (if i < length xs then Inr (xs ! i) else Inl Out_of_range)"

section \<open>Character classes and trimming\<close>

definition isspace :: "char \<Rightarrow> bool" where
  "isspace c =
     (c = CHR 0x20 \<or> c = CHR 0x09 \<or> c = CHR 0x0A \<or> c = CHR 0x0B \<or> c = CHR 0x0C \<or> c = CHR 0x0D)"

definition isdigit :: "char \<Rightarrow> bool" where
  "isdigit c = (c \<in> set ''0123456789'')"

text \<open>\<open>trim_trailing_newline\<close> drops every trailing white-space byte; \<open>strip\<close> (the frontend's,
  \<open>std::remove_if (..., isspace)\<close>) drops every white-space byte of the string.\<close>

definition trim_trailing_newline :: "string \<Rightarrow> string" where
  "trim_trailing_newline s = rev (dropWhile isspace (rev s))"

definition strip :: "string \<Rightarrow> string" where
  "strip s = filter (\<lambda>c. \<not> isspace c) s"

section \<open>Numbers\<close>

fun nat_digits :: "nat \<Rightarrow> string" where
  "nat_digits n =
     (if n < 10 then [''0123456789'' ! n] else nat_digits (n div 10) @ [''0123456789'' ! (n mod 10)])"

declare nat_digits.simps [simp del]

definition to_string :: "int \<Rightarrow> string" where
  "to_string n = (if n < 0 then CHR ''-'' # nat_digits (nat (- n)) else nat_digits (nat n))"

definition digit_val :: "char \<Rightarrow> nat" where
  "digit_val c = of_char c - 48"

primrec digits_val :: "nat \<Rightarrow> string \<Rightarrow> nat" where
  "digits_val acc [] = acc"
| "digits_val acc (c # cs) = digits_val (10 * acc + digit_val c) cs"

text \<open>The prefix \<open>strtol\<close> reads: white space, a sign, digits; \<open>None\<close> when there is no digit.\<close>

definition strtol :: "string \<Rightarrow> int option" where
  "strtol s =
     (let t = dropWhile isspace s;
          neg = (t \<noteq> [] \<and> hd t = CHR ''-'');
          u = (if t \<noteq> [] \<and> (hd t = CHR ''-'' \<or> hd t = CHR ''+'') then tl t else t);
          ds = takeWhile isdigit u
      in if ds = [] then None
         else Some (if neg then - int (digits_val 0 ds) else int (digits_val 0 ds)))"

definition stoi :: "string \<Rightarrow> exn + int" where
  "stoi s =
     (case strtol s of
        None \<Rightarrow> Inl Invalid_argument
      | Some v \<Rightarrow> if - (2 ^ 31) \<le> v \<and> v < 2 ^ 31 then Inr v else Inl Out_of_range)"

text \<open>
  \<open>atoi\<close> is \<open>(int) strtol\<close>: saturated at 64 bits, then truncated to 32 bits.
\<close>

definition atoi :: "string \<Rightarrow> int" where
  "atoi s =
     (case strtol s of
        None \<Rightarrow> 0
      | Some v \<Rightarrow> signed_take_bit 31 (max (- (2 ^ 63)) (min (2 ^ 63 - 1) v)))"

section \<open>Lemmas: searching\<close>

lemma ex_nat_cases: "(\<exists>k::nat. Q k) \<longleftrightarrow> Q 0 \<or> (\<exists>k. Q (Suc k))"
  by (metis not0_implies_Suc)

lemma find_scan_Some_iff:
  "find_scan p s i = Some j \<longleftrightarrow>
     (\<exists>k. j = i + k \<and> k \<le> length s \<and> prefix p (drop k s) \<and> (\<forall>m < k. \<not> prefix p (drop m s)))"
proof (induction s arbitrary: i)
  case Nil
  show ?case by auto
next
  case (Cons c cs)
  show ?case
    by (subst ex_nat_cases) (auto simp: Cons.IH All_less_Suc2)
qed

lemma find_scan_None_iff: "find_scan p s i = None \<longleftrightarrow> \<not> sublist p s"
  by (induction s arbitrary: i) (auto simp: sublist_Cons_right)

lemma contains_iff: "contains s p \<longleftrightarrow> sublist p s"
  by (simp add: contains_def str_find_def find_scan_None_iff)

lemma str_find_eq_None_iff: "str_find s p = None \<longleftrightarrow> \<not> sublist p s"
  by (simp add: str_find_def find_scan_None_iff)

lemma str_find_eq_Some_iff:
  "str_find s p = Some k \<longleftrightarrow>
     k \<le> length s \<and> prefix p (drop k s) \<and> (\<forall>m < k. \<not> prefix p (drop m s))"
  by (simp add: str_find_def find_scan_Some_iff)

lemma str_find_prefix [simp]: "str_find (p @ s) p = Some 0"
  by (simp add: str_find_eq_Some_iff)

lemma find_scan_shift: "find_scan p s (i + k) = map_option (\<lambda>j. j + k) (find_scan p s i)"
  by (induction s arbitrary: i) (simp_all flip: add_Suc)

lemma find_scan_char_append [simp]:
  "c \<notin> set xs \<Longrightarrow> find_scan [c] (xs @ c # ys) i = Some (i + length xs)"
  by (induction xs arbitrary: i) auto

lemma find_scan_char_None [simp]: "c \<notin> set xs \<Longrightarrow> find_scan [c] xs i = None"
  by (induction xs arbitrary: i) auto

lemma str_find_char [simp]: "c \<notin> set xs \<Longrightarrow> str_find (xs @ c # ys) [c] = Some (length xs)"
  by (simp add: str_find_def)

lemma str_find_char_None [simp]: "c \<notin> set xs \<Longrightarrow> str_find xs [c] = None"
  by (simp add: str_find_def)

lemma rfind_scan_char_None [simp]: "c \<notin> set xs \<Longrightarrow> rfind_scan [c] xs i = None"
  by (induction xs arbitrary: i) auto

lemma rfind_scan_char_append:
  "c \<notin> set ys \<Longrightarrow> rfind_scan [c] (xs @ c # ys) i = Some (i + length xs)"
  by (induction xs arbitrary: i) auto

lemma str_rfind_char [simp]: "c \<notin> set ys \<Longrightarrow> str_rfind (xs @ c # ys) [c] = Some (length xs)"
  by (simp add: str_rfind_def rfind_scan_char_append)

lemma str_find_from_append: "str_find_from (xs @ ys) p (length xs) = find_scan p ys (length xs)"
  by (simp add: str_find_from_def)

text \<open>The two halves of a line cut at the first (or last) occurrence of a byte.\<close>

lemma substr_to_find [simp]: "c \<notin> set xs \<Longrightarrow> substr_to (xs @ c # ys) (str_find (xs @ c # ys) [c]) = xs"
  by simp

lemma substr_after_find [simp]:
  "c \<notin> set xs \<Longrightarrow> substr_after (xs @ c # ys) (str_find (xs @ c # ys) [c]) = ys"
  by (simp add: substr_after_def)

lemma substr_after_None [simp]: "substr_after s None = s"
  by (simp add: substr_after_def)

section \<open>Lemmas: splitting\<close>

lemma split_acc_no_delim: "d \<notin> set s \<Longrightarrow> split_acc d acc s = (if acc @ s = [] then [] else [acc @ s])"
  by (induction s arbitrary: acc) auto

lemma split_acc_append_delim:
  "d \<notin> set xs \<Longrightarrow> split_acc d acc (xs @ d # ys) = (acc @ xs) # split_acc d [] ys"
  by (induction xs arbitrary: acc) auto

lemma split_Nil [simp]: "split [] d = []"
  by (simp add: split_def)

lemma split_append_delim [simp]: "d \<notin> set xs \<Longrightarrow> split (xs @ d # ys) d = xs # split ys d"
  by (simp add: split_def split_acc_append_delim)

lemma split_no_delim: "d \<notin> set xs \<Longrightarrow> split xs d = (if xs = [] then [] else [xs])"
  by (simp add: split_def split_acc_no_delim)

lemma split_acc_last:
  assumes "d \<notin> set t" and "t \<noteq> []"
  shows "\<exists>xs. split_acc d acc (s @ d # t) = xs @ [t]"
proof (induction s arbitrary: acc)
  case Nil
  from assms show ?case by (simp add: split_acc_no_delim)
next
  case (Cons c s)
  show ?case
  proof (cases "c = d")
    case True
    with Cons.IH [of "[]"] show ?thesis by auto
  next
    case False
    with Cons.IH [of "acc @ [c]"] show ?thesis by simp
  qed
qed

lemma split_acc_tokens: "d \<notin> set acc \<Longrightarrow> t \<in> set (split_acc d acc s) \<Longrightarrow> d \<notin> set t"
  by (induction s arbitrary: acc) (fastforce split: if_splits)+

lemma split_tokens: "t \<in> set (split s d) \<Longrightarrow> d \<notin> set t"
  unfolding split_def by (rule split_acc_tokens [where acc = "[]"]) simp_all

text \<open>\<open>join\<close> puts the delimiter back between the tokens.\<close>

primrec join :: "char \<Rightarrow> string list \<Rightarrow> string" where
  "join d [] = []"
| "join d (t # ts) = (if ts = [] then t else t @ d # join d ts)"

lemma split_acc_eq_Nil_iff: "split_acc d acc s = [] \<longleftrightarrow> acc @ s = []"
  by (induction s arbitrary: acc) auto

lemma join_split_acc:
  "s = [] \<or> last s \<noteq> d \<Longrightarrow> join d (split_acc d acc s) = acc @ s"
proof (induction s arbitrary: acc)
  case Nil
  show ?case by simp
next
  case (Cons c cs)
  show ?case
  proof (cases "c = d")
    case True
    with Cons.prems have "cs \<noteq> []" "cs = [] \<or> last cs \<noteq> d" by auto
    with True Cons.IH [of "[]"] show ?thesis by (simp add: split_acc_eq_Nil_iff)
  next
    case False
    with Cons.prems have "cs = [] \<or> last cs \<noteq> d" by auto
    with False Cons.IH [of "acc @ [c]"] show ?thesis by simp
  qed
qed

lemma join_split: "s = [] \<or> last s \<noteq> d \<Longrightarrow> join d (split s d) = s"
  using join_split_acc [of s d "[]"] by (simp add: split_def)

lemma split_join_step: "d \<notin> set t \<Longrightarrow> t \<noteq> [] \<or> ts \<noteq> [] \<Longrightarrow>
    split (join d (t # ts)) d = t # (if ts = [] then [] else split (join d ts) d)"
  by (simp add: split_no_delim)

section \<open>Lemmas: trimming and numbers\<close>

lemma trim_id: "s = [] \<or> \<not> isspace (last s) \<Longrightarrow> trim_trailing_newline s = s"
  by (cases s rule: rev_cases) (simp_all add: trim_trailing_newline_def)

lemma trim_last: "trim_trailing_newline s = [] \<or> \<not> isspace (last (trim_trailing_newline s))"
proof (cases "dropWhile isspace (rev s) = []")
  case False
  then have "\<not> isspace (hd (dropWhile isspace (rev s)))" by (rule hd_dropWhile)
  with False show ?thesis by (simp add: trim_trailing_newline_def last_rev)
qed (simp add: trim_trailing_newline_def)

lemma strip_no_space: "c \<in> set (strip s) \<Longrightarrow> \<not> isspace c"
  by (simp add: strip_def)

lemma strip_idem [simp]: "strip (strip s) = strip s"
  by (simp add: strip_def)

lemma nat_digits_neq_Nil [simp]: "nat_digits n \<noteq> []"
  by (subst nat_digits.simps) simp

lemma digit_char_cases:
  assumes "d < 10"
  shows "isdigit (''0123456789'' ! d)" and "digit_val (''0123456789'' ! d) = d"
proof -
  from assms have "d \<in> {0, 1, 2, 3, 4, 5, 6, 7, 8, 9}" by auto
  then show "isdigit (''0123456789'' ! d)" and "digit_val (''0123456789'' ! d) = d"
    by (auto simp: isdigit_def digit_val_def)
qed

lemma nat_digits_digits: "c \<in> set (nat_digits n) \<Longrightarrow> isdigit c"
proof (induction n rule: nat_digits.induct)
  case (1 n)
  then show ?case
    by (subst (asm) nat_digits.simps) (auto split: if_splits intro: digit_char_cases)
qed

lemma digits_val_append: "digits_val acc (xs @ ys) = digits_val (digits_val acc xs) ys"
  by (induction xs arbitrary: acc) simp_all

lemma digits_val_nat_digits: "digits_val 0 (nat_digits n) = n"
proof (induction n rule: nat_digits.induct)
  case (1 n)
  show ?case
  proof (cases "n < 10")
    case True
    then show ?thesis by (subst nat_digits.simps) (simp add: digit_char_cases)
  next
    case False
    with 1 have "digits_val 0 (nat_digits (n div 10)) = n div 10" by simp
    with False show ?thesis
      by (subst nat_digits.simps) (simp add: digits_val_append digit_char_cases)
  qed
qed

lemma isdigit_not_isspace: "isdigit c \<Longrightarrow> \<not> isspace c"
  by (auto simp: isdigit_def isspace_def)

lemma isdigit_neq:
  "isdigit c \<Longrightarrow> c \<noteq> CHR ''-''" "isdigit c \<Longrightarrow> c \<noteq> CHR ''+''"
  "isdigit c \<Longrightarrow> c \<noteq> CHR '':''" "isdigit c \<Longrightarrow> c \<noteq> CHR ''|''" "isdigit c \<Longrightarrow> c \<noteq> CHR '' ''"
  by (auto simp: isdigit_def)

lemma to_string_chars: "c \<in> set (to_string n) \<Longrightarrow> isdigit c \<or> c = CHR ''-''"
  by (auto simp: to_string_def dest: nat_digits_digits split: if_splits)

lemma to_string_neq_Nil [simp]: "to_string n \<noteq> []"
  by (simp add: to_string_def)

lemma to_string_notin [simp]:
  "CHR '':'' \<notin> set (to_string n)" "CHR ''|'' \<notin> set (to_string n)" "CHR '' '' \<notin> set (to_string n)"
  "CHR 0x00 \<notin> set (to_string n)" "CHR 0x0A \<notin> set (to_string n)" "CHR 0x0D \<notin> set (to_string n)"
  by (auto dest!: to_string_chars simp: isdigit_def)

lemma takeWhile_isdigit: "(\<And>c. c \<in> set xs \<Longrightarrow> isdigit c) \<Longrightarrow> takeWhile isdigit xs = xs"
  by (induction xs) auto

lemma strtol_nat_digits: "strtol (nat_digits n) = Some (int n)"
proof -
  obtain c cs where ds: "nat_digits n = c # cs" by (cases "nat_digits n") auto
  have dig: "\<And>x. x \<in> set (nat_digits n) \<Longrightarrow> isdigit x" by (rule nat_digits_digits)
  then have "isdigit c" and tw: "takeWhile isdigit cs = cs"
    using takeWhile_isdigit [of cs] by (auto simp: ds)
  then show ?thesis
    using digits_val_nat_digits [of n]
    by (simp add: strtol_def ds tw isdigit_not_isspace isdigit_neq)
qed

lemma strtol_to_string: "strtol (to_string n) = Some n"
proof (cases "n < 0")
  case True
  have dig: "takeWhile isdigit (nat_digits (nat (- n))) = nat_digits (nat (- n))"
    by (rule takeWhile_isdigit) (rule nat_digits_digits)
  have "\<not> isspace (CHR ''-'')" by (simp add: isspace_def)
  with True show ?thesis
    by (simp add: strtol_def to_string_def dig digits_val_nat_digits)
next
  case False
  then show ?thesis by (simp add: to_string_def strtol_nat_digits)
qed

lemma stoi_to_string: "- (2 ^ 31) \<le> n \<Longrightarrow> n < 2 ^ 31 \<Longrightarrow> stoi (to_string n) = Inr n"
  by (simp add: stoi_def strtol_to_string)

lemma to_string_inject [simp]: "to_string m = to_string n \<longleftrightarrow> m = n"
  by (metis strtol_to_string option.inject)

lemma find_scan_crlf:
  "CHR 0x0D \<notin> set xs \<Longrightarrow> find_scan [CHR 0x0D, CHR 0x0A] (xs @ CHR 0x0D # CHR 0x0A # ys) i = Some (i + length xs)"
  by (induction xs arbitrary: i) auto

lemma str_find_crlf [simp]:
  "CHR 0x0D \<notin> set xs \<Longrightarrow> str_find (xs @ CHR 0x0D # CHR 0x0A # ys) [CHR 0x0D, CHR 0x0A] = Some (length xs)"
  by (simp add: str_find_def find_scan_crlf)

end
