(* ===== verification/Node.thy ===== *)
theory Node
  imports Cpp_String "HOL-Library.Word"
begin

text \<open>
  The state of one storage server (\<open>backend/include/externs.h\<close>, \<open>backend/src/externs.cpp\<close>)
  and the small operations every other part of the server uses: sending bytes, reading and
  writing its files, the per-key locks, and the two placement functions \<open>get_tablet\<close> and
  \<open>get_partition\<close>.
\<close>

section \<open>Data\<close>

abbreviation crlf :: string where "crlf \<equiv> [CHR 0x0D, CHR 0x0A]"

abbreviation newline :: char where "newline \<equiv> CHR 0x0A"

abbreviation END_MARK :: string where "END_MARK \<equiv> ''||END||''"

type_synonym key = "string \<times> string"

type_synonym tablet = "(key \<times> string) list"

text \<open>\<open>struct transaction\<close> and \<open>struct message_queue\<close> (the fields the code reads or writes).\<close>

record transaction =
  tx_status :: string
  tx_command :: string
  tx_hash :: string

record message_queue =
  mq_fd :: int
  from_frontend :: bool
  tpc_success :: string
  original_ipport :: string
  mq_opt :: int
  mq_row :: string
  mq_col :: string

text \<open>A \<open>pthread_rwlock_t\<close>: free, held by a writer, or by a number of readers.\<close>

datatype rwlock = Free | Writer | Readers nat

text \<open>
  Threads the server has created and that have not run yet: clearing a tablet
  (\<open>create_clear_thread\<close>), parsing the primary's log (\<open>create_recovery_thread\<close>), the
  recovery of a new primary, and the connection to the primary or coordinator.
\<close>

datatype thread =
    Clear_thread nat
  | Recovery_thread string nat
  | Primary_recovery_thread int
  | Tpc_check_thread
  | Start_thread int bool

text \<open>
  The arrays of length 5 are functions of the tablet number. The files of a tablet are their
  bytes (\<open>None\<close>: the file does not exist). \<open>tpc_file\<close> is the list of lines of the 2PC log
  with the position of the next line a read returns. \<open>net\<close> is the trace of all writes to
  sockets; \<open>meminfo\<close> the successive answers of \<open>total_avail_memory\<close>; \<open>clock_str\<close> is
  \<open>ctime (now)\<close>, \<open>clock\<close> the steady clock in seconds.
\<close>

record node =
  IP :: string
  listen_address :: string
  primary_addr :: string
  primary_port :: int
  server_partition :: int
  PARTITION_COUNT :: int
  checkpoints :: "nat \<Rightarrow> int"
  log_sequences :: "nat \<Rightarrow> int"
  is_primary :: bool
  table :: "nat \<Rightarrow> tablet"
  log_queues :: "nat \<Rightarrow> string list"
  primary_queue :: "string list"
  active_tablets :: "nat \<Rightarrow> bool"
  checkpointing :: "nat \<Rightarrow> bool"
  checkpoint_acks :: "nat \<Rightarrow> int"
  recovering :: "nat \<Rightarrow> bool"
  log_file :: "nat \<Rightarrow> string option"
  table_file :: "nat \<Rightarrow> string option"
  msg_queue :: "(string \<times> message_queue) list"
  checkpoint_queue :: "(int \<times> string) list"
  row_locks :: "(key \<times> rwlock) list"
  tpc_responses :: "(int \<times> string list) list"
  tpc_queue :: "(int \<times> transaction) list"
  tpc_seq :: int
  tpc_start_time :: "(int \<times> int) list"
  tpc_replicas :: "(int \<times> string list) list"
  alive_replicas :: "string list"
  last_seq :: int
  tpc_pending :: "(int \<times> transaction) list"
  primary_recovering :: bool
  replica_count :: int
  tpc_queue_locked :: bool
  queued_transactions :: "int list"
  tpc_file :: "string list"
  tpc_pos :: nat
  partition_fds :: "int list"
  primary_fd :: int
  frontend_fds :: "int list"
  threads :: "thread list"
  net :: "(int \<times> string) list"
  meminfo :: "nat list"
  clock_str :: string
  clock :: int

text \<open>The globals as the program starts with them (\<open>externs.cpp\<close>).\<close>

definition initial_node :: node where
  "initial_node =
     \<lparr>IP = [], listen_address = [], primary_addr = [], primary_port = 0, server_partition = 0,
      PARTITION_COUNT = -1, checkpoints = (\<lambda>_. 0), log_sequences = (\<lambda>_. 0), is_primary = False,
      table = (\<lambda>_. []), log_queues = (\<lambda>_. []), primary_queue = [], active_tablets = (\<lambda>_. False),
      checkpointing = (\<lambda>_. False), checkpoint_acks = (\<lambda>_. 0), recovering = (\<lambda>_. False),
      log_file = (\<lambda>_. None), table_file = (\<lambda>_. None), msg_queue = [], checkpoint_queue = [],
      row_locks = [], tpc_responses = [], tpc_queue = [], tpc_seq = 0, tpc_start_time = [],
      tpc_replicas = [], alive_replicas = [], last_seq = 0, tpc_pending = [],
      primary_recovering = False, replica_count = -1, tpc_queue_locked = False,
      queued_transactions = [], tpc_file = [], tpc_pos = 0, partition_fds = [], primary_fd = 0,
      frontend_fds = [], threads = [], net = [], meminfo = [], clock_str = [], clock = 0\<rparr>"

section \<open>Sending\<close>

definition send :: "int \<Rightarrow> string \<Rightarrow> node \<Rightarrow> node" where
  "send fd s n = n\<lparr>net := net n @ [(fd, s)]\<rparr>"

text \<open>
  \<open>do_write_backend\<close> writes until everything is sent. The connections of the model do not
  fail, except the one to a primary that went away (see \<open>forward_to_primary\<close>).
\<close>

definition do_write_backend :: "int \<Rightarrow> string \<Rightarrow> node \<Rightarrow> node" where
  "do_write_backend fd buf n = send fd buf n"

definition forward_msg :: "string \<Rightarrow> node \<Rightarrow> node" where
  "forward_msg message n =
     fold (\<lambda>fd m. if fd = primary_fd m then m else do_write_backend fd message m) (partition_fds n) n"

definition send_queued_messages :: "node \<Rightarrow> node" where
  "send_queued_messages n =
     (fold (\<lambda>(fd, msg) m. send fd msg m) (checkpoint_queue n) n)\<lparr>checkpoint_queue := []\<rparr>"

definition send_queued_primary :: "node \<Rightarrow> node" where
  "send_queued_primary n =
     (fold (\<lambda>msg m. send (primary_fd m) msg m) (primary_queue n) n)\<lparr>primary_queue := []\<rparr>"

section \<open>Placement\<close>

definition get_tablet :: "string \<Rightarrow> nat" where
  "get_tablet row =
     unat (foldl (\<lambda>sum c. sum + of_char c) (0 :: 64 word) (takeWhile (\<lambda>c. c \<noteq> CHR 0x00) row)) mod 5"

text \<open>
  \<open>char\<close> is signed on the target, \<open>tolower\<close> (in the C locale) changes only \<open>A..Z\<close>, and
  the remainder of a division truncates toward zero.
\<close>

definition schar :: "char \<Rightarrow> int" where
  "schar c = (let v = (of_char c :: int) in if v < 128 then v else v - 256)"

definition tolower :: "char \<Rightarrow> char" where
  "tolower c = (let v = (of_char c :: nat) in if 65 \<le> v \<and> v \<le> 90 then char_of (v + 32) else c)"

definition trunc_mod :: "int \<Rightarrow> int \<Rightarrow> int" where
  "trunc_mod a b = sgn a * (\<bar>a\<bar> mod \<bar>b\<bar>)"

definition get_partition :: "int \<Rightarrow> string \<Rightarrow> int" where
  "get_partition pcount email =
     (if email = [] then -1 else trunc_mod (schar (tolower (hd email))) pcount + 1)"

definition IP_port :: "string \<Rightarrow> string \<times> int" where
  "IP_port addr =
     (let col_pos = str_rfind addr '':''
      in (substr_to addr col_pos, atoi (substr_after addr col_pos)))"

text \<open>The hash of a request: \<open>std::hash\<close> (the parameter \<open>H\<close>) of the time and the message.\<close>

definition create_hash :: "(string \<Rightarrow> nat) \<Rightarrow> node \<Rightarrow> string \<Rightarrow> string" where
  "create_hash H n message = to_string (int (H (clock_str n @ message)))"

definition is_recovering :: "node \<Rightarrow> bool" where
  "is_recovering n =
     (recovering n 0 \<or> recovering n 1 \<or> recovering n 2 \<or> recovering n 3 \<or> recovering n 4)"

section \<open>Row locks\<close>

text \<open>
  Creating the lock of a key that has none; unlocking it. \<open>row_locks[key]\<close> of an absent key
  is a null pointer, and unlocking a free lock has no defined result.
\<close>

definition ensure_lock :: "key \<Rightarrow> node \<Rightarrow> node" where
  "ensure_lock k n =
     (if map_of (row_locks n) k = None then n\<lparr>row_locks := AList.update k Free (row_locks n)\<rparr> else n)"

definition unlock_row :: "key \<Rightarrow> node \<Rightarrow> exn + node" where
  "unlock_row k n =
     (case map_of (row_locks n) k of
        Some Writer \<Rightarrow> Inr (n\<lparr>row_locks := AList.update k Free (row_locks n)\<rparr>)
      | Some (Readers (Suc (Suc r))) \<Rightarrow>
          Inr (n\<lparr>row_locks := AList.update k (Readers (Suc r)) (row_locks n)\<rparr>)
      | Some (Readers (Suc 0)) \<Rightarrow> Inr (n\<lparr>row_locks := AList.update k Free (row_locks n)\<rparr>)
      | _ \<Rightarrow> Inl Undefined_behaviour)"

definition put_cell :: "nat \<Rightarrow> key \<Rightarrow> string \<Rightarrow> node \<Rightarrow> node" where
  "put_cell t k v n = n\<lparr>table := (table n)(t := AList.update k v (table n t))\<rparr>"

definition erase_cell :: "nat \<Rightarrow> key \<Rightarrow> node \<Rightarrow> node" where
  "erase_cell t k n = n\<lparr>table := (table n)(t := AList.delete k (table n t))\<rparr>"

definition lookup :: "node \<Rightarrow> nat \<Rightarrow> key \<Rightarrow> string option" where
  "lookup n t k = map_of (table n t) k"

section \<open>Lemmas\<close>

lemma get_tablet_less [simp]: "get_tablet row < 5"
  by (simp add: get_tablet_def)

lemma lookup_put_cell [simp]:
  "lookup (put_cell t k v n) t' k' = (if t' = t \<and> k' = k then Some v else lookup n t' k')"
  by (simp add: lookup_def put_cell_def)

lemma lookup_erase_cell [simp]:
  "lookup (erase_cell t k n) t' k' = (if t' = t \<and> k' = k then None else lookup n t' k')"
  by (simp add: lookup_def erase_cell_def)

lemma lookup_cong: "table n = table m \<Longrightarrow> lookup n = lookup m"
  by (rule ext)+ (simp add: lookup_def)

lemma send_frame [frame, simp]:
  "table (send fd s n) = table n" "row_locks (send fd s n) = row_locks n"
  "log_queues (send fd s n) = log_queues n" "log_sequences (send fd s n) = log_sequences n"
  "active_tablets (send fd s n) = active_tablets n" "last_seq (send fd s n) = last_seq n"
  "tpc_file (send fd s n) = tpc_file n" "queued_transactions (send fd s n) = queued_transactions n"
  "tpc_queue (send fd s n) = tpc_queue n" "partition_fds (send fd s n) = partition_fds n"
  "primary_fd (send fd s n) = primary_fd n" "tpc_queue_locked (send fd s n) = tpc_queue_locked n"
  "log_file (send fd s n) = log_file n" "table_file (send fd s n) = table_file n"
  "msg_queue (send fd s n) = msg_queue n" "checkpoints (send fd s n) = checkpoints n"
  "checkpointing (send fd s n) = checkpointing n" "tpc_seq (send fd s n) = tpc_seq n"
  "is_primary (send fd s n) = is_primary n" "tpc_responses (send fd s n) = tpc_responses n"
  "tpc_replicas (send fd s n) = tpc_replicas n" "alive_replicas (send fd s n) = alive_replicas n"
  "primary_recovering (send fd s n) = primary_recovering n" "tpc_pending (send fd s n) = tpc_pending n"
  "net (send fd s n) = net n @ [(fd, s)]"
  by (simp_all add: send_def)

lemma ensure_lock_frame [frame, simp]:
  "table (ensure_lock k n) = table n" "active_tablets (ensure_lock k n) = active_tablets n"
  "log_queues (ensure_lock k n) = log_queues n" "log_sequences (ensure_lock k n) = log_sequences n"
  "last_seq (ensure_lock k n) = last_seq n" "tpc_file (ensure_lock k n) = tpc_file n"
  "queued_transactions (ensure_lock k n) = queued_transactions n"
  "tpc_queue (ensure_lock k n) = tpc_queue n" "tpc_queue_locked (ensure_lock k n) = tpc_queue_locked n"
  "net (ensure_lock k n) = net n" "log_file (ensure_lock k n) = log_file n"
  "checkpoints (ensure_lock k n) = checkpoints n" "checkpointing (ensure_lock k n) = checkpointing n"
  "msg_queue (ensure_lock k n) = msg_queue n" "partition_fds (ensure_lock k n) = partition_fds n"
  "table_file (ensure_lock k n) = table_file n"
  by (simp_all add: ensure_lock_def)

lemma ensure_lock_locks:
  "map_of (row_locks (ensure_lock k n)) k' =
     (if k' = k \<and> map_of (row_locks n) k = None then Some Free else map_of (row_locks n) k')"
  by (simp add: ensure_lock_def)

lemma put_cell_frame [frame, simp]:
  "row_locks (put_cell t k v n) = row_locks n" "active_tablets (put_cell t k v n) = active_tablets n"
  "log_queues (put_cell t k v n) = log_queues n" "log_sequences (put_cell t k v n) = log_sequences n"
  "last_seq (put_cell t k v n) = last_seq n" "tpc_file (put_cell t k v n) = tpc_file n"
  "queued_transactions (put_cell t k v n) = queued_transactions n"
  "tpc_queue (put_cell t k v n) = tpc_queue n" "net (put_cell t k v n) = net n"
  "log_file (put_cell t k v n) = log_file n" "checkpoints (put_cell t k v n) = checkpoints n"
  by (simp_all add: put_cell_def)

lemma erase_cell_frame [frame, simp]:
  "row_locks (erase_cell t k n) = row_locks n" "active_tablets (erase_cell t k n) = active_tablets n"
  "log_queues (erase_cell t k n) = log_queues n" "log_sequences (erase_cell t k n) = log_sequences n"
  "last_seq (erase_cell t k n) = last_seq n" "tpc_file (erase_cell t k n) = tpc_file n"
  "queued_transactions (erase_cell t k n) = queued_transactions n"
  "tpc_queue (erase_cell t k n) = tpc_queue n" "net (erase_cell t k n) = net n"
  "log_file (erase_cell t k n) = log_file n" "checkpoints (erase_cell t k n) = checkpoints n"
  by (simp_all add: erase_cell_def)

lemma unlock_row_Writer [simp]:
  "map_of (row_locks n) k = Some Writer \<Longrightarrow>
     unlock_row k n = Inr (n\<lparr>row_locks := AList.update k Free (row_locks n)\<rparr>)"
  by (simp add: unlock_row_def)

lemma unlock_row_None [simp]:
  "map_of (row_locks n) k = None \<Longrightarrow> unlock_row k n = Inl Undefined_behaviour"
  by (simp add: unlock_row_def)

lemma unlock_row_Free [simp]:
  "map_of (row_locks n) k = Some Free \<Longrightarrow> unlock_row k n = Inl Undefined_behaviour"
  by (simp add: unlock_row_def)

lemma unlock_row_InrD:
  assumes "unlock_row k n = Inr n'"
  obtains l where "n' = n\<lparr>row_locks := AList.update k l (row_locks n)\<rparr>" and "map_of (row_locks n) k \<noteq> None"
  using assms by (auto simp: unlock_row_def split: option.splits rwlock.splits nat.splits)

lemma trunc_mod_bounds: "b > 0 \<Longrightarrow> a \<ge> 0 \<Longrightarrow> 0 \<le> trunc_mod a b \<and> trunc_mod a b < b"
  by (cases "a = 0") (simp_all add: trunc_mod_def sgn_if)

lemma get_partition_range:
  assumes "pcount > 0" and "email \<noteq> []" and "(of_char (tolower (hd email)) :: int) < 128"
  shows "1 \<le> get_partition pcount email \<and> get_partition pcount email \<le> pcount"
proof -
  have "(of_char (tolower (hd email)) :: int) = int (of_char (tolower (hd email)))"
    by (simp only: of_nat_of_char)
  then have "0 \<le> schar (tolower (hd email))"
    using assms(3) by (simp add: schar_def Let_def)
  from trunc_mod_bounds [OF assms(1) this] assms(2) show ?thesis
    by (auto simp: get_partition_def)
qed

end
