(* ===== verification/Tablet.thy ===== *)
theory Tablet
  imports Node
begin

text \<open>
  The key-value commands on the tables of a server (\<open>backend/src/utils.cpp\<close>):
  \<open>execute_command\<close> runs a committed command, \<open>parsing_logic\<close> replays a logged one,
  \<open>get_command_locks\<close> takes the key's write lock, \<open>generate_client_response\<close> is the reply.
\<close>

section \<open>Commands\<close>

text \<open>
  The value after the old one in a compare-and-put: \<open>s.substr(s.find(v1) + v1.size() + 1)\<close>.
  When \<open>v1\<close> does not occur, \<open>npos\<close> wraps around and the cut is at \<open>v1.size()\<close>.
\<close>

definition cput_new_value :: "string \<Rightarrow> string \<Rightarrow> exn + string" where
  "cput_new_value s v1 =
     (case str_find s v1 of
        Some loc \<Rightarrow> substr s (loc + length v1 + 1) (length s)
      | None \<Rightarrow> substr s (length v1) (length s))"

definition parsing_logic :: "string \<Rightarrow> node \<Rightarrow> exn + node" where
  "parsing_logic message n =
     (case str_find message '' '' of
        None \<Rightarrow> Inr n
      | Some space0 \<Rightarrow>
          let rcv = substr_after message (Some space0) in
          (case str_find rcv '' '' of
             None \<Rightarrow> Inr n
           | Some space \<Rightarrow>
               let row = substr_to rcv (Some space);
                   colv = substr_after rcv (Some space);
                   tablet_num = get_tablet row
               in if \<not> active_tablets n tablet_num then Inr n
                  else if take 3 message = ''PUT'' then
                    (let space2 = str_find colv '' '';
                         col = substr_to colv space2;
                         val = substr_after colv space2
                     in Inr (put_cell tablet_num (row, col) val (ensure_lock (row, col) n)))
                  else if take 4 message = ''CPUT'' then
                    (let space2 = str_find colv '' '';
                         col = substr_to colv space2;
                         values = substr_after colv space2
                     in case lookup n tablet_num (row, col) of
                          None \<Rightarrow> Inr n
                        | Some v1 \<Rightarrow>
                            ebind (cput_new_value values v1)
                              (\<lambda>v2. Inr (put_cell tablet_num (row, col) v2 n)))
                  else if take 6 message = ''DELETE'' then
                    (case lookup n tablet_num (row, colv) of
                       None \<Rightarrow> Inr n
                     | Some _ \<Rightarrow>
                         Inr ((erase_cell tablet_num (row, colv) n)
                                \<lparr>row_locks := AList.delete (row, colv) (row_locks n)\<rparr>))
                  else Inr n))"

definition execute_command :: "string \<Rightarrow> node \<Rightarrow> exn + node" where
  "execute_command command n =
     (let tokens = split command CHR '' '' in
      ebind (at tokens 1) (\<lambda>row.
      ebind (at tokens 2) (\<lambda>col.
      ebind (at tokens 0) (\<lambda>message.
        let tablet_num = get_tablet row; k = (row, col) in
        if message = ''PUT'' then
          unlock_row k (put_cell tablet_num k (join CHR '' '' (drop 3 tokens)) n)
        else if message = ''CPUT'' then
          (let original_val = (case lookup n tablet_num k of None \<Rightarrow> [] | Some v \<Rightarrow> v) in
           ebind (cput_new_value command original_val) (\<lambda>new_val.
             unlock_row k (put_cell tablet_num k new_val n)))
        else if message = ''DELETE'' then
          ebind (unlock_row k (erase_cell tablet_num k n)) (\<lambda>m.
            Inr (m\<lparr>row_locks := AList.delete k (row_locks m)\<rparr>))
        else Inr n))))"

text \<open>
  Five attempts at \<open>pthread_rwlock_trywrlock\<close>: 0 when the lock was free, \<open>EBUSY\<close> otherwise.
\<close>

primrec try_write_lock :: "nat \<Rightarrow> key \<Rightarrow> node \<Rightarrow> bool \<times> node" where
  "try_write_lock 0 k n = (False, n)"
| "try_write_lock (Suc n_tries) k n =
     (if map_of (row_locks n) k = Some Free
      then (True, n\<lparr>row_locks := AList.update k Writer (row_locks n)\<rparr>)
      else try_write_lock n_tries k n)"

definition get_command_locks :: "string \<Rightarrow> node \<Rightarrow> bool \<times> node" where
  "get_command_locks command n =
     (let tokens = split command CHR '' '' in
      if length tokens < 3 then (False, n)
      else try_write_lock 5 (tokens ! 1, tokens ! 2) (ensure_lock (tokens ! 1, tokens ! 2) n))"

definition generate_client_response :: "bool \<Rightarrow> int \<Rightarrow> string" where
  "generate_client_response success opt =
     (let (success_msg, fail_msg) =
        (if opt = 1 then (''PUT SUCCESSFUL.'', ''PUT FAILED.'')
         else if opt = 2 then (''Replaced value one with value two in table.'',
                               ''Could not replace value one with value two in table.'')
         else if opt = 3 then (''DELETE successful.'', ''DELETE FAILED.'')
         else (''Unknown operation.'', ''Unknown operation failed.''))
      in (if success then ''+OK '' else ''-ERR '') @ (if success then success_msg else fail_msg) @ crlf)"

section \<open>Well-formed commands\<close>

text \<open>
  A key part is a non-empty word without a space; the three commands as the frontends send
  them (\<open>bend_uk\<close>, \<open>bend_ukv\<close>). A value is stored as sent when it is not empty and does not
  end in a space.
\<close>

definition word_ok :: "string \<Rightarrow> bool" where
  "word_ok w \<longleftrightarrow> w \<noteq> [] \<and> CHR '' '' \<notin> set w"

definition value_ok :: "string \<Rightarrow> bool" where
  "value_ok v \<longleftrightarrow> v \<noteq> [] \<and> last v \<noteq> CHR '' ''"

definition put_cmd :: "string \<Rightarrow> string \<Rightarrow> string \<Rightarrow> string" where
  "put_cmd row col val = ''PUT '' @ row @ '' '' @ col @ '' '' @ val"

definition cput_cmd :: "string \<Rightarrow> string \<Rightarrow> string \<Rightarrow> string \<Rightarrow> string" where
  "cput_cmd row col old val = ''CPUT '' @ row @ '' '' @ col @ '' '' @ old @ '' '' @ val"

definition delete_cmd :: "string \<Rightarrow> string \<Rightarrow> string" where
  "delete_cmd row col = ''DELETE '' @ row @ '' '' @ col"

section \<open>Lemmas: cutting commands\<close>

lemma take_app_len [simp]: "take (length xs) (xs @ ys) = xs"
  by simp

lemma find_space_kw:
  "str_find (''PUT '' @ s) '' '' = Some 3" "str_find (''CPUT '' @ s) '' '' = Some 4"
  "str_find (''DELETE '' @ s) '' '' = Some 6"
  using str_find_char [of "CHR '' ''" "''PUT''" s] str_find_char [of "CHR '' ''" "''CPUT''" s]
    str_find_char [of "CHR '' ''" "''DELETE''" s]
  by simp_all

lemma split_kw:
  "split (''PUT '' @ s) CHR '' '' = ''PUT'' # split s CHR '' ''"
  "split (''CPUT '' @ s) CHR '' '' = ''CPUT'' # split s CHR '' ''"
  "split (''DELETE '' @ s) CHR '' '' = ''DELETE'' # split s CHR '' ''"
  using split_append_delim [of "CHR '' ''" "''PUT''" s] split_append_delim [of "CHR '' ''" "''CPUT''" s]
    split_append_delim [of "CHR '' ''" "''DELETE''" s]
  by simp_all

lemma split_put_cmd:
  assumes "word_ok row" and "word_ok col"
  shows "split (put_cmd row col val) CHR '' '' = ''PUT'' # row # col # split val CHR '' ''"
  using assms unfolding put_cmd_def split_kw by (simp add: word_ok_def)

lemma split_cput_cmd:
  assumes "word_ok row" and "word_ok col"
  shows "split (cput_cmd row col old val) CHR '' '' =
     ''CPUT'' # row # col # split (old @ '' '' @ val) CHR '' ''"
  using assms unfolding cput_cmd_def split_kw by (simp add: word_ok_def)

lemma split_delete_cmd:
  assumes "word_ok row" and "word_ok col"
  shows "split (delete_cmd row col) CHR '' '' = [''DELETE'', row, col]"
  using assms unfolding delete_cmd_def split_kw by (simp add: word_ok_def split_no_delim)

section \<open>Lemmas: replaying a command\<close>

lemma parse_put:
  assumes "word_ok row" and "word_ok col" and "active_tablets n (get_tablet row)"
  shows "parsing_logic (put_cmd row col val) n =
     Inr (put_cell (get_tablet row) (row, col) val (ensure_lock (row, col) n))"
  using assms unfolding parsing_logic_def put_cmd_def find_space_kw
  by (simp add: word_ok_def substr_after_def)

lemma cput_new_value_prefix [simp]: "cput_new_value (old @ '' '' @ val) old = Inr val"
  by (simp add: cput_new_value_def substr_def)

lemma parse_cput:
  assumes "word_ok row" and "word_ok col" and "active_tablets n (get_tablet row)"
    and "lookup n (get_tablet row) (row, col) = Some old"
  shows "parsing_logic (cput_cmd row col old val) n =
     Inr (put_cell (get_tablet row) (row, col) val n)"
  using assms cput_new_value_prefix [of old val] unfolding parsing_logic_def cput_cmd_def find_space_kw
  by (simp add: word_ok_def substr_after_def)

lemma parse_delete:
  assumes "word_ok row" and "word_ok col" and "active_tablets n (get_tablet row)"
  shows "parsing_logic (delete_cmd row col) n =
     Inr (if lookup n (get_tablet row) (row, col) = None then n
          else (erase_cell (get_tablet row) (row, col) n)
                 \<lparr>row_locks := AList.delete (row, col) (row_locks n)\<rparr>)"
  using assms unfolding parsing_logic_def delete_cmd_def find_space_kw
  by (auto simp add: word_ok_def substr_after_def split: option.split)

section \<open>Lemmas: executing a command\<close>

lemma at_simps [simp]: "at (x # xs) 0 = Inr x" "at (x # xs) (Suc i) = at xs i"
  by (simp_all add: at_def)

lemma at_numeral [simp]: "at (x # xs) (numeral k) = at xs (pred_numeral k)"
  by (simp add: numeral_eq_Suc)

lemma at_one [simp]: "at (x # xs) 1 = at xs 0"
  by (simp add: at_def)

lemma exec_put:
  assumes "word_ok row" and "word_ok col" and "value_ok val"
  shows "execute_command (put_cmd row col val) n =
     unlock_row (row, col) (put_cell (get_tablet row) (row, col) val n)"
  using assms by (simp add: execute_command_def split_put_cmd value_ok_def join_split Let_def)

lemma exec_put_empty:
  assumes "word_ok row" and "word_ok col"
  shows "execute_command (put_cmd row col []) n =
     unlock_row (row, col) (put_cell (get_tablet row) (row, col) [] n)"
  using assms by (simp add: execute_command_def split_put_cmd Let_def)

lemma exec_delete:
  assumes "word_ok row" and "word_ok col"
  shows "execute_command (delete_cmd row col) n =
     ebind (unlock_row (row, col) (erase_cell (get_tablet row) (row, col) n)) (\<lambda>m.
       Inr (m\<lparr>row_locks := AList.delete (row, col) (row_locks m)\<rparr>))"
  using assms by (simp add: execute_command_def split_delete_cmd Let_def)

lemma exec_cput:
  assumes "word_ok row" and "word_ok col" and "lookup n (get_tablet row) (row, col) = Some old"
  shows "execute_command (cput_cmd row col old val) n =
     ebind (cput_new_value (cput_cmd row col old val) old) (\<lambda>new_val.
       unlock_row (row, col) (put_cell (get_tablet row) (row, col) new_val n))"
  using assms by (simp add: execute_command_def split_cput_cmd Let_def)

text \<open>
  The old value is cut out of the whole command, its keyword and key included, so the cut is
  right when the value has a character that does not occur before it.
\<close>

lemma str_find_fresh:
  assumes "c \<in> set old" and "c \<notin> set hdr"
  shows "str_find (hdr @ old @ rest) old = Some (length hdr)"
proof -
  let ?P = "\<lambda>i. i < length old \<and> old ! i \<notin> set hdr"
  define i where "i = (LEAST i. ?P i)"
  from assms have "\<exists>i. ?P i" by (metis in_set_conv_nth)
  then have "?P i" unfolding i_def by (rule LeastI_ex)
  then have i: "i < length old" "old ! i \<notin> set hdr" by simp_all
  have min: "old ! j \<in> set hdr" if "j < i" for j
    using not_less_Least [of j ?P] that i(1) by (simp add: i_def)
  have "\<not> prefix old (drop m (hdr @ old @ rest))" if m: "m < length hdr" for m
  proof
    assume "prefix old (drop m (hdr @ old @ rest))"
    then obtain zs where zs: "drop m (hdr @ old @ rest) = old @ zs" by (auto simp: prefix_def)
    have "old ! i = drop m (hdr @ old @ rest) ! i"
      unfolding zs using i by (simp only: nth_append) simp
    also have "\<dots> = (hdr @ old @ rest) ! (m + i)"
      by (rule nth_drop) (use m in simp)
    finally have eq: "old ! i = (hdr @ old @ rest) ! (m + i)" .
    show False
    proof (cases "m + i < length hdr")
      case True
      with eq i show False by (simp add: nth_append)
    next
      case False
      then have j: "m + i - length hdr < i" using m by simp
      with False i eq have "old ! i = old ! (m + i - length hdr)" by (simp add: nth_append)
      with min [OF j] i show False by simp
    qed
  qed
  then show ?thesis unfolding str_find_eq_Some_iff by (intro conjI) (simp, simp, blast)
qed

lemma cput_new_value_at:
  "str_find (hdr @ old @ '' '' @ val) old = Some (length hdr) \<Longrightarrow>
     cput_new_value (hdr @ old @ '' '' @ val) old = Inr val"
  by (simp add: cput_new_value_def substr_def)

lemma cput_new_value_command:
  assumes "c \<in> set old" and "c \<notin> set (''CPUT '' @ row @ '' '' @ col @ '' '')"
  shows "cput_new_value (cput_cmd row col old val) old = Inr val"
proof -
  have "cput_cmd row col old val = (''CPUT '' @ row @ '' '' @ col @ '' '') @ old @ '' '' @ val"
    by (simp add: cput_cmd_def)
  then show ?thesis
    using str_find_fresh [OF assms, of "'' '' @ val"] by (simp only: cput_new_value_at)
qed

section \<open>Lemmas: locks\<close>

lemma try_write_lock_eq:
  "try_write_lock (Suc k) key n =
     (if map_of (row_locks n) key = Some Free
      then (True, n\<lparr>row_locks := AList.update key Writer (row_locks n)\<rparr>) else (False, n))"
  by (induction k) auto

lemma get_command_locks_eq:
  assumes "split cmd CHR '' '' = w # row # col # ws"
  shows "get_command_locks cmd n =
     (let m = ensure_lock (row, col) n in
      if map_of (row_locks m) (row, col) = Some Free
      then (True, m\<lparr>row_locks := AList.update (row, col) Writer (row_locks m)\<rparr>) else (False, m))"
proof -
  have "try_write_lock 5 k m =
     (if map_of (row_locks m) k = Some Free
      then (True, m\<lparr>row_locks := AList.update k Writer (row_locks m)\<rparr>) else (False, m))" for k m
    using try_write_lock_eq [of 4 k m] by simp
  then show ?thesis
    unfolding get_command_locks_def assms by (simp add: Let_def)
qed

lemma get_command_locks_frame:
  "snd (get_command_locks cmd n) = n\<lparr>row_locks := row_locks (snd (get_command_locks cmd n))\<rparr>"
proof (cases "length (split cmd CHR '' '') < 3")
  case True
  then show ?thesis by (simp add: get_command_locks_def)
next
  case False
  then obtain w row col ws where "split cmd CHR '' '' = w # row # col # ws"
    by (auto simp: numeral_3_eq_3 not_less Suc_le_length_iff)
  then show ?thesis by (simp add: get_command_locks_eq Let_def ensure_lock_def)
qed

lemma get_command_locks_fields [frame, simp]:
  "table (snd (get_command_locks cmd n)) = table n"
  "active_tablets (snd (get_command_locks cmd n)) = active_tablets n"
  "tpc_file (snd (get_command_locks cmd n)) = tpc_file n"
  "queued_transactions (snd (get_command_locks cmd n)) = queued_transactions n"
  "last_seq (snd (get_command_locks cmd n)) = last_seq n"
  "tpc_queue (snd (get_command_locks cmd n)) = tpc_queue n"
  "net (snd (get_command_locks cmd n)) = net n"
  "tpc_queue_locked (snd (get_command_locks cmd n)) = tpc_queue_locked n"
  by (subst get_command_locks_frame; simp)+

end
