(* ===== verification/Wal.thy ===== *)
theory Wal
  imports Tablet
begin

text \<open>
  Durability (\<open>backend/src/utils.cpp\<close>): the write-ahead log of a tablet (\<open>log_message\<close>,
  \<open>flush_log\<close>, \<open>recover_table\<close>), its checkpoint file (\<open>create_new_checkpoint\<close>,
  \<open>restore_table\<close>), the copy of the log a replica asks for (\<open>create_log_string\<close>,
  \<open>parse_log_string\<close>), and loading and clearing tablets.
\<close>

section \<open>Files\<close>

definition file_lines :: "string \<Rightarrow> string list" where
  "file_lines content = split content newline"

definition write_log_file :: "nat \<Rightarrow> string \<Rightarrow> node \<Rightarrow> node" where
  "write_log_file t s n = n\<lparr>log_file := (log_file n)(t := Some s)\<rparr>"

definition write_table_file :: "nat \<Rightarrow> string \<Rightarrow> node \<Rightarrow> node" where
  "write_table_file t s n = n\<lparr>table_file := (table_file n)(t := Some s)\<rparr>"

fun content :: "string option \<Rightarrow> string" where
  "content None = []"
| "content (Some s) = s"

definition checkpoint_eligible :: "nat \<Rightarrow> node \<Rightarrow> bool" where
  "checkpoint_eligible t n =
     (case log_file n t of None \<Rightarrow> False | Some file \<Rightarrow> 100000000 \<le> length file)"

definition set_checkpoint :: "nat \<Rightarrow> int \<Rightarrow> node \<Rightarrow> node" where
  "set_checkpoint t c n = n\<lparr>checkpoints := (checkpoints n)(t := c)\<rparr>"

definition set_log_sequence :: "nat \<Rightarrow> int \<Rightarrow> node \<Rightarrow> node" where
  "set_log_sequence t i n = n\<lparr>log_sequences := (log_sequences n)(t := i)\<rparr>"

section \<open>Writing the log\<close>

definition log_message :: "string \<Rightarrow> int \<Rightarrow> nat \<Rightarrow> node \<Rightarrow> node" where
  "log_message message seq t n =
     (let i = log_sequences n t + 1
      in n\<lparr>log_sequences := (log_sequences n)(t := i),
            log_queues := (log_queues n)(t := log_queues n t @ [to_string i @ '' '' @ message @ '' '' @ to_string seq])\<rparr>)"

definition flush_log :: "nat \<Rightarrow> node \<Rightarrow> node" where
  "flush_log t n =
     (let old = (case log_file n t of None \<Rightarrow> to_string (checkpoints n t) @ [newline] | Some s \<Rightarrow> s);
          new = concat (map (\<lambda>msg. msg @ END_MARK @ [newline]) (log_queues n t))
      in (write_log_file t (old @ new) n)\<lparr>log_queues := (log_queues n)(t := [])\<rparr>)"

section \<open>Replaying the log\<close>

text \<open>One complete entry: the 2PC number and the end mark are cut off at the last space.\<close>

definition recover_entry :: "nat \<Rightarrow> string \<Rightarrow> node \<Rightarrow> exn + node" where
  "recover_entry t message n =
     ebind (parsing_logic (substr_to message (str_rfind message '' '')) n)
       (\<lambda>m. Inr (set_log_sequence t (log_sequences m t + 1) m))"

primrec recover_lines :: "nat \<Rightarrow> string list \<Rightarrow> bool \<Rightarrow> string \<Rightarrow> node \<Rightarrow> exn + node" where
  "recover_lines t [] multi_line message n = Inr n"
| "recover_lines t (msg # rest) multi_line message n =
     (if \<not> multi_line then
        (let message' = substr_after msg (str_find msg '' '') in
         if \<not> contains message' END_MARK then recover_lines t rest True (message' @ [newline]) n
         else ebind (recover_entry t message' n)
                (recover_lines t rest False (substr_to message' (str_rfind message' '' ''))))
      else
        (let message' = message @ msg in
         if contains message' END_MARK
         then ebind (recover_entry t message' n)
                (recover_lines t rest False (substr_to message' (str_rfind message' '' '')))
         else recover_lines t rest True (message' @ [newline]) n))"

definition recover_table :: "nat \<Rightarrow> node \<Rightarrow> exn + node" where
  "recover_table t n =
     (let n1 = (if content (log_file n t) = []
                then write_log_file t (to_string 1 @ [newline]) (set_checkpoint t 1 n) else n);
          ls = file_lines (content (log_file n1 t));
          checkpoint_str = (case ls of [] \<Rightarrow> [] | l # _ \<Rightarrow> l)
      in recover_lines t (drop 1 ls) False [] (set_checkpoint t (atoi checkpoint_str) n1))"

section \<open>Checkpoints\<close>

definition checkpoint_entry :: "key \<times> string \<Rightarrow> string" where
  "checkpoint_entry = (\<lambda>((row, col), val). row @ '' '' @ col @ '' '' @ val @ END_MARK @ [newline])"

definition create_new_checkpoint :: "nat \<Rightarrow> node \<Rightarrow> node" where
  "create_new_checkpoint t n =
     (let n1 = set_checkpoint t (checkpoints n t + 1) n;
          n2 = write_table_file t (concat (map checkpoint_entry (table n1 t))) n1;
          n3 = write_log_file t (to_string (checkpoints n2 t) @ [newline]) (set_log_sequence t 0 n2);
          n4 = (if is_primary n3 then n3
                else do_write_backend (primary_fd n3) (''CHECK_ACK '' @ to_string (int t) @ crlf) n3)
      in n4\<lparr>checkpointing := (checkpointing n4)(t := False)\<rparr>)"

definition start_new_checkpoint :: "nat \<Rightarrow> node \<Rightarrow> node" where
  "start_new_checkpoint t n =
     create_new_checkpoint t (forward_msg (''CHECKPOINT '' @ to_string (int t) @ crlf) n)"

text \<open>
  \<open>stream >> word\<close>: skip white space, take the bytes up to the next one; at the end of the
  input the variable keeps its value. The three extractions of one line.
\<close>

definition read_word :: "string \<Rightarrow> (string \<times> string) option" where
  "read_word s =
     (let u = dropWhile isspace s
      in if u = [] then None else Some (takeWhile (\<lambda>c. \<not> isspace c) u, dropWhile (\<lambda>c. \<not> isspace c) u))"

definition read_cell :: "string \<Rightarrow> string \<Rightarrow> string \<Rightarrow> string \<Rightarrow> string \<times> string \<times> string" where
  "read_cell line row col value =
     (case read_word line of
        None \<Rightarrow> (row, col, value)
      | Some (row', rest) \<Rightarrow>
          (case read_word rest of
             None \<Rightarrow> (row', col, value)
           | Some (col', rest') \<Rightarrow>
               (row', col', let v = dropWhile isspace rest' in if v = [] then value else v)))"

definition restore_entry :: "nat \<Rightarrow> key \<Rightarrow> string \<Rightarrow> node \<Rightarrow> node" where
  "restore_entry t k value n =
     put_cell t k (substr_to value (str_find value END_MARK)) (ensure_lock k n)"

primrec restore_lines :: "nat \<Rightarrow> string list \<Rightarrow> bool \<Rightarrow> string \<Rightarrow> string \<Rightarrow> string \<Rightarrow> node \<Rightarrow> node" where
  "restore_lines t [] multi_line row col value n = n"
| "restore_lines t (line # rest) multi_line row col value n =
     (if \<not> multi_line then
        (case read_cell line row col value of
           (row', col', value') \<Rightarrow>
             if \<not> contains value' END_MARK
             then restore_lines t rest True row' col' (value' @ [newline]) n
             else restore_lines t rest False row' col' [] (restore_entry t (row', col') value' n))
      else
        (let value' = value @ line in
         if contains value' END_MARK
         then restore_lines t rest False row col [] (restore_entry t (row, col) value' n)
         else restore_lines t rest True row col (value' @ [newline]) n))"

definition restore_table :: "nat \<Rightarrow> node \<Rightarrow> node" where
  "restore_table t n =
     (let n1 = (case table_file n t of None \<Rightarrow> write_table_file t [] n | Some _ \<Rightarrow> n)
      in restore_lines t (file_lines (content (table_file n1 t))) False [] [] [] n1)"

section \<open>The log of the primary\<close>

definition create_log_string :: "nat \<Rightarrow> node \<Rightarrow> string \<times> node" where
  "create_log_string t n =
     (let n1 = flush_log t n
      in (''LOGFILE '' @ to_string (int t) @ '' '' @
            concat (map (\<lambda>l. l @ [newline]) (file_lines (content (log_file n1 t)))) @ crlf, n1))"

text \<open>
  The entries of the string (\<open>parse_log_entries\<close>), each up to the next end mark; \<open>log_seq_temp\<close> and the text to
  append to the log file are accumulated. An entry already in the replica's log (same
  checkpoint, index not above the replica's) is skipped.
\<close>

lemma find_END_pos: "str_find s END_MARK = Some e \<Longrightarrow> 0 < length s"
  by (cases s) (auto simp: str_find_def)

function parse_log_entries ::
  "nat \<Rightarrow> bool \<Rightarrow> string \<Rightarrow> int \<Rightarrow> string \<Rightarrow> node \<Rightarrow> exn + (int \<times> string \<times> node)" where
  "parse_log_entries t same_checkpoint str log_seq_temp out n =
     (case str_find str END_MARK of
        None \<Rightarrow> Inr (log_seq_temp, out, n)
      | Some e \<Rightarrow>
          let msg = take e str;
              rest = drop (e + length END_MARK + 1) str;
              space_idx = str_find msg '' '';
              log_idx = atoi (substr_to msg space_idx);
              message = substr_after msg space_idx
          in if log_idx \<le> log_sequences n t \<and> same_checkpoint
             then parse_log_entries t same_checkpoint rest log_seq_temp out n
             else ebind (if active_tablets n t
                         then parsing_logic (substr_to message (str_rfind message '' '')) n else Inr n)
                    (\<lambda>m. parse_log_entries t same_checkpoint rest (max log_seq_temp log_idx)
                           (out @ msg @ END_MARK @ [newline]) m))"
  by pat_completeness auto
termination
  by (relation "measure (\<lambda>(t, b, str, i, out, n). length str)") (auto dest: find_END_pos)

declare parse_log_entries.simps [simp del]

text \<open>
  The first line is the primary's checkpoint number. The stream that appends to the log is
  opened before the file is cleared, so what it has buffered (the checkpoint line, when the
  file was empty) is written to the cleared file when the stream is closed.
\<close>

definition parse_log_string :: "string \<Rightarrow> nat \<Rightarrow> node \<Rightarrow> exn + node" where
  "parse_log_string str t n =
     (if str = [] then Inr n
      else
        let checkpoint = checkpoints n t;
            old = content (log_file n t);
            end_line1 = str_find str [newline];
            checkpoint_str = substr_to str end_line1;
            buffered = (if old = [] then checkpoint_str @ [newline] else []);
            primary_checkpoint = atoi checkpoint_str;
            body = substr_after str end_line1
        in if primary_checkpoint < checkpoint
           then Inr (write_log_file t (old @ buffered) n)
           else
             let cleared = (primary_checkpoint > checkpoint);
                 base = (if cleared then buffered @ to_string primary_checkpoint @ [newline] else old @ buffered)
             in ebind (parse_log_entries t (primary_checkpoint = checkpoint) body
                         (if cleared then 0 else log_sequences n t) [] n)
                  (\<lambda>(log_seq_temp, out, m).
                     Inr (set_log_sequence t log_seq_temp
                            (set_checkpoint t primary_checkpoint (write_log_file t (base @ out) m)))))"

section \<open>Loading and clearing tablets\<close>

definition total_avail_memory :: "node \<Rightarrow> nat \<times> node" where
  "total_avail_memory n =
     (case meminfo n of [] \<Rightarrow> (0, n) | m # ms \<Rightarrow> (m, n\<lparr>meminfo := ms\<rparr>))"

definition file_sizes :: "nat \<Rightarrow> node \<Rightarrow> exn + nat" where
  "file_sizes t n =
     (case (table_file n t, log_file n t) of
        (Some a, Some b) \<Rightarrow> Inr (length a + length b)
      | _ \<Rightarrow> Inl Runtime_error)"

text \<open>\<open>avail_mem - sizes\<close> on 64-bit unsigned integers.\<close>

definition size_diff :: "nat \<Rightarrow> nat \<Rightarrow> int" where
  "size_diff avail sizes = (int avail - int sizes) mod 2 ^ 64"

definition create_clear_thread :: "nat \<Rightarrow> node \<Rightarrow> node" where
  "create_clear_thread t n = n\<lparr>threads := threads n @ [Clear_thread t]\<rparr>"

primrec make_room :: "nat list \<Rightarrow> nat \<Rightarrow> nat \<Rightarrow> node \<Rightarrow> node" where
  "make_room [] avail sizes n = n"
| "make_room (idx # rest) avail sizes n =
     (if 2 * size_diff avail sizes \<le> int avail
      then (let n1 = (if active_tablets n idx then create_clear_thread idx n else n);
                (avail', n2) = total_avail_memory n1
            in make_room rest avail' sizes n2)
      else n)"

definition set_active :: "nat \<Rightarrow> bool \<Rightarrow> node \<Rightarrow> node" where
  "set_active t b n = n\<lparr>active_tablets := (active_tablets n)(t := b)\<rparr>"

definition load_tablet :: "nat \<Rightarrow> node \<Rightarrow> exn + node" where
  "load_tablet t n =
     (let (avail, n1) = total_avail_memory n in
      ebind (file_sizes t n1) (\<lambda>sizes.
        recover_table t (restore_table t (set_active t True (make_room [0..<5] avail sizes n1)))))"

definition clear_tablet :: "nat \<Rightarrow> node \<Rightarrow> node" where
  "clear_tablet t n =
     (let m = set_active t False (start_new_checkpoint t n)
      in m\<lparr>table := (table m)(t := [])\<rparr>)"

definition create_files :: "node \<Rightarrow> node" where
  "create_files n =
     fold (\<lambda>i m. let m1 = (case log_file m i of None \<Rightarrow> write_log_file i [] m | Some _ \<Rightarrow> m)
                 in case table_file m1 i of None \<Rightarrow> write_table_file i [] m1 | Some _ \<Rightarrow> m1) [0..<5] n"

primrec load_tablets :: "nat list \<Rightarrow> nat \<Rightarrow> nat \<Rightarrow> node \<Rightarrow> exn + node" where
  "load_tablets [] avail threshold n = Inr n"
| "load_tablets (i # rest) avail threshold n =
     ebind (file_sizes i n) (\<lambda>sizes.
       if size_diff avail sizes \<le> int threshold then load_tablets rest avail threshold n
       else ebind (recover_table i (restore_table i (set_active i True n))) (\<lambda>m.
              let (avail', m') = total_avail_memory m in load_tablets rest avail' threshold m'))"

definition load_tablets_startup :: "node \<Rightarrow> exn + node" where
  "load_tablets_startup n =
     (let (avail, n1) = total_avail_memory n in load_tablets [0..<5] avail (avail div 2) n1)"

section \<open>The admin console\<close>

definition parse_checkpoint_file :: "string \<Rightarrow> string" where
  "parse_checkpoint_file s =
     concat (map (\<lambda>msg. if contains msg END_MARK then msg else msg @ [newline]) (file_lines s))"

definition kv_entry :: "key \<times> string \<Rightarrow> string" where
  "kv_entry = (\<lambda>((row, col), val). row @ '' '' @ col @ '' '' @ val @ END_MARK)"

definition make_kv_pairs :: "node \<Rightarrow> string" where
  "make_kv_pairs n =
     concat (map (\<lambda>i. if active_tablets n i then concat (map kv_entry (table n i))
                      else parse_checkpoint_file (content (table_file n i))) [0..<5]) @ crlf"

section \<open>Lemmas: the log round trip\<close>

text \<open>A log entry as it stands in the file: its number, the command, the 2PC number.\<close>

type_synonym entry = "int \<times> string \<times> int"

definition entry_text :: "entry \<Rightarrow> string" where
  "entry_text = (\<lambda>(i, cmd, q). to_string i @ '' '' @ cmd @ '' '' @ to_string q @ END_MARK @ [newline])"

definition no_mark :: "string \<Rightarrow> bool" where
  "no_mark s \<longleftrightarrow> \<not> contains s END_MARK"

definition replay :: "nat \<Rightarrow> string \<Rightarrow> node \<Rightarrow> exn + node" where
  "replay t cmd n = ebind (parsing_logic cmd n) (\<lambda>m. Inr (set_log_sequence t (log_sequences m t + 1) m))"

lemma contains_append: "contains s p \<Longrightarrow> contains (a @ s @ b) p"
  by (auto simp: contains_iff sublist_append)

lemma contains_tail [simp]: "contains (a @ END_MARK) END_MARK"
  using contains_append [of END_MARK END_MARK a "[]"] by (simp add: contains_iff)

lemma file_lines_step: "newline \<notin> set l \<Longrightarrow> file_lines (l @ newline # ys) = l # file_lines ys"
  by (simp add: file_lines_def)

lemma newline_not_END: "newline \<notin> set END_MARK" "CHR '' '' \<notin> set END_MARK"
  by simp_all

text \<open>The number that ends an entry contains neither a space nor a line end.\<close>

lemma seq_tail:
  "newline \<notin> set (to_string q @ END_MARK)" "CHR '' '' \<notin> set (to_string q @ END_MARK)"
  by (simp_all add: to_string_notin isdigit_def)

lemma recover_entry_replay:
  "recover_entry t (cmd @ '' '' @ to_string q @ END_MARK) n = replay t cmd n"
  using str_rfind_char [OF seq_tail(2), of cmd q]
  by (simp add: recover_entry_def replay_def)

lemma recover_multi:
  assumes "no_mark (acc @ s)"
  shows "recover_lines t (file_lines (s @ '' '' @ to_string q @ END_MARK @ newline # ys)) True acc n =
    ebind (replay t (acc @ s) n) (recover_lines t (file_lines ys) False (acc @ s))"
  using assms
proof (induction "length s" arbitrary: s acc rule: less_induct)
  case less
  show ?case
  proof (cases "newline \<in> set s")
    case False
    let ?l = "s @ '' '' @ to_string q @ END_MARK"
    have l: "newline \<notin> set ?l" using False seq_tail(1) [of q] by simp
    have "file_lines (?l @ newline # ys) = ?l # file_lines ys" by (rule file_lines_step [OF l])
    moreover have "contains (acc @ ?l) END_MARK"
      using contains_tail [of "acc @ s @ '' '' @ to_string q"] by simp
    ultimately show ?thesis
      using recover_entry_replay [of t "acc @ s" q] str_rfind_char [OF seq_tail(2), of "acc @ s" q]
      by (simp add: Let_def)
  next
    case True
    then obtain l r where s: "s = l @ newline # r" and l: "newline \<notin> set l"
      by (meson split_list_first)
    have nm: "\<not> contains (acc @ l) END_MARK"
      using less.prems contains_append [of "acc @ l" END_MARK "[]" "newline # r"]
      by (auto simp: s no_mark_def)
    show ?thesis
      using less.hyps [of r "acc @ l @ [newline]"] less.prems nm
      by (simp add: s file_lines_step [OF l])
  qed
qed

lemma recover_one:
  assumes "no_mark cmd"
  shows "recover_lines t (file_lines (entry_text (i, cmd, q) @ ys)) False acc n =
    ebind (replay t cmd n) (recover_lines t (file_lines ys) False cmd)"
proof -
  have i: "CHR '' '' \<notin> set (to_string i)" "newline \<notin> set (to_string i)"
    by (simp_all add: to_string_notin isdigit_def)
  show ?thesis
  proof (cases "newline \<in> set cmd")
    case False
    let ?l = "to_string i @ '' '' @ cmd @ '' '' @ to_string q @ END_MARK"
    have l: "newline \<notin> set ?l" using False i seq_tail(1) [of q] by simp
    have "file_lines (?l @ newline # ys) = ?l # file_lines ys" by (rule file_lines_step [OF l])
    moreover have "contains (cmd @ '' '' @ to_string q @ END_MARK) END_MARK"
      using contains_tail [of "cmd @ '' '' @ to_string q"] by simp
    moreover have "substr_after ?l (str_find ?l '' '') = cmd @ '' '' @ to_string q @ END_MARK"
      using substr_after_find [OF i(1)] by simp
    ultimately show ?thesis
      using recover_entry_replay [of t cmd q] str_rfind_char [OF seq_tail(2), of cmd q]
      by (simp add: entry_text_def Let_def)
  next
    case True
    then obtain l r where s: "cmd = l @ newline # r" and l: "newline \<notin> set l"
      by (meson split_list_first)
    let ?l = "to_string i @ '' '' @ l"
    have "newline \<notin> set ?l" using l i by simp
    then have step: "file_lines (?l @ newline # ys) = ?l # file_lines ys" for ys by (rule file_lines_step)
    have cut: "substr_after ?l (str_find ?l '' '') = l"
      using substr_after_find [OF i(1)] by simp
    have nm: "\<not> contains l END_MARK"
      using assms contains_append [of l END_MARK "[]" "newline # r"] by (auto simp: s no_mark_def)
    show ?thesis
      using recover_multi [of "l @ [newline]" r t q ys n] assms step cut nm
      by (simp add: entry_text_def s)
  qed
qed

lemma recover_entries:
  assumes "\<forall>e \<in> set es. no_mark (fst (snd e))"
  shows "recover_lines t (file_lines (concat (map entry_text es))) False acc n =
    efold (replay t) (map (fst \<circ> snd) es) n"
  using assms
proof (induction es arbitrary: n acc)
  case Nil
  show ?case by (simp add: file_lines_def)
next
  case (Cons e es)
  obtain i cmd q where e: "e = (i, cmd, q)" by (cases e)
  have "recover_lines t (file_lines (concat (map entry_text (e # es)))) False acc n =
      ebind (replay t cmd n) (recover_lines t (file_lines (concat (map entry_text es))) False cmd)"
    using Cons.prems recover_one [of cmd t i q] by (simp add: e)
  also have "\<dots> = ebind (replay t cmd n) (efold (replay t) (map (fst \<circ> snd) es))"
    using Cons.IH Cons.prems by (cases "replay t cmd n") (simp_all add: comp_def)
  finally show ?case by (simp add: e comp_def)
qed


definition entry_line :: "entry \<Rightarrow> string" where
  "entry_line = (\<lambda>(i, cmd, q). to_string i @ '' '' @ cmd @ '' '' @ to_string q)"

lemma entry_text_line: "entry_text e = entry_line e @ END_MARK @ [newline]"
  by (simp add: entry_text_def entry_line_def split: prod.split)

text \<open>What the log file of tablet \<open>t\<close> holds once the queue is flushed.\<close>

definition pending_log :: "nat \<Rightarrow> node \<Rightarrow> string" where
  "pending_log t n = content (log_file (flush_log t n) t)"

lemma pending_log_flush [simp]: "pending_log t (flush_log t n) = pending_log t n"
  by (simp add: pending_log_def flush_log_def write_log_file_def Let_def)

lemma log_file_flush: "log_file (flush_log t n) t = Some (pending_log t n)"
  by (simp add: pending_log_def flush_log_def write_log_file_def Let_def)

lemma pending_log_message:
  "pending_log t (log_message cmd q t n) = pending_log t n @ entry_text (log_sequences n t + 1, cmd, q)"
  by (simp add: pending_log_def flush_log_def write_log_file_def log_message_def entry_text_def
      Let_def split: option.split)

lemma pending_log_message_other:
  "t' \<noteq> t \<Longrightarrow> pending_log t' (log_message cmd q t n) = pending_log t' n"
  by (simp add: pending_log_def flush_log_def write_log_file_def log_message_def Let_def split: option.split)

lemma pending_log_cong:
  "log_file n t = log_file m t \<Longrightarrow> log_queues n t = log_queues m t \<Longrightarrow> checkpoints n t = checkpoints m t
   \<Longrightarrow> pending_log t n = pending_log t m"
  by (cases "log_file m t") (simp_all add: pending_log_def flush_log_def write_log_file_def Let_def)

lemma atoi_to_string: "- (2 ^ 31) \<le> n \<Longrightarrow> n < 2 ^ 31 \<Longrightarrow> atoi (to_string n) = n"
  by (simp add: atoi_def strtol_to_string signed_take_bit_int_eq_self)

lemma recover_table_entries:
  assumes "log_file n t = Some (to_string c @ newline # concat (map entry_text es))"
    and "\<forall>e \<in> set es. no_mark (fst (snd e))" and "- (2 ^ 31) \<le> c" and "c < 2 ^ 31"
  shows "recover_table t n = efold (replay t) (map (fst \<circ> snd) es) (set_checkpoint t c n)"
proof -
  have "newline \<notin> set (to_string c)" by (simp add: to_string_notin isdigit_def)
  then have ls: "file_lines (to_string c @ newline # concat (map entry_text es)) =
      to_string c # file_lines (concat (map entry_text es))"
    by (rule file_lines_step)
  show ?thesis
    using assms(1,3,4) recover_entries [OF assms(2)]
    by (simp add: recover_table_def ls atoi_to_string)
qed

section \<open>Lemmas: the checkpoint round trip\<close>

definition clean_value :: "string \<Rightarrow> bool" where
  "clean_value v \<longleftrightarrow> str_find (v @ END_MARK) END_MARK = Some (length v)"

definition solid :: "string \<Rightarrow> bool" where
  "solid w \<longleftrightarrow> w \<noteq> [] \<and> (\<forall>c \<in> set w. \<not> isspace c)"

definition cell_ok :: "key \<times> string \<Rightarrow> bool" where
  "cell_ok = (\<lambda>((row, col), v). solid row \<and> solid col \<and> clean_value v \<and> (v = [] \<or> \<not> isspace (hd v)))"

lemma clean_prefix:
  assumes "clean_value (a @ b)" and "b \<noteq> []"
  shows "\<not> contains a END_MARK"
proof
  assume "contains a END_MARK"
  then obtain u w where a: "a = u @ END_MARK @ w" by (auto simp: contains_iff sublist_def)
  have "prefix END_MARK (drop (length u) ((a @ b) @ END_MARK))" by (simp add: a)
  moreover have "length u < length (a @ b)" by (simp add: a)
  ultimately show False
    using assms(1) unfolding clean_value_def str_find_eq_Some_iff by blast
qed

lemma restore_entry_clean:
  "clean_value v \<Longrightarrow> restore_entry t k (v @ END_MARK) n = put_cell t k v (ensure_lock k n)"
  by (simp add: restore_entry_def clean_value_def)

lemma restore_multi:
  assumes "clean_value (acc @ s)"
  shows "restore_lines t (file_lines (s @ END_MARK @ newline # ys)) True row col acc n =
    restore_lines t (file_lines ys) False row col [] (put_cell t (row, col) (acc @ s) (ensure_lock (row, col) n))"
  using assms
proof (induction "length s" arbitrary: s acc rule: less_induct)
  case less
  show ?case
  proof (cases "newline \<in> set s")
    case False
    then have "newline \<notin> set (s @ END_MARK)" by simp
    then have "file_lines ((s @ END_MARK) @ newline # ys) = (s @ END_MARK) # file_lines ys"
      by (rule file_lines_step)
    then show ?thesis
      using restore_entry_clean [OF less.prems, of t "(row, col)" n] contains_tail [of "acc @ s"]
      by simp
  next
    case True
    then obtain l r where s: "s = l @ newline # r" and l: "newline \<notin> set l"
      by (meson split_list_first)
    have "\<not> contains (acc @ l) END_MARK"
      using clean_prefix [of "acc @ l" "newline # r"] less.prems by (simp add: s)
    then show ?thesis
      using less.hyps [of r "acc @ l @ [newline]"] less.prems
      by (simp add: s file_lines_step [OF l])
  qed
qed

lemma read_word_solid:
  assumes "solid w"
  shows "read_word (w @ CHR '' '' # ys) = Some (w, CHR '' '' # ys)"
    and "read_word (CHR '' '' # w @ CHR '' '' # ys) = Some (w, CHR '' '' # ys)"
proof -
  obtain c cs where w: "w = c # cs" "\<not> isspace c" using assms by (cases w) (auto simp: solid_def)
  have sp: "isspace CHR '' ''" by (simp add: isspace_def)
  have "takeWhile (\<lambda>c. \<not> isspace c) (w @ CHR '' '' # ys) = w"
    and "dropWhile (\<lambda>c. \<not> isspace c) (w @ CHR '' '' # ys) = CHR '' '' # ys"
    using assms sp by (simp_all add: solid_def)
  with w sp show "read_word (w @ CHR '' '' # ys) = Some (w, CHR '' '' # ys)"
    and "read_word (CHR '' '' # w @ CHR '' '' # ys) = Some (w, CHR '' '' # ys)"
    by (simp_all add: read_word_def)
qed

lemma read_cell_solid:
  assumes "solid row" and "solid col" and "l \<noteq> []" and "\<not> isspace (hd l)"
  shows "read_cell (row @ CHR '' '' # col @ CHR '' '' # l) r c v = (row, col, l)"
proof -
  have "isspace CHR '' ''" by (simp add: isspace_def)
  moreover have "dropWhile isspace l = l" using assms(3,4) by (cases l) simp_all
  ultimately show ?thesis
    using assms by (cases l) (simp_all add: read_cell_def read_word_solid Let_def)
qed

lemma solid_no_newline: "solid w \<Longrightarrow> newline \<notin> set w"
  by (auto simp: solid_def isspace_def)

lemma restore_one:
  assumes "cell_ok ((row, col), v)"
  shows "restore_lines t (file_lines (checkpoint_entry ((row, col), v) @ ys)) False r c [] n =
    restore_lines t (file_lines ys) False row col [] (put_cell t (row, col) v (ensure_lock (row, col) n))"
proof -
  have rc: "solid row" "solid col" and clean: "clean_value v" and hd: "v = [] \<or> \<not> isspace (hd v)"
    using assms by (simp_all add: cell_ok_def)
  note nn = solid_no_newline [OF rc(1)] solid_no_newline [OF rc(2)]
  show ?thesis
  proof (cases "newline \<in> set v")
    case False
    let ?l = "row @ CHR '' '' # col @ CHR '' '' # v @ END_MARK"
    have "newline \<notin> set ?l" using False nn by simp
    then have step: "file_lines (?l @ newline # ys) = ?l # file_lines ys" by (rule file_lines_step)
    have "\<not> isspace (hd (v @ END_MARK))" using hd by (cases v) (simp_all add: isspace_def)
    then have "read_cell ?l r c [] = (row, col, v @ END_MARK)"
      using rc by (intro read_cell_solid) simp_all
    with step show ?thesis
      using restore_entry_clean [OF clean, of t "(row, col)" n] contains_tail [of v]
      by (simp add: checkpoint_entry_def)
  next
    case True
    then obtain l r' where s: "v = l @ newline # r'" and l: "newline \<notin> set l"
      by (meson split_list_first)
    have "isspace newline" by (simp add: isspace_def)
    then have l_ne: "l \<noteq> []" "\<not> isspace (hd l)" using hd by (cases l; simp add: s)+
    let ?l = "row @ CHR '' '' # col @ CHR '' '' # l"
    have "newline \<notin> set ?l" using l nn by simp
    then have step: "file_lines (?l @ newline # zs) = ?l # file_lines zs" for zs by (rule file_lines_step)
    have rd: "read_cell ?l r c [] = (row, col, l)"
      using rc l_ne by (intro read_cell_solid) simp_all
    have "\<not> contains l END_MARK"
      using clean_prefix [of l "newline # r'"] clean by (simp add: s)
    with step rd show ?thesis
      using restore_multi [of "l @ [newline]" r' t ys row col n] clean
      by (simp add: checkpoint_entry_def s)
  qed
qed

lemma restore_entries:
  assumes "\<forall>c \<in> set cells. cell_ok c"
  shows "restore_lines t (file_lines (concat (map checkpoint_entry cells))) False r c [] n =
    fold (\<lambda>(k, v) m. put_cell t k v (ensure_lock k m)) cells n"
  using assms
proof (induction cells arbitrary: n r c)
  case Nil
  show ?case by (simp add: file_lines_def)
next
  case (Cons x cells)
  obtain row col v where x: "x = ((row, col), v)" by (metis prod.exhaust)
  show ?case using Cons.prems Cons.IH restore_one [of row col v] by (simp add: x)
qed

lemma lookup_restore_fold:
  "lookup (fold (\<lambda>(k, v) m. put_cell t k v (ensure_lock k m)) cells n) t =
     fold (\<lambda>(k, v) m. m(k \<mapsto> v)) cells (lookup n t)"
proof (induction cells arbitrary: n)
  case (Cons x cells)
  obtain k v where x: "x = (k, v)" by (cases x)
  have "lookup (put_cell t k v (ensure_lock k n)) t = (lookup n t)(k \<mapsto> v)"
    by (rule ext) (simp add: lookup_cong [OF ensure_lock_frame(1)])
  then show ?case by (simp add: x Cons.IH)
qed simp

lemma fold_upd_distinct:
  "distinct (map fst cells) \<Longrightarrow> fold (\<lambda>(k, v) m. m(k \<mapsto> v)) cells f = f ++ map_of cells"
proof (induction cells arbitrary: f)
  case (Cons x cells)
  obtain k v where x: "x = (k, v)" by (cases x)
  have "k \<notin> dom (map_of cells)" using Cons.prems by (auto simp: x dom_map_of_conv_image_fst)
  then have "f(k \<mapsto> v) ++ map_of cells = f ++ (map_of cells)(k \<mapsto> v)"
    by (simp only: map_add_upd_left map_add_upd not_False_eq_True)
  then show ?case using Cons.IH [of "f(k \<mapsto> v)"] Cons.prems by (simp add: x del: fun_upd_apply)
qed simp

lemma restore_table_lookup:
  assumes "table_file n t = Some (concat (map checkpoint_entry cells))"
    and "\<forall>c \<in> set cells. cell_ok c" and "distinct (map fst cells)"
  shows "lookup (restore_table t n) t = lookup n t ++ map_of cells"
  using assms by (simp add: restore_table_def restore_entries lookup_restore_fold fold_upd_distinct)

section \<open>Lemmas: the log of the primary\<close>

lemma prefix_sep: "c \<notin> set p \<Longrightarrow> prefix p (u @ c # w) \<longleftrightarrow> prefix p u"
proof (induction u arbitrary: p)
  case Nil
  then show ?case by (cases p) auto
next
  case (Cons x u)
  then show ?case by (cases p) auto
qed

lemma sublist_sep: "c \<notin> set p \<Longrightarrow> sublist p (u @ c # w) \<longleftrightarrow> sublist p u \<or> sublist p w"
proof (induction u)
  case Nil
  then show ?case by (cases p) (auto simp: sublist_Cons_right)
next
  case (Cons x u)
  then show ?case using prefix_sep [of c p "x # u" w] by (auto simp: sublist_Cons_right)
qed

lemma sublist_set: "sublist p s \<Longrightarrow> set p \<subseteq> set s"
  by (auto simp: sublist_def)

lemma digits_no_mark: "\<not> sublist END_MARK (to_string i)"
proof
  assume "sublist END_MARK (to_string i)"
  then have "CHR ''|'' \<in> set (to_string i)" using sublist_set by fastforce
  then show False by (simp add: to_string_notin isdigit_def)
qed

lemma entry_line_no_mark: "no_mark cmd \<Longrightarrow> \<not> contains (entry_line (i, cmd, q)) END_MARK"
  using digits_no_mark [of i] digits_no_mark [of q]
  by (simp add: entry_line_def no_mark_def contains_iff sublist_sep)

lemma find_mark_end:
  assumes "\<not> contains s p" and "s = [] \<or> last s \<notin> set p"
  shows "str_find (s @ p @ ys) p = Some (length s)"
proof -
  have False if m: "m < length s" and p: "prefix p (drop m (s @ p @ ys))" for m
  proof -
    from m have "s \<noteq> []" by auto
    then obtain u c where s: "s = u @ [c]" by (metis rev_exhaust)
    have c: "c \<notin> set p" using assms(2) by (simp add: s)
    have "prefix p (drop m u @ c # p @ ys)" using m p by (simp add: s)
    then have "prefix p (drop m u)" using c by (simp add: prefix_sep)
    then have "sublist p (drop m u)" by (rule prefix_imp_sublist)
    then have "sublist p s" unfolding s
      by (metis append_take_drop_id sublist_append sublist_appendI)
    then show False using assms(1) by (simp add: contains_iff)
  qed
  then show ?thesis unfolding str_find_eq_Some_iff by (intro conjI) (simp, simp, blast)
qed

lemma entry_line_last: "last (entry_line (i, cmd, q)) \<notin> set END_MARK"
proof -
  have "last (to_string q) \<in> set (to_string q)" by simp
  then have "isdigit (last (to_string q)) \<or> last (to_string q) = CHR ''-''" by (rule to_string_chars)
  then show ?thesis by (auto simp: entry_line_def isdigit_def)
qed

lemma entry_fields:
  "substr_to (entry_line (i, cmd, q)) (str_find (entry_line (i, cmd, q)) '' '') = to_string i"
  "substr_after (entry_line (i, cmd, q)) (str_find (entry_line (i, cmd, q)) '' '') = cmd @ '' '' @ to_string q"
  using str_find_char [of "CHR '' ''" "to_string i" "cmd @ '' '' @ to_string q"]
  by (simp_all add: entry_line_def to_string_notin isdigit_def substr_after_def)

lemma entry_command: "substr_to (cmd @ '' '' @ to_string q) (str_rfind (cmd @ '' '' @ to_string q) '' '') = cmd"
  using str_rfind_char [of "CHR '' ''" "to_string q" cmd]
  by (simp add: to_string_notin isdigit_def)

lemma parse_log_step:
  assumes "no_mark cmd" and "- (2 ^ 31) \<le> i" and "i < 2 ^ 31"
  shows "parse_log_entries t same (entry_text (i, cmd, q) @ body) s out n =
    (if i \<le> log_sequences n t \<and> same then parse_log_entries t same body s out n
     else ebind (if active_tablets n t then parsing_logic cmd n else Inr n)
            (\<lambda>m. parse_log_entries t same body (max s i) (out @ entry_text (i, cmd, q)) m))"
proof -
  let ?l = "entry_line (i, cmd, q)"
  have find: "str_find (?l @ END_MARK @ newline # body) END_MARK = Some (length ?l)"
    by (rule find_mark_end) (simp_all only: entry_line_no_mark [OF assms(1)] entry_line_last not_False_eq_True disj_not1 simp_thms)
  have rest: "drop (length ?l + length END_MARK + 1) (?l @ END_MARK @ newline # body) = body"
    by simp
  have whole: "entry_text (i, cmd, q) @ body = ?l @ END_MARK @ newline # body"
    by (simp add: entry_text_line)
  show ?thesis
    unfolding whole
    apply (subst parse_log_entries.simps)
    unfolding find option.case Let_def rest take_app_len entry_fields entry_command
    using atoi_to_string [OF assms(2,3)]
    by (simp add: entry_text_line)
qed

lemma parsing_logic_log_fields:
  assumes "parsing_logic cmd n = Inr m"
  shows "active_tablets m = active_tablets n" "log_sequences m = log_sequences n"
    "checkpoints m = checkpoints n" "log_queues m = log_queues n" "log_file m = log_file n"
  using assms
  by (auto simp: parsing_logic_def Let_def ebind_eq_Inr_iff split: option.splits if_splits)

definition fresh_entries :: "nat \<Rightarrow> bool \<Rightarrow> node \<Rightarrow> entry list \<Rightarrow> entry list" where
  "fresh_entries t same n es = filter (\<lambda>(i, _, _). \<not> (i \<le> log_sequences n t \<and> same)) es"

definition entry_in_range :: "entry \<Rightarrow> bool" where
  "entry_in_range = (\<lambda>(i, cmd, q). no_mark cmd \<and> - (2 ^ 31) \<le> i \<and> i < 2 ^ 31)"

lemma parse_log_entries_active:
  assumes "\<forall>e \<in> set es. entry_in_range e" and "active_tablets n t"
  shows "parse_log_entries t same (concat (map entry_text es)) s out n =
    ebind (efold parsing_logic (map (fst \<circ> snd) (fresh_entries t same n es)) n)
      (\<lambda>m. Inr (foldl max s (map fst (fresh_entries t same n es)),
                out @ concat (map entry_text (fresh_entries t same n es)), m))"
  using assms
proof (induction es arbitrary: s out n)
  case Nil
  show ?case by (simp add: parse_log_entries.simps fresh_entries_def str_find_def)
next
  case (Cons e es)
  obtain i cmd q where e: "e = (i, cmd, q)" by (cases e)
  have ok: "no_mark cmd" "- (2 ^ 31) \<le> i" "i < 2 ^ 31" using Cons.prems by (simp_all add: e entry_in_range_def)
  note step = parse_log_step [OF ok, of t same q "concat (map entry_text es)"]
  have IH: "active_tablets m t \<Longrightarrow> log_sequences m = log_sequences n \<Longrightarrow>
     parse_log_entries t same (concat (map entry_text es)) s' out' m =
     ebind (efold parsing_logic (map (fst \<circ> snd) (fresh_entries t same n es)) m)
      (\<lambda>m. Inr (foldl max s' (map fst (fresh_entries t same n es)),
                out' @ concat (map entry_text (fresh_entries t same n es)), m))" for m s' out'
    using Cons.IH [of m s' out'] Cons.prems by (simp add: fresh_entries_def comp_def)
  show ?case
  proof (cases "i \<le> log_sequences n t \<and> same")
    case True
    then show ?thesis using step IH [of n] Cons.prems by (simp add: e fresh_entries_def comp_def)
  next
    case False
    then have fr: "fresh_entries t same n (e # es) = (i, cmd, q) # fresh_entries t same n es"
      by (auto simp: e fresh_entries_def)
    have st: "parse_log_entries t same (concat (map entry_text (e # es))) s out n =
        ebind (parsing_logic cmd n) (\<lambda>m. parse_log_entries t same (concat (map entry_text es))
          (max s i) (out @ entry_text (i, cmd, q)) m)"
      using step [of s out n] False Cons.prems(2) by (auto simp: e)
    show ?thesis
    proof (cases "parsing_logic cmd n")
      case (Inl x)
      then show ?thesis using st fr by (simp add: e comp_def)
    next
      case (Inr m)
      then show ?thesis
        using st Cons.prems fr IH [of m] parsing_logic_log_fields [OF Inr] by (simp add: e comp_def)
    qed
  qed
qed

lemma parse_log_string_same:
  assumes "log_file n t = Some old" and "old \<noteq> []" and "active_tablets n t"
    and "checkpoints n t = c" and "- (2 ^ 31) \<le> c" and "c < 2 ^ 31"
    and "\<forall>e \<in> set es. entry_in_range e"
  shows "parse_log_string (to_string c @ newline # concat (map entry_text es)) t n =
    (let new = fresh_entries t True n es in
     ebind (efold parsing_logic (map (fst \<circ> snd) new) n)
      (\<lambda>m. Inr (set_log_sequence t (foldl max (log_sequences n t) (map fst new))
              (set_checkpoint t c (write_log_file t (old @ concat (map entry_text new)) m)))))"
proof -
  have nl: "newline \<notin> set (to_string c)" by (simp add: to_string_notin isdigit_def)
  have find: "str_find (to_string c @ newline # ys) [newline] = Some (length (to_string c))" for ys
    using nl by (rule str_find_char)
  have "\<not> c < c" by simp
  then show ?thesis
    using assms parse_log_entries_active [OF assms(7,3), of True "log_sequences n t" "[]"]
    by (simp add: parse_log_string_def find Let_def atoi_to_string substr_after_def ebind_assoc)
qed

section \<open>Lemmas: loading a tablet\<close>

text \<open>The state after the checkpoint file has been read: the tablet holds its cells.\<close>

lemma restored_tablet:
  assumes "table_file x t = Some (concat (map checkpoint_entry cells))"
    and "\<forall>e \<in> set cells. cell_ok e" and "distinct (map fst cells)" and "lookup x t = Map.empty"
  defines "r \<equiv> restore_table t (set_active t True x)"
  shows "active_tablets r t" and "log_file r t = log_file x t" and "lookup r t = map_of cells"
proof -
  let ?x = "set_active t True x"
  have restored: "r = fold (\<lambda>(k, v) m. put_cell t k v (ensure_lock k m)) cells ?x"
    using assms(1,2) by (simp add: r_def restore_table_def restore_entries set_active_def)
  have keep: "active_tablets (fold (\<lambda>(k, v) m. put_cell t k v (ensure_lock k m)) cs z) = active_tablets z \<and>
      log_file (fold (\<lambda>(k, v) m. put_cell t k v (ensure_lock k m)) cs z) = log_file z" for cs z
    by (induction cs arbitrary: z) (simp_all split: prod.split)
  show "active_tablets r t" "log_file r t = log_file x t"
    unfolding restored using keep [of cells ?x] by (simp_all add: set_active_def)
  have "lookup ?x t = Map.empty" using assms(4) by (simp add: set_active_def lookup_def fun_eq_iff)
  then show "lookup r t = map_of cells"
    using restore_table_lookup [of ?x t cells] assms(1,2,3) by (simp add: r_def set_active_def)
qed

lemma parse_cput_stale:
  assumes "word_ok row" and "word_ok col" and "active_tablets n (get_tablet row)"
    and "lookup n (get_tablet row) (row, col) = Some v"
    and "str_find (old @ '' '' @ v) v = Some (Suc (length old))"
  shows "parsing_logic (cput_cmd row col old v) n = Inl Out_of_range"
proof -
  have "cput_new_value (old @ '' '' @ v) v = Inl Out_of_range"
    using assms(5) by (simp add: cput_new_value_def substr_def)
  then show ?thesis
    using assms(1-4) unfolding parsing_logic_def cput_cmd_def find_space_kw
    by (simp add: word_ok_def substr_after_def)
qed

lemma checkpoint_files:
  "table_file (create_new_checkpoint t n) t = Some (concat (map checkpoint_entry (table n t)))"
  "log_file (create_new_checkpoint t n) t = Some (to_string (checkpoints n t + 1) @ [newline])"
  "log_queues (create_new_checkpoint t n) = log_queues n"
  "checkpoints (create_new_checkpoint t n) = (checkpoints n)(t := checkpoints n t + 1)"
  by (simp_all add: create_new_checkpoint_def Let_def set_checkpoint_def write_table_file_def
        write_log_file_def set_log_sequence_def do_write_backend_def send_def)

section \<open>Properties\<close>

text \<open>
  C15: a restart replays exactly the commands in the log file, in order and each once, whatever
  bytes (line ends included) their values hold.
\<close>

theorem recovery_replays_log:
  assumes "log_file n t = Some (to_string c @ newline # concat (map entry_text es))"
    and "\<forall>e \<in> set es. no_mark (fst (snd e))" and "- (2 ^ 31) \<le> c" and "c < 2 ^ 31"
  shows "recover_table t n = efold (replay t) (map (fst \<circ> snd) es) (set_checkpoint t c n)"
  by (rule recover_table_entries [OF assms])

lemma no_mark_simps: "no_mark s \<longleftrightarrow> str_find s END_MARK = None"
  by (simp add: no_mark_def contains_def)

theorem recovery_replays_log_witness:
  "recover_table 1 (initial_node\<lparr>log_file := (\<lambda>_. Some (to_string 1 @ newline # concat (map entry_text
      [(1, put_cmd ''a'' ''b'' (''x'' @ newline # ''y''), 1), (2, delete_cmd ''a'' ''b'', 2)])))\<rparr>) =
   efold (replay 1) [put_cmd ''a'' ''b'' (''x'' @ newline # ''y''), delete_cmd ''a'' ''b'']
     (set_checkpoint 1 1 (initial_node\<lparr>log_file := (\<lambda>_. Some (to_string 1 @ newline # concat (map entry_text
      [(1, put_cmd ''a'' ''b'' (''x'' @ newline # ''y''), 1), (2, delete_cmd ''a'' ''b'', 2)])))\<rparr>))"
  by (subst recovery_replays_log [where c = 1 and
        es = "[(1, put_cmd ''a'' ''b'' (''x'' @ newline # ''y''), 1), (2, delete_cmd ''a'' ''b'', 2)]"])
    (simp_all add: no_mark_simps put_cmd_def delete_cmd_def str_find_def)

text \<open>
  C11: loading the checkpoint file that \<open>create_new_checkpoint\<close> writes gives back the tablet,
  when rows and columns are words and no value contains the end mark or starts with white
  space.
\<close>

theorem checkpoint_roundtrip:
  assumes "\<forall>e \<in> set (table n t). cell_ok e" and "distinct (map fst (table n t))"
    and "table_file m t = table_file (create_new_checkpoint t n) t" and "table m t = []"
  shows "lookup (restore_table t m) t = lookup n t"
proof -
  have "table_file m t = Some (concat (map checkpoint_entry (table n t)))"
    using assms(3) by (simp add: checkpoint_files)
  from restore_table_lookup [OF this assms(1,2)] have "lookup (restore_table t m) t = lookup m t ++ map_of (table n t)" .
  moreover have "lookup m t = Map.empty" "lookup n t = map_of (table n t)"
    using assms(4) by (simp_all add: lookup_def fun_eq_iff)
  ultimately show ?thesis by simp
qed

theorem checkpoint_roundtrip_witness:
  "lookup (restore_table 1 (initial_node\<lparr>table_file := table_file (create_new_checkpoint 1
      (initial_node\<lparr>table := (\<lambda>_. [((''a'', ''b''), ''x'' @ newline # ''y''), ((''a'', ''c''), [])])\<rparr>))\<rparr>)) 1 =
   lookup (initial_node\<lparr>table := (\<lambda>_. [((''a'', ''b''), ''x'' @ newline # ''y''), ((''a'', ''c''), [])])\<rparr>) 1"
  by (rule checkpoint_roundtrip)
    (simp_all add: cell_ok_def solid_def clean_value_def str_find_def isspace_def initial_node_def)

text \<open>
  C16: a replica that has the log up to entry \<open>log_sequences\<close> of the same checkpoint takes from
  the primary's log exactly the later entries: it replays them in order and appends them to
  its own log file.
\<close>

theorem replica_catches_up:
  assumes "log_file n t = Some old" and "old \<noteq> []" and "active_tablets n t"
    and "checkpoints n t = c" and "- (2 ^ 31) \<le> c" and "c < 2 ^ 31"
    and "\<forall>e \<in> set es. entry_in_range e"
  shows "parse_log_string (to_string c @ newline # concat (map entry_text es)) t n =
    (let new = filter (\<lambda>(i, _, _). log_sequences n t < i) es in
     ebind (efold parsing_logic (map (fst \<circ> snd) new) n)
      (\<lambda>m. Inr (set_log_sequence t (foldl max (log_sequences n t) (map fst new))
              (set_checkpoint t c (write_log_file t (old @ concat (map entry_text new)) m)))))"
proof -
  have "fresh_entries t True n es = filter (\<lambda>(i, _, _). log_sequences n t < i) es"
    by (simp add: fresh_entries_def not_le)
  then show ?thesis using parse_log_string_same [OF assms] by simp
qed


definition stale_node :: node where
  "stale_node = initial_node\<lparr>table := (\<lambda>_. [((''k'', ''c''), ''new'')]),
     log_queues := (\<lambda>_. [entry_line (2, cput_cmd ''k'' ''c'' ''old'' ''new'', 2)])\<rparr>"

lemma get_tablet_k: "get_tablet ''k'' = 2"
  by (simp add: get_tablet_def)


theorem replica_catches_up_witness:
  "parse_log_string (to_string 1 @ newline # concat (map entry_text
      [(1, put_cmd ''k'' ''c'' ''x'', 1), (2, put_cmd ''k'' ''c'' ''y'', 2)])) 2
      (initial_node\<lparr>log_file := (\<lambda>_. Some ''1''), active_tablets := (\<lambda>_. True), checkpoints := (\<lambda>_. 1),
        log_sequences := (\<lambda>_. 1)\<rparr>) =
   (let n = initial_node\<lparr>log_file := (\<lambda>_. Some ''1''), active_tablets := (\<lambda>_. True), checkpoints := (\<lambda>_. 1),
        log_sequences := (\<lambda>_. 1)\<rparr>;
        new = filter (\<lambda>(i, _, _). log_sequences n 2 < i)
          [(1, put_cmd ''k'' ''c'' ''x'', 1), (2, put_cmd ''k'' ''c'' ''y'', 2)] in
     ebind (efold parsing_logic (map (fst \<circ> snd) new) n)
      (\<lambda>m. Inr (set_log_sequence 2 (foldl max (log_sequences n 2) (map fst new))
              (set_checkpoint 2 1 (write_log_file 2 (''1'' @ concat (map entry_text new)) m)))))"
  unfolding Let_def
  by (subst replica_catches_up [where c = 1 and old = "''1''" and
        es = "[(1, put_cmd ''k'' ''c'' ''x'', 1), (2, put_cmd ''k'' ''c'' ''y'', 2)]"])
    (simp_all add: entry_in_range_def no_mark_simps put_cmd_def str_find_def Let_def)

end
