(* ===== verification/Tpc.thy ===== *)
theory Tpc
  imports Wal
begin

text \<open>
  Two-phase commit of the write commands (\<open>backend/src/utils.cpp\<close>, the handlers
  \<open>handle_message\<close>, \<open>tpc_check_function\<close> and \<open>tpc_primary_recovery_function\<close> of
  \<open>backend/src/threads.cpp\<close>). One handler runs to its end before the next one starts; the
  mutexes whose critical sections are left on every path are not shown. \<open>tpc_queue_lock\<close> is,
  because one path of \<open>process_tpc_queue\<close> returns with the lock held.
\<close>

section \<open>Locking the transaction queue\<close>

definition with_queue_lock :: "(node \<Rightarrow> 'a) \<Rightarrow> node \<Rightarrow> exn + 'a" where
  "with_queue_lock f n = (if tpc_queue_locked n then Inl Mutex_blocked else Inr (f n))"

definition already_processed :: "int \<Rightarrow> node \<Rightarrow> exn + bool" where
  "already_processed seq_num n =
     with_queue_lock (\<lambda>n.
       seq_num \<le> last_seq n \<or>
       (case map_of (tpc_queue n) seq_num of
          None \<Rightarrow> False
        | Some t \<Rightarrow> tx_status t = ''ABORT'' \<or> tx_status t = ''COMMIT'') \<or>
       seq_num \<in> set (queued_transactions n)) n"

text \<open>
  The log is one file with one position: after a write it is at the end. The file is kept as its
  lines: a message that holds a line feed becomes several.
\<close>

definition write_to_tpc_log :: "string \<Rightarrow> node \<Rightarrow> node" where
  "write_to_tpc_log message n =
     (let lines = tpc_file n @ file_lines (message @ [newline])
      in n\<lparr>tpc_file := lines, tpc_pos := length lines\<rparr>)"

definition set_tx_status :: "int \<Rightarrow> string \<Rightarrow> node \<Rightarrow> node" where
  "set_tx_status seq_num st n =
     (case map_of (tpc_queue n) seq_num of
        None \<Rightarrow> n
      | Some t \<Rightarrow> n\<lparr>tpc_queue := AList.update seq_num (t\<lparr>tx_status := st\<rparr>) (tpc_queue n)\<rparr>)"

definition set_msg_success :: "string \<Rightarrow> string \<Rightarrow> node \<Rightarrow> node" where
  "set_msg_success h st n =
     (case map_of (msg_queue n) h of
        None \<Rightarrow> n
      | Some q \<Rightarrow> n\<lparr>msg_queue := AList.update h (q\<lparr>tpc_success := st\<rparr>) (msg_queue n)\<rparr>)"

section \<open>Processing the queue\<close>

text \<open>The reply to the frontend, when this server received the request from one.\<close>

definition reply_frontend :: "bool \<Rightarrow> string \<Rightarrow> node \<Rightarrow> node" where
  "reply_frontend success h n =
     (case map_of (msg_queue n) h of
        None \<Rightarrow> n
      | Some q \<Rightarrow>
          if \<not> from_frontend q then n
          else
            let reply = generate_client_response success (mq_opt q);
                m = (if checkpointing n (get_tablet (mq_row q))
                     then n\<lparr>checkpoint_queue := checkpoint_queue n @ [(mq_fd q, reply)]\<rparr>
                     else if mq_fd q < 0 then n
                     else do_write_backend (mq_fd q) reply n)
            in m\<lparr>msg_queue := AList.delete h (msg_queue m)\<rparr>)"

text \<open>
  The transaction \<open>seq\<close> is taken: \<open>next_seq++\<close> comes before \<open>tpc_queue.erase(next_seq)\<close>,
  so the entry erased is that of \<open>seq + 1\<close>, and \<open>seq + 1\<close> is the number logged.
\<close>

definition take_transaction :: "int \<Rightarrow> node \<Rightarrow> node" where
  "take_transaction seq n = n\<lparr>last_seq := seq, tpc_queue := AList.delete (seq + 1) (tpc_queue n)\<rparr>"

definition ensure_loaded :: "nat \<Rightarrow> node \<Rightarrow> exn + node" where
  "ensure_loaded t n = (if active_tablets n t then Inr n else load_tablet t n)"

definition tpc_commit_step :: "int \<Rightarrow> transaction \<Rightarrow> node \<Rightarrow> exn + node" where
  "tpc_commit_step seq t n =
     (let command = tx_command t;
          rest = substr_after command (str_find command '' '');
          row = substr_to rest (str_find rest '' '');
          tablet_num = get_tablet row
      in ebind (ensure_loaded tablet_num (take_transaction seq n)) (\<lambda>m.
         ebind (execute_command command (log_message command (seq + 1) tablet_num m)) (\<lambda>m.
           Inr (reply_frontend True (tx_hash t) m))))"

definition tpc_abort_step :: "int \<Rightarrow> transaction \<Rightarrow> node \<Rightarrow> exn + node" where
  "tpc_abort_step seq t n =
     (let command = tx_command t;
          rest = substr_after command (str_find command '' '');
          sp2 = str_find rest '' '';
          row = substr_to rest sp2;
          col = substr_between rest sp2 (str_find_from rest '' '' (npos_succ sp2));
          m = take_transaction seq n
      in ebind (if map_of (row_locks m) (row, col) = None then Inr m else unlock_row (row, col) m) (\<lambda>m.
           Inr (reply_frontend False (tx_hash t) m)))"

definition tpc_step :: "int \<Rightarrow> transaction \<Rightarrow> node \<Rightarrow> exn + node" where
  "tpc_step seq t n =
     (if tx_status t = ''COMMIT'' then tpc_commit_step seq t n
      else if tx_status t = ''ABORT'' then tpc_abort_step seq t n
      else Inl Diverges)"

section \<open>Frames\<close>

text \<open>
  The part of the state only the 2PC handlers write, and what a server knows of itself and of
  its role. Replaying, loading, executing and answering leave both alone.
\<close>

definition role :: "node \<Rightarrow> string \<times> string \<times> string \<times> int \<times> int \<times> bool \<times> string list \<times> string list" where
  "role n = (IP n, listen_address n, primary_addr n, primary_port n, server_partition n, is_primary n, alive_replicas n,
     primary_queue n)"

definition tpc_part :: "node \<Rightarrow>
    (int \<times> transaction) list \<times> bool \<times> int list \<times> string list \<times> int \<times> (int \<times> string list) list \<times>
    int list \<times> nat \<times> (string \<times> string \<times> string \<times> int \<times> int \<times> bool \<times> string list \<times> string list) \<times>
    (int \<times> transaction) list" where
  "tpc_part n = (tpc_queue n, tpc_queue_locked n, queued_transactions n, tpc_file n, last_seq n,
     tpc_responses n, partition_fds n, tpc_pos n, role n, tpc_pending n)"

lemma tpc_part_eqD:
  assumes "tpc_part m = tpc_part n"
  shows "tpc_queue m = tpc_queue n" "tpc_queue_locked m = tpc_queue_locked n"
    "queued_transactions m = queued_transactions n" "tpc_file m = tpc_file n" "last_seq m = last_seq n"
    "tpc_responses m = tpc_responses n" "partition_fds m = partition_fds n" "tpc_pos m = tpc_pos n"
    "role m = role n" "tpc_pending m = tpc_pending n"
  using assms by (simp_all add: tpc_part_def)

lemma tpc_part_updates [simp]:
  "tpc_part (put_cell t k v n) = tpc_part n" "tpc_part (erase_cell t k n) = tpc_part n"
  "tpc_part (ensure_lock k n) = tpc_part n" "tpc_part (send fd s n) = tpc_part n"
  "tpc_part (n\<lparr>row_locks := ls\<rparr>) = tpc_part n" "tpc_part (log_message c q t n) = tpc_part n"
  "tpc_part (set_log_sequence t i n) = tpc_part n" "tpc_part (set_checkpoint t i n) = tpc_part n"
  "tpc_part (write_log_file t s n) = tpc_part n" "tpc_part (write_table_file t s n) = tpc_part n"
  "tpc_part (set_active t b n) = tpc_part n" "tpc_part (create_clear_thread t n) = tpc_part n"
  "tpc_part (reply_frontend b h n) = tpc_part n" "tpc_part (restore_entry t k v n) = tpc_part n"
  "tpc_part (do_write_backend fd s n) = tpc_part n"
  by (simp_all add: tpc_part_def role_def put_cell_def erase_cell_def ensure_lock_def send_def log_message_def
      set_log_sequence_def set_checkpoint_def write_log_file_def write_table_file_def set_active_def
      create_clear_thread_def reply_frontend_def restore_entry_def do_write_backend_def Let_def
      split: option.split)

lemma unlock_row_tpc: "unlock_row k n = Inr m \<Longrightarrow> tpc_part m = tpc_part n"
  by (erule unlock_row_InrD) simp

lemma parsing_logic_tpc: "parsing_logic cmd n = Inr m \<Longrightarrow> tpc_part m = tpc_part n"
  by (auto simp: parsing_logic_def Let_def ebind_eq_Inr_iff split: option.splits if_splits)

lemma execute_command_tpc: "execute_command cmd n = Inr m \<Longrightarrow> tpc_part m = tpc_part n"
  by (auto simp: execute_command_def Let_def ebind_eq_Inr_iff dest!: unlock_row_tpc split: if_splits)

lemma recover_entry_tpc: "recover_entry t msg n = Inr m \<Longrightarrow> tpc_part m = tpc_part n"
  by (auto simp: recover_entry_def ebind_eq_Inr_iff dest: parsing_logic_tpc)

lemma recover_lines_tpc: "recover_lines t ls b msg n = Inr m \<Longrightarrow> tpc_part m = tpc_part n"
proof (induction ls arbitrary: b msg n)
  case (Cons l ls)
  from Cons.prems show ?case
    by (auto simp: Let_def ebind_eq_Inr_iff split: if_splits dest!: recover_entry_tpc Cons.IH)
qed simp

lemma recover_table_tpc: "recover_table t n = Inr m \<Longrightarrow> tpc_part m = tpc_part n"
  by (auto simp: recover_table_def Let_def dest!: recover_lines_tpc split: if_splits)

lemma restore_lines_tpc [simp]: "tpc_part (restore_lines t ls b r c v n) = tpc_part n"
  by (induction ls arbitrary: b r c v n) (simp_all add: Let_def split: prod.split)

lemma restore_table_tpc [simp]: "tpc_part (restore_table t n) = tpc_part n"
  by (simp add: restore_table_def Let_def split: option.split)

lemma total_avail_memory_tpc: "total_avail_memory n = (a, m) \<Longrightarrow> tpc_part m = tpc_part n"
  by (auto simp: total_avail_memory_def tpc_part_def role_def split: list.splits)

lemma make_room_tpc [simp]: "tpc_part (make_room is a s n) = tpc_part n"
  by (induction "is" arbitrary: a n)
    (auto simp: Let_def split: prod.split dest!: total_avail_memory_tpc)

lemma load_tablet_tpc: "load_tablet t n = Inr m \<Longrightarrow> tpc_part m = tpc_part n"
  by (auto simp: load_tablet_def Let_def ebind_eq_Inr_iff split: prod.splits
      dest!: recover_table_tpc total_avail_memory_tpc)

lemma ensure_loaded_tpc: "ensure_loaded t n = Inr m \<Longrightarrow> tpc_part m = tpc_part n"
  by (auto simp: ensure_loaded_def dest: load_tablet_tpc split: if_splits)

lemma tpc_step_part: "tpc_step seq t n = Inr m \<Longrightarrow> tpc_part m = tpc_part (take_transaction seq n)"
  by (auto simp: tpc_step_def tpc_commit_step_def tpc_abort_step_def Let_def ebind_eq_Inr_iff
      split: if_splits dest!: ensure_loaded_tpc execute_command_tpc unlock_row_tpc)

section \<open>The loop\<close>

definition later_keys :: "int \<Rightarrow> node \<Rightarrow> int set" where
  "later_keys k n = {j \<in> fst ` set (tpc_queue n). k \<le> j}"

lemma later_keys_step:
  assumes "tpc_step seq t n = Inr m" and "map_of (tpc_queue n) seq = Some t"
  shows "card (later_keys (seq + 1) m) < card (later_keys seq n)"
proof (rule psubset_card_mono)
  show "finite (later_keys seq n)" by (simp add: later_keys_def)
  have q: "tpc_queue m = AList.delete (seq + 1) (tpc_queue n)"
    using tpc_step_part [OF assms(1)] by (simp add: tpc_part_def take_transaction_def)
  have "seq \<in> fst ` set (tpc_queue n)" using assms(2) by (metis fst_conv image_eqI map_of_SomeD)
  then have "seq \<in> later_keys seq n" "seq \<notin> later_keys (seq + 1) m" by (simp_all add: later_keys_def)
  moreover have "later_keys (seq + 1) m \<subseteq> later_keys seq n"
    by (auto simp: later_keys_def q AList.delete_eq)
  ultimately show "later_keys (seq + 1) m \<subset> later_keys seq n" by blast
qed

function tpc_loop :: "int \<Rightarrow> node \<Rightarrow> exn + node" where
  "tpc_loop next_seq n =
     (case map_of (tpc_queue n) next_seq of
        None \<Rightarrow> Inr (n\<lparr>tpc_queue_locked := False\<rparr>)
      | Some cur_t \<Rightarrow>
          if tx_status cur_t = ''PREPARE'' then Inr n
          else (case tpc_step next_seq cur_t n of
                  Inl e \<Rightarrow> Inl e
                | Inr m \<Rightarrow> tpc_loop (next_seq + 1) m))"
  by pat_completeness auto
termination
  by (relation "measure (\<lambda>(k, n). card (later_keys k n))") (simp_all add: later_keys_step)

declare tpc_loop.simps [simp del]

definition process_tpc_queue :: "node \<Rightarrow> exn + node" where
  "process_tpc_queue n =
     (if tpc_queue_locked n then Inl Mutex_blocked
      else tpc_loop (last_seq n + 1) (n\<lparr>tpc_queue_locked := True\<rparr>))"

end
