(* ===== verification/Tpc_Handlers.thy ===== *)
theory Tpc_Handlers
  imports Tpc
begin

text \<open>
  The handlers of the 2PC messages: the decisions of the primary, the vote and the
  obedience of a replica, the log read at start-up and election, time-outs and recovery, and
  \<open>handle_message\<close>, which routes a write command or a \<open>TPC:\<close> message.
\<close>

section \<open>Decisions of the primary\<close>

text \<open>
  \<open>primary_abort_transaction\<close> and \<open>primary_commit_transaction\<close> are the same text but for the
  decision's name, here the first argument.
\<close>

definition decision_line :: "string \<Rightarrow> string \<Rightarrow> int \<Rightarrow> string" where
  "decision_line d h seq_num = ''TPC:'' @ d @ '':'' @ h @ '':'' @ to_string seq_num"

definition take_decision :: "string \<Rightarrow> int \<Rightarrow> string \<Rightarrow> node \<Rightarrow> exn + node" where
  "take_decision d seq_num h n =
     (let n1 = n\<lparr>queued_transactions := List.insert seq_num (queued_transactions n),
                 tpc_responses := AList.delete seq_num (tpc_responses n),
                 tpc_start_time := AList.delete seq_num (tpc_start_time n)\<rparr>;
          n2 = forward_msg (decision_line d h seq_num @ crlf) (write_to_tpc_log (decision_line d h seq_num) n1)
      in ebind (with_queue_lock (set_tx_status seq_num d) (set_msg_success h d n2)) process_tpc_queue)"

text \<open>
  The locks are given back between the check and the rest: two threads may both pass the check
  before either goes on (\<open>decisions_race\<close>). The handler as a whole is one thread's run.
\<close>

definition primary_decide :: "string \<Rightarrow> int \<Rightarrow> string \<Rightarrow> node \<Rightarrow> exn + node" where
  "primary_decide d seq_num h n =
     ebind (already_processed seq_num n) (\<lambda>done. if done then Inr n else take_decision d seq_num h n)"

definition primary_abort_transaction :: "int \<Rightarrow> string \<Rightarrow> node \<Rightarrow> exn + node" where
  "primary_abort_transaction = primary_decide ''ABORT''"

definition primary_commit_transaction :: "int \<Rightarrow> string \<Rightarrow> node \<Rightarrow> exn + node" where
  "primary_commit_transaction = primary_decide ''COMMIT''"

text \<open>
  A condition wait on \<open>primary_recovering\<close>: the handler goes no further until another
  thread has finished the recovery.
\<close>

definition start_tpc :: "string \<Rightarrow> string \<Rightarrow> int \<Rightarrow> node \<Rightarrow> exn + node" where
  "start_tpc command h cur_seq n =
     (if primary_recovering n then Inl Mutex_blocked
      else
        ebind (with_queue_lock (\<lambda>m. m\<lparr>tpc_queue := AList.update cur_seq
                  \<lparr>tx_status = ''PREPARE'', tx_command = command, tx_hash = h\<rparr> (tpc_queue m)\<rparr>)
               (n\<lparr>tpc_start_time := map_put cur_seq (clock n) (tpc_start_time n)\<rparr>)) (\<lambda>m.
        let m1 = m\<lparr>tpc_replicas := AList.update cur_seq (alive_replicas m) (tpc_replicas m)\<rparr>;
            line = decision_line ''PREPARE'' h cur_seq
        in Inr (forward_msg (line @ '':'' @ command @ crlf) (write_to_tpc_log line m1))))"

section \<open>Reading the 2PC log\<close>

definition process_log_line :: "string \<Rightarrow> node \<Rightarrow> exn + node" where
  "process_log_line line n =
     (let tokens = split line CHR '':'' in
      if length tokens \<noteq> 4 then Inr n
      else
        let type = tokens ! 1; h = tokens ! 2 in
        ebind (stoi (tokens ! 3)) (\<lambda>seq.
          let n1 = n\<lparr>tpc_seq := max (tpc_seq n) seq\<rparr> in
          if seq \<le> last_seq n1 then Inr n1
          else if type = ''PREPARE'' then
            Inr (n1\<lparr>tpc_pending := map_put seq \<lparr>tx_status = type, tx_command = [], tx_hash = h\<rparr> (tpc_pending n1)\<rparr>)
          else if type = ''COMMIT'' \<or> type = ''ABORT'' then
            Inr (n1\<lparr>tpc_pending := AList.delete seq (tpc_pending n1), last_seq := max (last_seq n1) seq\<rparr>)
          else Inr n1))"

text \<open>The lines from the file's position on; \<open>tpc_pending\<close> is emptied first.\<close>

definition process_tpc_log :: "node \<Rightarrow> exn + node" where
  "process_tpc_log n =
     efold process_log_line (drop (tpc_pos n) (tpc_file n))
       (n\<lparr>tpc_pending := [], tpc_pos := length (tpc_file n)\<rparr>)"

section \<open>Votes\<close>

definition responses_of :: "node \<Rightarrow> int \<Rightarrow> string list" where
  "responses_of n seq_num = (case map_of (tpc_responses n) seq_num of None \<Rightarrow> [] | Some rs \<Rightarrow> rs)"

definition replicas_of :: "node \<Rightarrow> int \<Rightarrow> string list" where
  "replicas_of n seq_num = (case map_of (tpc_replicas n) seq_num of None \<Rightarrow> [] | Some rs \<Rightarrow> rs)"

definition primary_vote :: "string \<Rightarrow> node \<Rightarrow> exn + node" where
  "primary_vote message n =
     (if \<not> (contains message ''YES'' \<or> contains message ''NO'') then Inr n
      else
        let tokens = split message CHR '':'' in
        if length tokens \<noteq> 6 then Inr n
        else
          let h = tokens ! 2; ip_port = tokens ! 4 @ '':'' @ tokens ! 5 in
          ebind (stoi (tokens ! 3)) (\<lambda>seq_num.
          ebind (already_processed seq_num n) (\<lambda>done.
            if done then Inr n
            else case map_of (tpc_queue n) seq_num of
                None \<Rightarrow> Inr n
              | Some t \<Rightarrow>
                  if contains message ''YES'' then
                    (let rs = List.insert ip_port (responses_of n seq_num);
                         n1 = n\<lparr>tpc_responses := AList.update seq_num rs (tpc_responses n)\<rparr>
                     in if length rs = length (replicas_of n1 seq_num) \<or> length (alive_replicas n1) \<le> length rs
                        then (case get_command_locks (tx_command t) n1 of
                                (success, n2) \<Rightarrow>
                                  if success then primary_commit_transaction seq_num h n2
                                  else primary_abort_transaction seq_num h n2)
                        else Inr n1)
                  else primary_abort_transaction seq_num h n)))"

definition replica_prepare :: "string \<Rightarrow> node \<Rightarrow> exn + node" where
  "replica_prepare message n =
     (let first_colon = str_find message '':'';
          second_colon = str_find_from message '':'' (npos_succ first_colon);
          third_colon = str_find_from message '':'' (npos_succ second_colon);
          h = substr_between message second_colon third_colon;
          fourth_colon = str_find_from message '':'' (npos_succ third_colon)
      in ebind (stoi (substr_between message third_colon fourth_colon)) (\<lambda>seq_num.
           let command = substr_after message fourth_colon in
           ebind (with_queue_lock (\<lambda>n. map_of (tpc_queue n) seq_num \<noteq> None) n) (\<lambda>in_tpc_queue.
             if seq_num \<le> last_seq n \<or> in_tpc_queue then Inr n
             else
               let n1 = write_to_tpc_log (decision_line ''PREPARE'' h seq_num) n;
                   n2 = n1\<lparr>tpc_seq := max (tpc_seq n1) seq_num,
                           tpc_queue := AList.update seq_num
                             \<lparr>tx_status = ''PREPARE'', tx_command = command, tx_hash = h\<rparr> (tpc_queue n1)\<rparr>;
                   (success, n3) = get_command_locks command n2;
                   vote = (if success \<and> \<not> is_recovering n3 then ''YES'' else ''NO'')
               in Inr (do_write_backend (primary_fd n3)
                         (decision_line vote h seq_num @ '':'' @ IP n3 @ '':'' @ to_string (primary_port n3) @ crlf) n3))))"

definition replica_decision :: "string \<Rightarrow> node \<Rightarrow> exn + node" where
  "replica_decision message n =
     (let tokens = split message CHR '':'' in
      if length tokens \<noteq> 4 then Inr n
      else
        let st = tokens ! 1; h = tokens ! 2 in
        ebind (stoi (tokens ! 3)) (\<lambda>seq_num.
        ebind (already_processed seq_num n) (\<lambda>done.
          if done then Inr n
          else
            let n1 = write_to_tpc_log message
                       (n\<lparr>queued_transactions := List.insert seq_num (queued_transactions n)\<rparr>)
            in ebind (with_queue_lock (set_tx_status seq_num st) (set_msg_success h st n1)) process_tpc_queue)))"

definition handle_tpc :: "string \<Rightarrow> node \<Rightarrow> exn + node" where
  "handle_tpc message n =
     (if is_primary n then primary_vote message n
      else if contains message ''PREPARE'' then replica_prepare message n
      else if contains message ''COMMIT'' \<or> contains message ''ABORT'' then replica_decision message n
      else Inr n)"

section \<open>Write commands\<close>

definition opt_of :: "string \<Rightarrow> int" where
  "opt_of opt_str =
     (if opt_str = ''PUT'' then 1 else if opt_str = ''CPUT'' then 2 else if opt_str = ''DELETE'' then 3 else -1)"

definition command_parts :: "string \<Rightarrow> string \<times> string \<times> string" where
  "command_parts message =
     (let space_pos = str_find message '' '';
          second_space = str_find_from message '' '' (npos_succ space_pos);
          third_space = str_find_from message '' '' (npos_succ second_space)
      in (substr_to message space_pos, substr_between message space_pos second_space,
          substr_between message second_space third_space))"

definition primary_command ::
  "(string \<Rightarrow> nat) \<Rightarrow> string \<Rightarrow> string \<Rightarrow> int \<Rightarrow> bool \<Rightarrow> node \<Rightarrow> exn + node" where
  "primary_command H hash0 message connfd backend_conn n =
     (let h = (if backend_conn then hash0 else create_hash H n message);
          this_seq = tpc_seq n + 1;
          (opt_str, row, col) = command_parts message;
          opt = opt_of opt_str;
          msg = \<lparr>mq_fd = connfd, from_frontend = \<not> backend_conn, tpc_success = ''PREPARE'',
                 original_ipport = ''NA'', mq_opt = opt, mq_row = row, mq_col = col\<rparr>;
          n1 = n\<lparr>tpc_seq := this_seq, msg_queue := AList.update h msg (msg_queue n)\<rparr>;
          tablet_num = get_tablet row
      in if partition_fds n1 \<noteq> [] then start_tpc message h this_seq n1
         else
           (case get_command_locks message n1 of
              (True, n2) \<Rightarrow>
                ebind (ensure_loaded tablet_num n2) (\<lambda>n3.
                  let n4 = n3\<lparr>last_seq := last_seq n3 + 1\<rparr> in
                  ebind (execute_command message (log_message message (last_seq n4) tablet_num n4)) (\<lambda>n5.
                    let reply = generate_client_response True opt;
                        n6 = (if checkpointing n5 tablet_num
                              then n5\<lparr>checkpoint_queue := checkpoint_queue n5 @ [(connfd, reply)]\<rparr>
                              else do_write_backend connfd reply n5)
                    in Inr (n6\<lparr>msg_queue := AList.delete h (msg_queue n6)\<rparr>)))
            | (False, n2) \<Rightarrow>
                let n3 = do_write_backend connfd (generate_client_response False opt) n2
                in Inr (n3\<lparr>msg_queue := AList.delete h (msg_queue n3)\<rparr>)))"

text \<open>
  A replica sends the command to the primary, or keeps it in \<open>primary_queue\<close> when the
  connection is gone. The row, column and sender of the entry keep their default values.
\<close>

definition replica_command :: "(string \<Rightarrow> nat) \<Rightarrow> string \<Rightarrow> int \<Rightarrow> node \<Rightarrow> node" where
  "replica_command H message connfd n =
     (let h = create_hash H n message;
          fwd = h @ '' '' @ message @ crlf;
          n1 = (if primary_fd n < 0 then n\<lparr>primary_queue := primary_queue n @ [fwd]\<rparr>
                else send (primary_fd n) fwd n);
          msg = \<lparr>mq_fd = connfd, from_frontend = True, tpc_success = ''PREPARE'', original_ipport = [],
                 mq_opt = opt_of (substr_to message (str_find message '' '')), mq_row = [], mq_col = []\<rparr>
      in n1\<lparr>msg_queue := AList.update h msg (msg_queue n1)\<rparr>)"

definition handle_message ::
  "(string \<Rightarrow> nat) \<Rightarrow> string \<Rightarrow> string \<Rightarrow> int \<Rightarrow> bool \<Rightarrow> bool \<Rightarrow> node \<Rightarrow> exn + node" where
  "handle_message H hash0 message connfd backend_conn is_tpc n =
     (if is_tpc then handle_tpc message n
      else if is_primary n then primary_command H hash0 message connfd backend_conn n
      else Inr (replica_command H message connfd n))"

text \<open>
  A replica that becomes the primary runs the commands it had kept for the old one. The kept
  text ends with the line end \<open>replica_command\<close> put there for the network.
\<close>

definition handle_primary_queue :: "node \<Rightarrow> exn + node" where
  "handle_primary_queue n =
     (if \<not> is_primary n then Inr n
      else
        ebind (efold (\<lambda>msg m.
            let space = str_find msg '' '';
                m1 = m\<lparr>tpc_seq := tpc_seq m + 1\<rparr>
            in start_tpc (substr_after msg space) (substr_to msg space) (tpc_seq m1) m1)
          (primary_queue n) n) (\<lambda>m. Inr (m\<lparr>primary_queue := []\<rparr>)))"

section \<open>Time-outs and recovery\<close>

text \<open>One round of \<open>tpc_check_function\<close>; the time-out is 6000 seconds.\<close>

definition tpc_check_round :: "node \<Rightarrow> exn + node" where
  "tpc_check_round n =
     (let to_remove = map fst (filter (\<lambda>(seq_num, start_time). clock n - start_time > 6000) (tpc_start_time n))
      in efold (\<lambda>seq_num m.
           ebind (with_queue_lock (\<lambda>m. map_of (tpc_queue m) seq_num) m) (\<lambda>found.
             case found of
               None \<Rightarrow> Inr m
             | Some t \<Rightarrow> primary_abort_transaction seq_num (tx_hash t) m)) to_remove n)"

text \<open>
  One round of \<open>tpc_primary_recovery_function\<close>: it asks the coordinator how many replicas
  there are until they are all connected (or the server is primary no more), then aborts what
  is pending.
\<close>

definition tpc_primary_recovery :: "int \<Rightarrow> node \<Rightarrow> exn + node" where
  "tpc_primary_recovery conn_fd n =
     (if is_primary n \<and> (replica_count n < 0 \<or> int (length (alive_replicas n)) < replica_count n)
      then Inr (do_write_backend conn_fd (''REPLICA COUNT '' @ to_string (server_partition n) @ crlf)
                 (n\<lparr>threads := threads n @ [Primary_recovery_thread conn_fd]\<rparr>))
      else ebind (efold (\<lambda>(seq_num, t). primary_abort_transaction seq_num (tx_hash t)) (tpc_pending n) n)
             (\<lambda>m. Inr (m\<lparr>primary_recovering := False\<rparr>)))"

end
