(* ===== verification/Server.thy ===== *)
theory Server
  imports Tpc_Handlers
begin

text \<open>
  One connection of a storage server (\<open>start_func\<close> of \<open>backend/src/threads.cpp\<close>, the accept
  loop of \<open>backend/table.cpp\<close>): how the bytes that arrive are cut into messages, and which
  handler each message goes to.
\<close>

section \<open>Connections\<close>

record conn =
  connfd :: int
  coord_conn :: bool
  backend_conn :: bool
  conn_address :: string

record config =
  forward_addresses :: "string list"
  part_addresses :: "string list"

text \<open>
  The accept loop: \<open>addr\<close> is the peer's address. \<open>part_addresses\<close> is
  \<open>partition_map[partition]\<close>.
\<close>

definition accept_connection :: "config \<Rightarrow> int \<Rightarrow> string \<Rightarrow> node \<Rightarrow> conn \<times> node" where
  "accept_connection cfg fd addr n =
     (let n1 = (if addr = primary_addr n then n\<lparr>primary_fd := fd\<rparr> else n);
          replica = (addr \<in> set (part_addresses cfg) \<and> is_primary n1);
          backend = (addr \<in> set (forward_addresses cfg) \<or> replica);
          n2 = (if replica
                then n1\<lparr>partition_fds := partition_fds n1 @ [fd],
                        alive_replicas := List.insert addr (alive_replicas n1)\<rparr> else n1);
          n3 = (if \<not> backend then n2\<lparr>frontend_fds := List.insert fd (frontend_fds n2)\<rparr> else n2)
      in (\<lparr>connfd = fd, coord_conn = False, backend_conn = backend, conn_address = addr\<rparr>, n3))"

text \<open>The start of the connection's thread, and its end.\<close>

definition start_connection :: "conn \<Rightarrow> node \<Rightarrow> node" where
  "start_connection c n =
     (let n1 = do_write_backend (connfd c) (''+OK Server ready.'' @ crlf) n
      in if connfd c \<noteq> primary_fd n1 then n1
         else do_write_backend (connfd c) (''TSEQNUM'' @ crlf)
                (send_queued_primary
                  (fold (\<lambda>i m. do_write_backend (connfd c)
                      (''+OK REQUEST logfile '' @ to_string (int i) @ crlf) m) [0..<5] n1)))"

definition close_connection :: "conn \<Rightarrow> node \<Rightarrow> node" where
  "close_connection c n =
     (let n1 = n\<lparr>partition_fds := remove1 (connfd c) (partition_fds n)\<rparr>
      in if is_primary n1 \<and> backend_conn c
         then n1\<lparr>alive_replicas := removeAll (conn_address c) (alive_replicas n1)\<rparr> else n1)"

section \<open>Messages of the coordinator\<close>

definition stop_server :: "conn \<Rightarrow> node \<Rightarrow> node" where
  "stop_server c n =
     (let n1 = n\<lparr>frontend_fds := []\<rparr>;
          n2 = (if is_primary n1
                then n1\<lparr>is_primary := False, partition_fds := [], alive_replicas := []\<rparr> else n1)
      in do_write_backend (connfd c) (''+ACK'' @ crlf) n2)"

text \<open>
  \<open>+OK PRIMARY address count\<close>. \<open>new_fd\<close> is the descriptor of the connection to the new
  primary.
\<close>

definition become_primary :: "conn \<Rightarrow> node \<Rightarrow> exn + node" where
  "become_primary c n =
     (let n1 = n\<lparr>is_primary := True, primary_recovering := True,
                 primary_fd := (if primary_fd n > 0 then -1 else primary_fd n),
                 threads := threads n @ [Tpc_check_thread]\<rparr>
      in ebind (process_tpc_log n1) (\<lambda>n2.
           handle_primary_queue (n2\<lparr>threads := threads n2 @ [Primary_recovery_thread (connfd c)]\<rparr>)))"

definition new_primary :: "int \<Rightarrow> conn \<Rightarrow> string \<Rightarrow> node \<Rightarrow> exn + node" where
  "new_primary new_fd c message n =
     (let tokens = split message CHR '' '' in
      if length tokens < 4 then Inr n
      else
        ebind (stoi (tokens ! 3)) (\<lambda>count.
        let n1 = n\<lparr>primary_addr := tokens ! 2, replica_count := count - 1\<rparr>
        in if primary_addr n1 = listen_address n1 \<and> \<not> is_primary n1 then become_primary c n1
           else if primary_addr n1 = listen_address n1 then Inr n1
           else Inr (n1\<lparr>is_primary := False, primary_fd := new_fd,
                        threads := threads n1 @ [Start_thread new_fd False]\<rparr>)))"

section \<open>Messages between servers\<close>

definition tseq_return :: "string \<Rightarrow> node \<Rightarrow> exn + node" where
  "tseq_return message n =
     (let tokens = split message CHR '' '' in
      if length tokens \<noteq> 3 then Inr n
      else ebind (stoi (tokens ! 1)) (\<lambda>cur_tseq. ebind (stoi (tokens ! 2)) (\<lambda>cur_last_seq.
             Inr (n\<lparr>tpc_seq := max (tpc_seq n) cur_tseq, last_seq := max (last_seq n) cur_last_seq\<rparr>))))"

text \<open>A tablet number read from a message indexes arrays of length 5 unchecked.\<close>

definition with_tablet :: "int \<Rightarrow> (nat \<Rightarrow> exn + node) \<Rightarrow> exn + node" where
  "with_tablet num f = (if 0 \<le> num \<and> num < 5 then f (nat num) else Inl Undefined_behaviour)"

definition request_log :: "conn \<Rightarrow> string \<Rightarrow> node \<Rightarrow> exn + node" where
  "request_log c message n =
     with_tablet (atoi (substr_after message (str_rfind message '' ''))) (\<lambda>num.
       case create_log_string num n of (logstring, m) \<Rightarrow> Inr (do_write_backend (connfd c) logstring m))"

definition check_ack :: "string \<Rightarrow> node \<Rightarrow> exn + node" where
  "check_ack message n =
     with_tablet (atoi (substr_after message (str_find message '' ''))) (\<lambda>num.
       let acks = checkpoint_acks n num + 1;
           n1 = n\<lparr>checkpoint_acks := (checkpoint_acks n)(num := acks)\<rparr>
       in if int (length (partition_fds n1)) \<le> acks
          then let n2 = send_queued_messages (forward_msg (''CHECK_DONE'' @ crlf) n1)
               in Inr (n2\<lparr>checkpoint_acks := (checkpoint_acks n2)(num := 0)\<rparr>)
          else Inr n1)"

definition receive_log :: "string \<Rightarrow> node \<Rightarrow> exn + node" where
  "receive_log message n =
     (let log_num = substr_after message (str_find message '' '') @ [newline];
          sp0 = str_find log_num '' '';
          log = substr_after log_num sp0
      in with_tablet (atoi (substr_to log_num sp0)) (\<lambda>num.
           Inr (n\<lparr>threads := threads n @ [Recovery_thread log num]\<rparr>)))"

definition replica_count_msg :: "string \<Rightarrow> node \<Rightarrow> exn + node" where
  "replica_count_msg message n =
     ebind (at (split message CHR '' '') 2) (\<lambda>s. ebind (stoi s) (\<lambda>count.
       Inr (n\<lparr>replica_count := count - 1\<rparr>)))"

section \<open>Commands of the frontends\<close>

definition reply_204 :: string where
  "reply_204 = ''-ERR 204 specific row and column does not exist.'' @ crlf"

text \<open>
  The read lock is tried once (\<open>lock_attempt\<close>) before the loop of five tries; when it is
  busy, the value is read without the lock. Either way the lock is as before afterwards.
\<close>

definition read_cell_value :: "nat \<Rightarrow> key \<Rightarrow> node \<Rightarrow> exn + string" where
  "read_cell_value t k n =
     (case map_of (row_locks n) k of
        None \<Rightarrow> Inl Undefined_behaviour
      | Some l \<Rightarrow> Inr (case lookup n t k of None \<Rightarrow> [] | Some v \<Rightarrow> v))"

definition get_command :: "conn \<Rightarrow> string \<Rightarrow> string \<Rightarrow> string \<Rightarrow> node \<Rightarrow> exn + node" where
  "get_command c message row col n =
     (if message = ''GET passwd null'' then Inr (do_write_backend (connfd c) (make_kv_pairs n) n)
      else
        let t = get_tablet row in
        ebind (ensure_loaded t n) (\<lambda>n1.
          if lookup n1 t (row, col) = None then Inr (do_write_backend (connfd c) reply_204 n1)
          else ebind (read_cell_value t (row, col) n1) (\<lambda>v.
                 if checkpointing n1 t
                 then Inr (n1\<lparr>checkpoint_queue := checkpoint_queue n1 @ [(connfd c, v @ crlf)]\<rparr>)
                 else Inr (do_write_backend (connfd c) (v @ crlf) n1))))"

definition put_command ::
  "(string \<Rightarrow> nat) \<Rightarrow> conn \<Rightarrow> string \<Rightarrow> string \<Rightarrow> string \<Rightarrow> string \<Rightarrow> node \<Rightarrow> exn + node" where
  "put_command H c hash0 message row colv n =
     (let col = substr_to colv (str_find colv '' '')
      in handle_message H hash0 message (connfd c) (backend_conn c) False (ensure_lock (row, col) n))"

definition cput_command ::
  "(string \<Rightarrow> nat) \<Rightarrow> conn \<Rightarrow> string \<Rightarrow> string \<Rightarrow> string \<Rightarrow> string \<Rightarrow> node \<Rightarrow> exn + node" where
  "cput_command H c hash0 message row colv n =
     (let space2 = str_find colv '' '';
          col = substr_to colv space2;
          values = substr_after colv space2;
          t = get_tablet row
      in ebind (ensure_loaded t n) (\<lambda>n1.
           case lookup n1 t (row, col) of
             None \<Rightarrow> Inr (do_write_backend (connfd c) reply_204 n1)
           | Some existing_val \<Rightarrow>
               if take (min (length existing_val) (length values)) values \<noteq> existing_val
               then Inr (do_write_backend (connfd c) (''-ERR 204 original value does not match.'' @ crlf) n1)
               else ebind (substr values (length existing_val + 1) (length values)) (\<lambda>new_val.
                 if new_val = existing_val
                 then Inr (do_write_backend (connfd c) (''+OK table entry did not change.'' @ crlf) n1)
                 else handle_message H hash0 message (connfd c) (backend_conn c) False n1)))"

definition delete_command ::
  "(string \<Rightarrow> nat) \<Rightarrow> conn \<Rightarrow> string \<Rightarrow> string \<Rightarrow> string \<Rightarrow> string \<Rightarrow> node \<Rightarrow> exn + node" where
  "delete_command H c hash0 message row col n =
     (if lookup n (get_tablet row) (row, col) = None
      then Inr (do_write_backend (connfd c) reply_204 n)
      else handle_message H hash0 message (connfd c) (backend_conn c) False n)"

definition command_message :: "(string \<Rightarrow> nat) \<Rightarrow> conn \<Rightarrow> string \<Rightarrow> node \<Rightarrow> exn + node" where
  "command_message H c message0 n =
     (let sp = str_find message0 '' '';
          hash0 = (if backend_conn c then substr_to message0 sp else []);
          message = (if backend_conn c then substr_after message0 sp else message0);
          rcv = substr_after message (str_find message '' '');
          space = str_find rcv '' '';
          row = substr_to rcv space;
          colv = substr_after rcv space
      in if take 3 message = ''PUT'' then put_command H c hash0 message row colv n
         else if take 3 message = ''GET'' then get_command c message row colv n
         else if take 4 message = ''CPUT'' then cput_command H c hash0 message row colv n
         else if take 6 message = ''DELETE'' then delete_command H c hash0 message row colv n
         else if \<not> backend_conn c
         then Inr (do_write_backend (connfd c) (''-ERR Unknown command: '' @ take 200 message @ crlf) n)
         else Inr n)"

section \<open>Routing\<close>

definition dispatch ::
  "(string \<Rightarrow> nat) \<Rightarrow> int \<Rightarrow> conn \<Rightarrow> string \<Rightarrow> node \<Rightarrow> exn + node" where
  "dispatch H new_fd c message n =
     (if contains message ''STOP'' \<and> coord_conn c then Inr (stop_server c n)
      else
        ebind (substr message 4 7) (\<lambda>word.
          if word = ''PRIMARY'' \<and> coord_conn c then new_primary new_fd c message n
          else if is_primary n \<and> contains message ''TSEQNUM'' then
            Inr (do_write_backend (connfd c)
                  (''TSEQNUMRETURN '' @ to_string (tpc_seq n) @ '' '' @ to_string (last_seq n) @ crlf) n)
          else if contains message ''TSEQNUMRETURN'' then tseq_return message n
          else if is_primary n \<and> word = ''REQUEST'' then request_log c message n
          else if is_primary n \<and> take 9 message = ''CHECK_ACK'' then check_ack message n
          else if connfd c = primary_fd n \<and> take 7 message = ''LOGFILE'' then receive_log message n
          else if connfd c = primary_fd n \<and> take 10 message = ''CHECKPOINT'' then
            with_tablet (atoi (substr_after message (str_find message '' '')))
              (\<lambda>num. Inr (create_new_checkpoint num n))
          else if take 10 message = ''CHECK_DONE'' then Inr (send_queued_messages n)
          else if take 3 message = ''TPC'' then
            handle_message H [] message (connfd c) (backend_conn c) True n
          else if contains message ''REPLICA COUNT'' then replica_count_msg message n
          else command_message H c message n))"

text \<open>The messages in the buffer, one after the other; the bytes after the last line end stay.\<close>

lemma find_crlf_pos: "str_find s crlf = Some i \<Longrightarrow> 0 < length s"
  by (cases s) (auto simp: str_find_def)

function serve :: "(string \<Rightarrow> nat) \<Rightarrow> int \<Rightarrow> conn \<Rightarrow> string \<Rightarrow> node \<Rightarrow> exn + (string \<times> node)" where
  "serve H new_fd c buffer n =
     (case str_find buffer crlf of
        None \<Rightarrow> Inr (buffer, n)
      | Some i \<Rightarrow>
          ebind (dispatch H new_fd c (trim_trailing_newline (take i buffer)) n)
            (serve H new_fd c (drop (i + 2) buffer)))"
  by pat_completeness auto
termination
  by (relation "measure (\<lambda>(H, f, c, b, n). length b)") (auto dest: find_crlf_pos)

declare serve.simps [simp del]

text \<open>A thread the server has created runs; the others are started by a connection.\<close>

definition run_thread :: "thread \<Rightarrow> node \<Rightarrow> exn + node" where
  "run_thread th n =
     (case th of
        Clear_thread t \<Rightarrow> Inr (clear_tablet t n)
      | Recovery_thread log t \<Rightarrow> parse_log_string log t n
      | Primary_recovery_thread fd \<Rightarrow> tpc_primary_recovery fd n
      | Tpc_check_thread \<Rightarrow> (if is_primary n then tpc_check_round n else Inr n)
      | Start_thread fd coord \<Rightarrow>
          Inr (start_connection \<lparr>connfd = fd, coord_conn = coord, backend_conn = True, conn_address = []\<rparr> n))"

text \<open>The log thread of a tablet (\<open>log_func\<close>): every three seconds, a checkpoint or a flush.\<close>

definition log_round :: "nat \<Rightarrow> node \<Rightarrow> node" where
  "log_round t n =
     (if checkpointing n t then n
      else if is_primary n \<and> checkpoint_eligible t n then start_new_checkpoint t n
      else flush_log t n)"

end
