(* ===== verification/Kv_Store.thy ===== *)
theory Kv_Store
  imports Server
begin

text \<open>
  The key-value service as the frontends see it: the commands as data, what each one does to
  an abstract map and what it answers, and the refinement of a primary without replicas to
  that specification, with the durability of its log.
\<close>

section \<open>Specification\<close>

datatype request =
    Get string string
  | Put string string string
  | Cput string string string string
  | Delete string string

type_synonym store = "key \<Rightarrow> string option"

fun render :: "request \<Rightarrow> string" where
  "render (Get row col) = ''GET '' @ row @ '' '' @ col"
| "render (Put row col v) = put_cmd row col v"
| "render (Cput row col old v) = cput_cmd row col old v"
| "render (Delete row col) = delete_cmd row col"

fun request_key :: "request \<Rightarrow> key" where
  "request_key (Get row col) = (row, col)"
| "request_key (Put row col v) = (row, col)"
| "request_key (Cput row col old v) = (row, col)"
| "request_key (Delete row col) = (row, col)"

definition ok_text :: "string \<Rightarrow> string" where "ok_text s = ''+OK '' @ s @ crlf"

fun kv_step :: "request \<Rightarrow> store \<Rightarrow> store \<times> string" where
  "kv_step (Get row col) m =
     (m, case m (row, col) of None \<Rightarrow> reply_204 | Some v \<Rightarrow> v @ crlf)"
| "kv_step (Put row col v) m = (m((row, col) \<mapsto> v), ok_text ''PUT SUCCESSFUL.'')"
| "kv_step (Cput row col old v) m =
     (case m (row, col) of
        None \<Rightarrow> (m, reply_204)
      | Some e \<Rightarrow>
          if e \<noteq> old then (m, ''-ERR 204 original value does not match.'' @ crlf)
          else if v = old then (m, ok_text ''table entry did not change.'')
          else (m((row, col) \<mapsto> v), ok_text ''Replaced value one with value two in table.''))"
| "kv_step (Delete row col) m =
     (if m (row, col) = None then (m, reply_204)
      else (m((row, col) := None), ok_text ''DELETE successful.''))"

section \<open>The server\<close>

definition store_of :: "node \<Rightarrow> store" where
  "store_of n = (\<lambda>(row, col). lookup n (get_tablet row) (row, col))"

text \<open>
  Between commands every lock is free, every stored key has one, and a key is stored in its
  own tablet only.
\<close>

definition lock_inv :: "node \<Rightarrow> bool" where
  "lock_inv n \<longleftrightarrow>
     (\<forall>k l. map_of (row_locks n) k = Some l \<longrightarrow> l = Free) \<and>
     (\<forall>t k. lookup n t k \<noteq> None \<longrightarrow> map_of (row_locks n) k \<noteq> None \<and> t = get_tablet (fst k))"

definition serves_alone :: "node \<Rightarrow> bool" where
  "serves_alone n \<longleftrightarrow>
     is_primary n \<and> partition_fds n = [] \<and> (\<forall>t < 5. active_tablets n t \<and> \<not> checkpointing n t) \<and> lock_inv n"

text \<open>
  Requests the server reads as meant: no part of the text is taken for another message, and
  a stored value that is a proper prefix of the text after the key is not taken for the old
  value (\<open>cput_clear\<close>).
\<close>

definition ordinary :: "string \<Rightarrow> bool" where
  "ordinary s \<longleftrightarrow> \<not> contains s ''TSEQNUM'' \<and> \<not> contains s ''TSEQNUMRETURN'' \<and>
     \<not> contains s ''REPLICA COUNT'' \<and> take 7 (drop 4 s) \<noteq> ''REQUEST''"

definition cput_clear :: "string \<Rightarrow> string \<Rightarrow> string \<Rightarrow> string \<Rightarrow> string \<Rightarrow> bool" where
  "cput_clear row col old v e \<longleftrightarrow>
     (e = old \<and> (\<exists>c \<in> set old. c \<notin> set (''CPUT '' @ row @ '' '' @ col @ '' ''))) \<or>
     (e \<noteq> old \<and> \<not> prefix e (old @ '' '' @ v))"

fun request_ok :: "request \<Rightarrow> store \<Rightarrow> bool" where
  "request_ok (Get row col) m \<longleftrightarrow>
     word_ok row \<and> word_ok col \<and> render (Get row col) \<noteq> ''GET passwd null'' \<and> ordinary (render (Get row col))"
| "request_ok (Put row col v) m \<longleftrightarrow>
     word_ok row \<and> word_ok col \<and> value_ok v \<and> ordinary (render (Put row col v))"
| "request_ok (Cput row col old v) m \<longleftrightarrow>
     word_ok row \<and> word_ok col \<and> ordinary (render (Cput row col old v)) \<and>
     (case m (row, col) of None \<Rightarrow> True | Some e \<Rightarrow> cput_clear row col old v e)"
| "request_ok (Delete row col) m \<longleftrightarrow>
     word_ok row \<and> word_ok col \<and> ordinary (render (Delete row col))"

section \<open>Lemmas: cutting a request\<close>

lemma command_parts_eq:
  assumes "CHR '' '' \<notin> set kw" and "word_ok row" and "word_ok col" and "s = [] \<or> (\<exists>s'. s = CHR '' '' # s')"
  shows "command_parts (kw @ '' '' @ row @ '' '' @ col @ s) = (kw, row, col)"
proof -
  let ?m = "kw @ '' '' @ row @ '' '' @ col @ s"
  have 1: "str_find ?m '' '' = Some (length kw)" using assms(1) by simp
  have 2: "str_find_from ?m '' '' (Suc (length kw)) = Some (Suc (length kw) + length row)"
    using str_find_from_append [of "kw @ '' ''" "row @ '' '' @ col @ s" "'' ''"] assms(2)
    by (simp add: word_ok_def)
  have 3: "str_find_from ?m '' '' (Suc (Suc (length kw) + length row)) =
      (if s = [] then None else Some (Suc (Suc (length kw) + length row) + length col))"
    using str_find_from_append [of "kw @ '' '' @ row @ '' ''" "col @ s" "'' ''"] assms(3,4)
    by (auto simp: word_ok_def)
  show ?thesis
    unfolding command_parts_def Let_def 1 npos_succ.simps 2 3 substr_between_def
    using assms(4) by auto
qed

lemma command_parts_render:
  assumes "word_ok row" and "word_ok col"
  shows "command_parts (put_cmd row col v) = (''PUT'', row, col)"
    and "command_parts (cput_cmd row col old v) = (''CPUT'', row, col)"
    and "command_parts (delete_cmd row col) = (''DELETE'', row, col)"
  using command_parts_eq [of "''PUT''" row col "'' '' @ v"] command_parts_eq [of "''CPUT''" row col "'' '' @ old @ '' '' @ v"]
    command_parts_eq [of "''DELETE''" row col "[]"] assms
  by (simp_all add: put_cmd_def cput_cmd_def delete_cmd_def)

lemma opt_of_simps [simp]: "opt_of ''PUT'' = 1" "opt_of ''CPUT'' = 2" "opt_of ''DELETE'' = 3"
  by (simp_all add: opt_of_def)

lemma response_simps:
  "generate_client_response True 1 = ok_text ''PUT SUCCESSFUL.''"
  "generate_client_response True 2 = ok_text ''Replaced value one with value two in table.''"
  "generate_client_response True 3 = ok_text ''DELETE successful.''"
  by (simp_all add: generate_client_response_def ok_text_def)

section \<open>Lemmas: one command on a primary without replicas\<close>

lemma lock_inv_get_lock:
  assumes "lock_inv n" and "split cmd CHR '' '' = w # row # col # ws"
  shows "get_command_locks cmd n = (True, (ensure_lock (row, col) n)
    \<lparr>row_locks := AList.update (row, col) Writer (row_locks (ensure_lock (row, col) n))\<rparr>)"
proof -
  have "map_of (row_locks (ensure_lock (row, col) n)) (row, col) = Some Free"
    using assms(1) by (cases "map_of (row_locks n) (row, col)") (auto simp: ensure_lock_locks lock_inv_def)
  then show ?thesis by (simp add: get_command_locks_eq [OF assms(2)] Let_def)
qed

lemma store_of_cong: "table n = table m \<Longrightarrow> store_of n = store_of m"
  by (simp add: store_of_def lookup_def)

lemma store_of_put_cell: "store_of (put_cell (get_tablet row) (row, col) v n) = (store_of n)((row, col) \<mapsto> v)"
  by (rule ext) (auto simp: store_of_def split: prod.split)

lemma store_of_erase_cell: "store_of (erase_cell (get_tablet row) (row, col) n) = (store_of n)((row, col) := None)"
  by (rule ext) (auto simp: store_of_def split: prod.split)


definition log_state :: "string \<Rightarrow> nat \<Rightarrow> node \<Rightarrow> node" where
  "log_state cmd t n = log_message cmd (last_seq n + 1) t (n\<lparr>last_seq := last_seq n + 1\<rparr>)"

lemma lock_state_upd:
  "ensure_lock k (n\<lparr>tpc_seq := a, msg_queue := q\<rparr>) = (ensure_lock k n)\<lparr>tpc_seq := a, msg_queue := q\<rparr>"
  by (simp add: ensure_lock_def)

lemma ensure_lock_row: "ensure_lock k n = n\<lparr>row_locks := row_locks (ensure_lock k n)\<rparr>"
  by (simp add: ensure_lock_def)

lemma serves_alone_get_lock:
  assumes "serves_alone n" and "split cmd CHR '' '' = w # row # col # ws"
  shows "get_command_locks cmd (n\<lparr>tpc_seq := a, msg_queue := q\<rparr>) =
    (True, n\<lparr>tpc_seq := a, msg_queue := q,
      row_locks := AList.update (row, col) Writer (row_locks (ensure_lock (row, col) n))\<rparr>)"
proof -
  have "lock_inv (n\<lparr>tpc_seq := a, msg_queue := q\<rparr>)"
    using assms(1) by (simp add: serves_alone_def lock_inv_def lookup_def)
  from lock_inv_get_lock [OF this assms(2)] show ?thesis
    by (simp add: lock_state_upd) (subst ensure_lock_row, simp)
qed

lemma primary_command_alone:
  assumes alone: "serves_alone n" and parts: "command_parts cmd = (kw, row, col)"
    and cut: "split cmd CHR '' '' = w # row # col # ws"
    and exec: "\<And>x. table x = table n \<Longrightarrow> map_of (row_locks x) (row, col) = Some Writer \<Longrightarrow>
      execute_command cmd x = Inr (x\<lparr>table := T, row_locks := L (row_locks x)\<rparr>)"
  obtains m where "primary_command H h0 cmd fd False n = Inr m"
    and "table m = T"
    and "row_locks m = L (AList.update (row, col) Writer (row_locks (ensure_lock (row, col) n)))"
    and "net m = net n @ [(fd, generate_client_response True (opt_of kw))]"
    and "last_seq m = last_seq n + 1" and "is_primary m" and "partition_fds m = []"
    and "active_tablets m = active_tablets n" and "checkpointing m = checkpointing n"
    and "listen_address m = listen_address n"
    and "\<And>t. pending_log t m = (if t = get_tablet row
           then pending_log t n @ entry_text (log_sequences n t + 1, cmd, last_seq n + 1) else pending_log t n)"
proof -
  let ?t = "get_tablet row"
  let ?h = "create_hash H n cmd"
  let ?msg = "\<lparr>mq_fd = fd, from_frontend = True, tpc_success = ''PREPARE'', original_ipport = ''NA'',
    mq_opt = opt_of kw, mq_row = row, mq_col = col\<rparr>"
  let ?n2 = "n\<lparr>tpc_seq := tpc_seq n + 1, msg_queue := AList.update ?h ?msg (msg_queue n),
      row_locks := AList.update (row, col) Writer (row_locks (ensure_lock (row, col) n))\<rparr>"
  let ?n4 = "log_state cmd ?t ?n2"
  let ?n5 = "?n4\<lparr>table := T, row_locks := L (row_locks ?n4)\<rparr>"
  let ?m = "(send fd (generate_client_response True (opt_of kw)) ?n5)
      \<lparr>msg_queue := AList.delete ?h (msg_queue ?n5)\<rparr>"
  have n: "is_primary n" "partition_fds n = []" "active_tablets n ?t" "\<not> checkpointing n ?t"
    using alone by (auto simp: serves_alone_def)
  have ex: "execute_command cmd ?n4 = Inr ?n5"
    by (rule exec) (simp_all add: log_state_def log_message_def Let_def)
  have ck: "checkpointing ?n5 ?t = checkpointing n ?t"
    by (simp add: log_state_def log_message_def Let_def)
  have "primary_command H h0 cmd fd False n = Inr ?m"
    using n ex ck
    by (simp add: primary_command_def parts serves_alone_get_lock [OF alone cut] ensure_loaded_def
        log_state_def do_write_backend_def Let_def)
  then show thesis
  proof (rule that)
    fix t
    have "pending_log t ?m = pending_log t ?n4"
      by (rule pending_log_cong) (simp_all add: send_def)
    also have "\<dots> = (if t = ?t then pending_log t n @ entry_text (log_sequences n t + 1, cmd, last_seq n + 1)
        else pending_log t n)"
      using pending_log_cong [of n ?t "?n2\<lparr>last_seq := last_seq n + 1\<rparr>"]
        pending_log_cong [of n t "?n2\<lparr>last_seq := last_seq n + 1\<rparr>"]
      by (auto simp: log_state_def pending_log_message pending_log_message_other)
    finally show "pending_log t ?m = (if t = ?t
        then pending_log t n @ entry_text (log_sequences n t + 1, cmd, last_seq n + 1) else pending_log t n)" .
  qed (use n in \<open>simp_all add: log_state_def log_message_def send_def Let_def\<close>)
qed

section \<open>Lemmas: routing a request\<close>

definition client :: "conn \<Rightarrow> bool" where
  "client c \<longleftrightarrow> \<not> coord_conn c \<and> \<not> backend_conn c"

lemma render_shape:
  "\<exists>s. render (Get row col) = ''GET '' @ s" "\<exists>s. render (Put row col v) = ''PUT '' @ s"
  "\<exists>s. render (Cput row col old v) = ''CPUT '' @ s" "\<exists>s. render (Delete row col) = ''DELETE '' @ s"
  by (simp_all add: put_cmd_def cput_cmd_def delete_cmd_def)

lemma dispatch_request:
  assumes "client c" and "ordinary (render r)"
  shows "dispatch H f c (render r) n = command_message H c (render r) n"
  using assms render_shape
  by (cases r) (auto simp: dispatch_def client_def ordinary_def substr_def put_cmd_def cput_cmd_def delete_cmd_def)

lemma rcv_cut:
  assumes "CHR '' '' \<notin> set kw" and "word_ok row"
  shows "substr_after (kw @ '' '' @ row @ '' '' @ s) (str_find (kw @ '' '' @ row @ '' '' @ s) '' '') = row @ '' '' @ s"
    and "substr_to (row @ '' '' @ s) (str_find (row @ '' '' @ s) '' '') = row"
    and "substr_after (row @ '' '' @ s) (str_find (row @ '' '' @ s) '' '') = s"
  using assms substr_after_find [of "CHR '' ''" kw "row @ '' '' @ s"]
    substr_after_find [of "CHR '' ''" row s]
  by (simp_all add: word_ok_def)

text \<open>The line of a request on a connection: a replica puts the name of the request before it.\<close>

definition on_conn :: "conn \<Rightarrow> string \<Rightarrow> string \<Rightarrow> string" where
  "on_conn c h s = (if backend_conn c then h @ '' '' @ s else s)"

definition hash_on :: "conn \<Rightarrow> string \<Rightarrow> string" where
  "hash_on c h = (if backend_conn c then h else [])"

lemma on_conn_cut:
  assumes "CHR '' '' \<notin> set h"
  shows "(if backend_conn c then substr_to (on_conn c h s) (str_find (on_conn c h s) '' '') else []) = hash_on c h"
    and "(if backend_conn c then substr_after (on_conn c h s) (str_find (on_conn c h s) '' '') else on_conn c h s) = s"
  using assms by (simp_all add: on_conn_def hash_on_def substr_after_def)

lemma command_message_request:
  assumes "CHR '' '' \<notin> set h" and "word_ok row"
  shows "command_message H c (on_conn c h (''GET '' @ row @ '' '' @ col)) n = get_command c (''GET '' @ row @ '' '' @ col) row col n"
    and "command_message H c (on_conn c h (put_cmd row col v)) n =
      put_command H c (hash_on c h) (put_cmd row col v) row (col @ '' '' @ v) n"
    and "command_message H c (on_conn c h (cput_cmd row col old v)) n =
      cput_command H c (hash_on c h) (cput_cmd row col old v) row (col @ '' '' @ old @ '' '' @ v) n"
    and "command_message H c (on_conn c h (delete_cmd row col)) n = delete_command H c (hash_on c h) (delete_cmd row col) row col n"
  using rcv_cut [OF _ assms(2), of "''GET''" col] rcv_cut [OF _ assms(2), of "''PUT''" "col @ '' '' @ v"]
    rcv_cut [OF _ assms(2), of "''CPUT''" "col @ '' '' @ old @ '' '' @ v"] rcv_cut [OF _ assms(2), of "''DELETE''" col]
  unfolding command_message_def Let_def on_conn_cut [OF assms(1)]
  by (simp_all add: put_cmd_def cput_cmd_def delete_cmd_def)

section \<open>Lemmas: what a request does to the server\<close>

text \<open>
  A step of the server that answers request \<open>r\<close>: the abstract map and the answer are those
  of the specification, and a change is in the log.
\<close>

definition changes :: "request \<Rightarrow> store \<Rightarrow> bool" where
  "changes r s \<longleftrightarrow>
     (case r of
        Get row col \<Rightarrow> False
      | Put row col v \<Rightarrow> True
      | Cput row col old v \<Rightarrow> s (row, col) = Some old \<and> v \<noteq> old
      | Delete row col \<Rightarrow> s (row, col) \<noteq> None)"

definition answers :: "conn \<Rightarrow> request \<Rightarrow> node \<Rightarrow> node \<Rightarrow> bool" where
  "answers c r n m \<longleftrightarrow>
     serves_alone m \<and> listen_address m = listen_address n \<and>
     store_of m = fst (kv_step r (store_of n)) \<and>
     net m = net n @ [(connfd c, snd (kv_step r (store_of n)))] \<and>
     (\<exists>i q. \<forall>t. pending_log t m = pending_log t n @
        (if changes r (store_of n) \<and> t = get_tablet (fst (request_key r)) then entry_text (i, render r, q) else []))"

lemma answersI:
  assumes "serves_alone m" and "listen_address m = listen_address n"
    and "store_of m = fst (kv_step r (store_of n))" and "net m = net n @ [(connfd c, snd (kv_step r (store_of n)))]"
    and "\<And>t. pending_log t m = pending_log t n @
        (if changes r (store_of n) \<and> t = get_tablet (fst (request_key r)) then entry_text (i, render r, q) else [])"
  shows "answers c r n m"
  using assms unfolding answers_def by blast

lemma answers_read:
  assumes "serves_alone n" and "\<not> changes r (store_of n)" and "fst (kv_step r (store_of n)) = store_of n"
    and "s = snd (kv_step r (store_of n))"
  shows "answers c r n (do_write_backend (connfd c) s n)"
proof (rule answersI)
  show "serves_alone (do_write_backend (connfd c) s n)"
    using assms(1) by (simp add: do_write_backend_def serves_alone_def lock_inv_def lookup_def)
  show "listen_address (do_write_backend (connfd c) s n) = listen_address n"
    by (simp add: do_write_backend_def send_def)
qed (use assms in \<open>auto simp: do_write_backend_def store_of_def lookup_def intro!: pending_log_cong ext\<close>)

lemma store_of_lookup: "lookup n (get_tablet row) (row, col) = store_of n (row, col)"
  by (simp add: store_of_def)

lemma lock_invD:
  assumes "lock_inv n"
  shows "map_of (row_locks n) k = Some l \<Longrightarrow> l = Free"
    and "lookup n t k \<noteq> None \<Longrightarrow> map_of (row_locks n) k \<noteq> None"
    and "lookup n t k \<noteq> None \<Longrightarrow> t = get_tablet (fst k)"
  using assms unfolding lock_inv_def by blast+

lemma lock_inv_lock:
  assumes "lock_inv n" and "lookup n t k = Some v"
  shows "map_of (row_locks n) k = Some Free"
proof -
  have "map_of (row_locks n) k \<noteq> None"
    using assms unfolding lock_inv_def by (metis option.distinct(1))
  then show ?thesis using assms(1) unfolding lock_inv_def by (metis not_None_eq)
qed

text \<open>A write: the table of its tablet becomes \<open>T\<close>, its lock is released or dropped.\<close>

lemma answers_write:
  assumes alone: "serves_alone n" and r: "fst (request_key r) = row" "snd (request_key r) = col"
    and ch: "changes r (store_of n)" and step: "kv_step r (store_of n) = (s', reply)"
    and m: "is_primary m" "partition_fds m = []" "active_tablets m = active_tablets n"
      "checkpointing m = checkpointing n" "listen_address m = listen_address n"
      "net m = net n @ [(connfd c, reply)]"
    and store: "store_of m = s'"
    and locks: "lock_inv m"
    and log: "\<And>t. pending_log t m = (if t = get_tablet row
           then pending_log t n @ entry_text (i, render r, q) else pending_log t n)"
  shows "answers c r n m"
proof (rule answersI [of _ _ _ _ i q])
  show "serves_alone m"
    using alone m locks unfolding serves_alone_def by simp
qed (use r ch step m store log in simp_all)

lemma lookup_table_upd:
  "table m = (table n)(t := AList.update k v (table n t)) \<Longrightarrow>
     lookup m t' k' = (if t' = t \<and> k' = k then Some v else lookup n t' k')"
  "table m = (table n)(t := AList.delete k (table n t)) \<Longrightarrow>
     lookup m t' k' = (if t' = t \<and> k' = k then None else lookup n t' k')"
  by (simp_all add: lookup_def)

lemma store_of_table_upd:
  "table m = (table n)(get_tablet row := AList.update (row, col) v (table n (get_tablet row))) \<Longrightarrow>
     store_of m = (store_of n)((row, col) \<mapsto> v)"
  "table m = (table n)(get_tablet row := AList.delete (row, col) (table n (get_tablet row))) \<Longrightarrow>
     store_of m = (store_of n)((row, col) := None)"
  using store_of_cong [of m "put_cell (get_tablet row) (row, col) v n"]
    store_of_cong [of m "erase_cell (get_tablet row) (row, col) n"]
  by (simp_all add: store_of_put_cell store_of_erase_cell)
    (simp_all add: put_cell_def erase_cell_def)

lemma pending_log_ensure_lock: "pending_log t (ensure_lock k n) = pending_log t n"
  by (rule pending_log_cong) simp_all

lemma cput_prefix_test:
  "take (min (length e) (length s)) s \<noteq> e \<longleftrightarrow> \<not> prefix e s"
  by (metis append_eq_conv_conj append_take_drop_id min.cobounded1 min.absorb1 prefix_def
      prefix_length_le take_is_prefix take_take)

section \<open>Lemmas: what a write does to a table\<close>

fun keyword :: "request \<Rightarrow> string" where
  "keyword (Get row col) = ''GET''"
| "keyword (Put row col v) = ''PUT''"
| "keyword (Cput row col old v) = ''CPUT''"
| "keyword (Delete row col) = ''DELETE''"

fun new_table :: "request \<Rightarrow> tablet \<Rightarrow> tablet" where
  "new_table (Get row col) T = T"
| "new_table (Put row col v) T = AList.update (row, col) v T"
| "new_table (Cput row col old v) T = AList.update (row, col) v T"
| "new_table (Delete row col) T = AList.delete (row, col) T"

fun new_locks :: "request \<Rightarrow> (key \<times> rwlock) list \<Rightarrow> (key \<times> rwlock) list" where
  "new_locks (Delete row col) ls = AList.delete (row, col) (AList.update (row, col) Free ls)"
| "new_locks r ls = AList.update (request_key r) Free ls"

definition tablet_of :: "request \<Rightarrow> nat" where
  "tablet_of r = get_tablet (fst (request_key r))"

lemma request_words:
  assumes "request_ok r m"
  shows "word_ok (fst (request_key r))" "word_ok (snd (request_key r))" "ordinary (render r)"
  using assms by (cases r; simp)+

lemma request_cuts:
  assumes "request_ok r m"
  shows "command_parts (render r) = (keyword r, fst (request_key r), snd (request_key r))"
    and "\<exists>ws. split (render r) CHR '' '' = keyword r # fst (request_key r) # snd (request_key r) # ws"
    and "\<exists>s. render r = keyword r @ '' '' @ fst (request_key r) @ '' '' @ snd (request_key r) @ s \<and> (s = [] \<or> (\<exists>s'. s = CHR '' '' # s'))"
proof -
  note w = request_words(1,2) [OF assms]
  have get: "command_parts (''GET '' @ row @ '' '' @ col) = (''GET'', row, col)"
    "split (''GET '' @ row @ '' '' @ col) CHR '' '' = [''GET'', row, col]" if "word_ok row" "word_ok col" for row col
    using that command_parts_eq [of "''GET''" row col "[]"] split_append_delim [of "CHR '' ''" "''GET''" "row @ '' '' @ col"]
    by (simp_all add: word_ok_def split_no_delim)
  show "command_parts (render r) = (keyword r, fst (request_key r), snd (request_key r))"
    using w get by (cases r) (simp_all add: command_parts_render)
  show "\<exists>ws. split (render r) CHR '' '' = keyword r # fst (request_key r) # snd (request_key r) # ws"
    using w get by (cases r) (simp_all add: split_put_cmd split_cput_cmd split_delete_cmd)
  show "\<exists>s. render r = keyword r @ '' '' @ fst (request_key r) @ '' '' @ snd (request_key r) @ s \<and> (s = [] \<or> (\<exists>s'. s = CHR '' '' # s'))"
    by (cases r) (simp_all add: put_cmd_def cput_cmd_def delete_cmd_def)
qed

text \<open>A change that is executed with its key locked.\<close>

lemma execute_change:
  assumes ok: "request_ok r (store_of x)" and ch: "changes r (store_of x)"
    and lock: "map_of (row_locks x) (request_key r) = Some Writer"
  shows "execute_command (render r) x =
     Inr (x\<lparr>table := (table x)(tablet_of r := new_table r (table x (tablet_of r))), row_locks := new_locks r (row_locks x)\<rparr>)"
proof (cases r)
  case (Get row col)
  then show ?thesis using ch by (simp add: changes_def)
next
  case (Put row col v)
  then show ?thesis
    using ok lock by (simp add: exec_put tablet_of_def) (simp add: put_cell_def)
next
  case (Cput row col old v)
  have st: "store_of x (row, col) = Some old" using ch Cput by (simp add: changes_def)
  then have "cput_clear row col old v old" using ok Cput by simp
  then obtain c where c: "c \<in> set old" "c \<notin> set (''CPUT '' @ row @ '' '' @ col @ '' '')"
    by (auto simp: cput_clear_def)
  then show ?thesis
    using ok lock Cput st cput_new_value_command [OF c]
    by (simp add: exec_cput store_of_lookup tablet_of_def) (simp add: put_cell_def)
next
  case (Delete row col)
  then show ?thesis
    using ok lock by (simp add: exec_delete tablet_of_def) (simp add: erase_cell_def)
qed

lemma store_change:
  assumes "changes r (store_of n)" and "table m = (table n)(tablet_of r := new_table r (table n (tablet_of r)))"
  shows "store_of m = fst (kv_step r (store_of n))"
proof (cases r)
  case (Get row col)
  then show ?thesis using assms(1) by (simp add: changes_def)
next
  case (Put row col v)
  then show ?thesis using assms(2) store_of_table_upd(1) [of m n row col v] by (simp add: tablet_of_def)
next
  case (Cput row col old v)
  then show ?thesis
    using assms store_of_table_upd(1) [of m n row col v] by (simp add: tablet_of_def changes_def)
next
  case (Delete row col)
  then show ?thesis
    using assms store_of_table_upd(2) [of m n row col] by (auto simp: tablet_of_def changes_def)
qed

lemma unchanged_store: "\<not> changes r s \<Longrightarrow> fst (kv_step r s) = s"
  by (cases r) (auto simp: changes_def split: option.split)

lemma reply_change: "changes r m \<Longrightarrow> snd (kv_step r m) = generate_client_response True (opt_of (keyword r))"
  by (cases r) (auto simp: changes_def response_simps)

text \<open>The locks but that of the key are as they were; the key's is free again, or gone with the key.\<close>

lemma locks_change:
  assumes inv: "lock_inv n" and m: "table m = (table n)(tablet_of r := new_table r (table n (tablet_of r)))"
    "row_locks m = new_locks r ls" and ls: "\<And>k. k \<noteq> request_key r \<Longrightarrow> map_of ls k = map_of (row_locks n) k"
    and "\<not> (\<exists>row col. r = Get row col)"
  shows "lock_inv m"
proof -
  have put: "lock_inv m" if "table m = (table n)(get_tablet (fst k) := AList.update k v (table n (get_tablet (fst k))))"
    "row_locks m = AList.update k Free ls" "k = request_key r" for k v
  proof -
    have "map_of (row_locks m) k' = (if k' = k then Some Free else map_of (row_locks n) k')" for k'
      using that ls by simp
    then show ?thesis
      using inv unfolding lock_inv_def lookup_table_upd(1) [OF that(1)] by auto
  qed
  show ?thesis
  proof (cases r)
    case (Delete row col)
    have "map_of (row_locks m) k' = (if k' = (row, col) then None else map_of (row_locks n) k')" for k'
      using m(2) ls Delete by simp
    moreover have "table m = (table n)(get_tablet row := AList.delete (row, col) (table n (get_tablet row)))"
      using m(1) Delete by (simp add: tablet_of_def)
    note lookup_table_upd(2) [OF this]
    ultimately show ?thesis
      using lock_invD [OF inv] unfolding lock_inv_def by (metis fst_conv option.distinct(1))
  qed (use put assms in \<open>auto simp: tablet_of_def\<close>)
qed

section \<open>Lemmas: what a request does to the server\<close>

text \<open>
  A server whose tablets are loaded answers what changes nothing; what changes something it passes
  on, with a lock for the key.
\<close>

lemma request_command:
  assumes up: "active_tablets n (tablet_of r)" "\<not> checkpointing n (tablet_of r)" and inv: "lock_inv n"
    and ok: "request_ok r (store_of n)" and h: "CHR '' '' \<notin> set h"
  shows "command_message H c (on_conn c h (render r)) n =
     (if changes r (store_of n)
      then handle_message H (hash_on c h) (render r) (connfd c) (backend_conn c) False (ensure_lock (request_key r) n)
      else Inr (do_write_backend (connfd c) (snd (kv_step r (store_of n))) n))"
proof -
  have lock: "map_of (row_locks n) k \<noteq> None" if "store_of n k = Some v" for k v
    using lock_inv_lock [OF inv, of "get_tablet (fst k)" k v] that by (cases k) (simp add: store_of_lookup)
  have loaded: "ensure_loaded (tablet_of r) n = Inr n" using up(1) by (simp add: ensure_loaded_def)
  note route = command_message_request [OF h request_words(1) [OF ok]]
  show ?thesis
  proof (cases r)
    case (Get row col)
    have "read_cell_value (get_tablet row) (row, col) n = Inr v" if "store_of n (row, col) = Some v" for v
      using lock [OF that] that by (auto simp: read_cell_value_def store_of_lookup)
    then show ?thesis
      using route(1) [of H c col n] ok up loaded Get
      by (cases "store_of n (row, col)") (simp_all add: get_command_def changes_def store_of_lookup tablet_of_def Let_def)
  next
    case (Put row col v)
    have "takeWhile (\<lambda>x. x \<noteq> CHR '' '') (col @ CHR '' '' # v) = col" using ok Put by (simp add: word_ok_def takeWhile_tail)
    then show ?thesis
      using route(2) [of H c col v n] ok Put by (simp add: put_command_def changes_def word_ok_def)
  next
    case (Cput row col old v)
    let ?vs = "old @ '' '' @ v"
    have cuts: "substr_to (col @ '' '' @ ?vs) (str_find (col @ '' '' @ ?vs) '' '') = col"
      "substr_after (col @ '' '' @ ?vs) (str_find (col @ '' '' @ ?vs) '' '') = ?vs"
      using ok Cput substr_to_find [of "CHR '' ''" col ?vs] substr_after_find [of "CHR '' ''" col ?vs]
      by (simp_all add: word_ok_def)
    have new: "substr ?vs (length old + 1) (length ?vs) = Inr v" by (simp add: substr_def)
    have step: "command_message H c (on_conn c h (render r)) n = cput_command H c (hash_on c h) (render r) row (col @ '' '' @ ?vs) n"
      using route(3) [of H c col old v n] Cput by simp
    show ?thesis
    proof (cases "store_of n (row, col)")
      case None
      then show ?thesis
        using loaded Cput unfolding step cput_command_def cuts Let_def
        by (simp add: store_of_lookup tablet_of_def changes_def)
    next
      case (Some e)
      then have clear: "cput_clear row col old v e" using ok Cput by simp
      then have pre: "take (min (length e) (length ?vs)) ?vs \<noteq> e \<longleftrightarrow> e \<noteq> old"
        unfolding cput_prefix_test by (auto simp: cput_clear_def)
      have same: "ensure_lock (row, col) n = n" using lock [OF Some] by (auto simp: ensure_lock_def)
      show ?thesis
      proof (cases "e = old")
        case True
        then show ?thesis
          using loaded Cput Some same pre new unfolding step cput_command_def cuts Let_def
          by (simp add: store_of_lookup tablet_of_def changes_def ok_text_def)
      next
        case False
        then show ?thesis
          using loaded Cput Some pre unfolding step cput_command_def cuts Let_def
          by (simp add: store_of_lookup tablet_of_def changes_def)
      qed
    qed
  next
    case (Delete row col)
    have same: "ensure_lock (row, col) n = n" if "store_of n (row, col) = Some e" for e
      using lock [OF that] by (auto simp: ensure_lock_def)
    show ?thesis
      using route(4) [of H c col n] Delete same
      by (cases "store_of n (row, col)") (simp_all add: delete_command_def store_of_lookup changes_def)
  qed
qed

lemma request_answered:
  assumes alone: "serves_alone n" and c: "client c" and ok: "request_ok r (store_of n)"
  shows "\<exists>m. dispatch H f c (render r) n = Inr m \<and> answers c r n m"
proof -
  have up: "active_tablets n (tablet_of r)" "\<not> checkpointing n (tablet_of r)" "lock_inv n" "is_primary n"
    using alone by (simp_all add: serves_alone_def tablet_of_def)
  have disp: "dispatch H f c (render r) n = command_message H c (render r) n"
    using dispatch_request [OF c request_words(3) [OF ok]] .
  have conn: "on_conn c [] (render r) = render r" "hash_on c [] = []" "\<not> backend_conn c"
    using c by (simp_all add: on_conn_def hash_on_def client_def)
  note step = request_command [OF up(1-3) ok, of "[]" H c, unfolded conn]
  show ?thesis
  proof (cases "changes r (store_of n)")
    case False
    have "answers c r n (do_write_backend (connfd c) (snd (kv_step r (store_of n))) n)"
      by (rule answers_read [OF alone False unchanged_store [OF False] refl])
    with disp step False show ?thesis by simp
  next
    case True
    let ?k = "request_key r" and ?t = "tablet_of r"
    let ?n = "ensure_lock ?k n"
    have alone': "serves_alone ?n"
      using alone lock_invD [OF up(3)]
      by (simp add: serves_alone_def lock_inv_def ensure_lock_locks lookup_cong [OF ensure_lock_frame(1)])
        (simp add: ensure_lock_def)
    obtain ws where cut: "split (render r) CHR '' '' = keyword r # fst ?k # snd ?k # ws" using request_cuts(2) [OF ok] by blast
    have exec: "execute_command (render r) x = Inr (x\<lparr>table := (table n)(?t := new_table r (table n ?t)),
          row_locks := new_locks r (row_locks x)\<rparr>)"
      if "table x = table ?n" "map_of (row_locks x) (fst ?k, snd ?k) = Some Writer" for x
    proof -
      have t: "table x = table n" using that(1) by simp
      then have "store_of x = store_of n" by (rule store_of_cong)
      with execute_change [of r x] that(2) ok True t show ?thesis by (simp only: prod.collapse)
    qed
    obtain m where m: "primary_command H [] (render r) (connfd c) False ?n = Inr m"
        "table m = (table n)(?t := new_table r (table n ?t))"
        "row_locks m = new_locks r (AList.update (fst ?k, snd ?k) Writer (row_locks (ensure_lock (fst ?k, snd ?k) ?n)))"
        "net m = net ?n @ [(connfd c, generate_client_response True (opt_of (keyword r)))]"
        "last_seq m = last_seq ?n + 1" "is_primary m" "partition_fds m = []" "active_tablets m = active_tablets ?n"
        "checkpointing m = checkpointing ?n" "listen_address m = listen_address ?n"
      and log: "\<And>t. pending_log t m = (if t = get_tablet (fst ?k)
             then pending_log t ?n @ entry_text (log_sequences ?n t + 1, render r, last_seq ?n + 1) else pending_log t ?n)"
      by (rule primary_command_alone [where fd = "connfd c" and H = H and ?h0.0 = "[]", OF alone' request_cuts(1) [OF ok] cut exec])
        (assumption+, rule that, assumption+)
    have "dispatch H f c (render r) n = Inr m"
      using disp step True m(1,6) up(4) conn(3) alone' by (simp add: handle_message_def serves_alone_def)
    moreover have "answers c r n m"
    proof (rule answers_write [OF alone refl refl True])
      show "kv_step r (store_of n) = (fst (kv_step r (store_of n)), snd (kv_step r (store_of n)))" by simp
      show "store_of m = fst (kv_step r (store_of n))" by (rule store_change [OF True m(2)])
      show "lock_inv m"
        by (rule locks_change [OF up(3) m(2,3)]) (use True in \<open>auto simp: ensure_lock_locks changes_def\<close>)
      show "pending_log t m = (if t = get_tablet (fst ?k) then pending_log t n @
          entry_text (log_sequences n (get_tablet (fst ?k)) + 1, render r, last_seq n + 1) else pending_log t n)" for t
        using log [of t] by (simp add: pending_log_ensure_lock)
    qed (use m reply_change [OF True] in \<open>simp_all add: ensure_lock_def\<close>)
    ultimately show ?thesis by blast
  qed
qed

section \<open>Sequences of requests\<close>

text \<open>The requests of one connection, served one after the other.\<close>

definition run_requests :: "(string \<Rightarrow> nat) \<Rightarrow> int \<Rightarrow> conn \<Rightarrow> request list \<Rightarrow> node \<Rightarrow> exn + node" where
  "run_requests H f c rs n = efold (\<lambda>r. dispatch H f c (render r)) rs n"

primrec kv_run :: "request list \<Rightarrow> store \<Rightarrow> store \<times> string list" where
  "kv_run [] s = (s, [])"
| "kv_run (r # rs) s =
     (case kv_step r s of (s', reply) \<Rightarrow> (case kv_run rs s' of (s'', replies) \<Rightarrow> (s'', reply # replies)))"

primrec requests_ok :: "request list \<Rightarrow> store \<Rightarrow> bool" where
  "requests_ok [] s = True"
| "requests_ok (r # rs) s = (request_ok r s \<and> requests_ok rs (fst (kv_step r s)))"

lemma run_requests_refines:
  assumes "serves_alone n" and "client c" and "requests_ok rs (store_of n)"
  shows "\<exists>m. run_requests H f c rs n = Inr m \<and> serves_alone m \<and>
    store_of m = fst (kv_run rs (store_of n)) \<and>
    net m = net n @ map (Pair (connfd c)) (snd (kv_run rs (store_of n)))"
  using assms
proof (induction rs arbitrary: n)
  case Nil
  then show ?case by (simp add: run_requests_def)
next
  case (Cons r rs)
  from request_answered [of n c r H f] Cons.prems
  obtain m where m: "dispatch H f c (render r) n = Inr m" and ans: "answers c r n m" by auto
  then have st: "serves_alone m" "store_of m = fst (kv_step r (store_of n))"
    "net m = net n @ [(connfd c, snd (kv_step r (store_of n)))]"
    by (simp_all add: answers_def)
  have "requests_ok rs (store_of m)" using Cons.prems(3) st(2) by simp
  from Cons.IH [OF st(1) Cons.prems(2) this] obtain m' where m':
    "run_requests H f c rs m = Inr m'" "serves_alone m'" "store_of m' = fst (kv_run rs (store_of m))"
    "net m' = net m @ map (Pair (connfd c)) (snd (kv_run rs (store_of m)))" by blast
  then show ?case
    using m st by (simp add: run_requests_def split: prod.split)
qed

section \<open>Durability\<close>

text \<open>
  \<open>replays t cmds f g\<close>: replaying the commands turns the contents \<open>f\<close> of tablet \<open>t\<close> into
  \<open>g\<close>, whatever else the server's state is.
\<close>

definition replays :: "nat \<Rightarrow> string list \<Rightarrow> store \<Rightarrow> store \<Rightarrow> bool" where
  "replays t cmds f g \<longleftrightarrow>
     (\<forall>x. active_tablets x t \<and> lookup x t = f \<longrightarrow>
        (\<exists>y. efold (replay t) cmds x = Inr y \<and> active_tablets y t \<and> lookup y t = g))"

lemma replays_Nil: "replays t [] f f"
  by (simp add: replays_def)

lemma replays_append:
  assumes "replays t xs f g" and "replays t ys g h"
  shows "replays t (xs @ ys) f h"
  unfolding replays_def
proof (intro allI impI)
  fix x assume "active_tablets x t \<and> lookup x t = f"
  with assms(1) obtain y where y: "efold (replay t) xs x = Inr y" "active_tablets y t" "lookup y t = g"
    unfolding replays_def by blast
  with assms(2) obtain z where "efold (replay t) ys y = Inr z" "active_tablets z t" "lookup z t = h"
    unfolding replays_def by blast
  with y show "\<exists>y. efold (replay t) (xs @ ys) x = Inr y \<and> active_tablets y t \<and> lookup y t = h"
    by (simp add: efold_append)
qed

lemma replays_one:
  assumes "\<And>x. active_tablets x t \<Longrightarrow> lookup x t = f \<Longrightarrow>
    \<exists>y. parsing_logic cmd x = Inr y \<and> lookup y t = g"
  shows "replays t [cmd] f g"
  unfolding replays_def
proof (intro allI impI)
  fix x assume x: "active_tablets x t \<and> lookup x t = f"
  with assms obtain y where y: "parsing_logic cmd x = Inr y" "lookup y t = g" by blast
  let ?z = "set_log_sequence t (log_sequences y t + 1) y"
  have "active_tablets ?z t" "lookup ?z t = g"
    using parsing_logic_log_fields(1) [OF y(1)] x y(2) by (simp_all add: set_log_sequence_def lookup_def fun_eq_iff)
  then show "\<exists>y. efold (replay t) [cmd] x = Inr y \<and> active_tablets y t \<and> lookup y t = g"
    using y(1) by (simp add: replay_def)
qed

definition in_tablet :: "nat \<Rightarrow> store \<Rightarrow> store" where
  "in_tablet t s = (\<lambda>k. if get_tablet (fst k) = t then s k else None)"

lemma lookup_in_tablet:
  assumes "lock_inv n"
  shows "lookup n t = in_tablet t (store_of n)"
proof
  fix k :: key
  obtain row col where k: "k = (row, col)" by (cases k)
  show "lookup n t k = in_tablet t (store_of n) k"
    using lock_invD(3) [OF assms, of t k]
    by (cases "lookup n t k") (auto simp: k in_tablet_def store_of_def)
qed

text \<open>\<open>durable base n\<close>: replaying the log, flushed, on the contents \<open>base\<close> gives the tables.\<close>

definition durable_with :: "nat \<Rightarrow> store \<Rightarrow> node \<Rightarrow> int \<Rightarrow> entry list \<Rightarrow> bool" where
  "durable_with t base n c es \<longleftrightarrow>
     - (2 ^ 31) \<le> c \<and> c < 2 ^ 31 \<and> (\<forall>e \<in> set es. no_mark (fst (snd e))) \<and>
     pending_log t n = to_string c @ newline # concat (map entry_text es) \<and>
     replays t (map (fst \<circ> snd) es) base (lookup n t)"

definition durable :: "(nat \<Rightarrow> store) \<Rightarrow> node \<Rightarrow> bool" where
  "durable base n \<longleftrightarrow> (\<forall>t < 5. \<exists>c es. durable_with t (base t) n c es)"

lemma lookup_put_fun: "lookup (put_cell t k v n) t = (lookup n t)(k \<mapsto> v)"
  by (rule ext) simp

lemma in_tablet_upd: "in_tablet (get_tablet row) (s((row, col) := v)) = (in_tablet (get_tablet row) s)((row, col) := v)"
  by (rule ext) (simp add: in_tablet_def)

lemma in_tablet_other: "t \<noteq> get_tablet row \<Longrightarrow> in_tablet t (s((row, col) := v)) = in_tablet t s"
  by (rule ext) (auto simp: in_tablet_def)

lemma replays_change:
  assumes "changes r s" and "request_ok r s" and "t = get_tablet (fst (request_key r))"
  shows "replays t [render r] (in_tablet t s) (in_tablet t (fst (kv_step r s)))"
proof (rule replays_one)
  fix x assume act: "active_tablets x t" and lk: "lookup x t = in_tablet t s"
  show "\<exists>y. parsing_logic (render r) x = Inr y \<and> lookup y t = in_tablet t (fst (kv_step r s))"
  proof (cases r)
    case (Get row col)
    with assms(1) show ?thesis by (simp add: changes_def)
  next
    case (Put row col v)
    with assms act have "parsing_logic (render r) x = Inr (put_cell t (row, col) v (ensure_lock (row, col) x))"
      by (simp add: parse_put)
    moreover have "lookup (put_cell t (row, col) v (ensure_lock (row, col) x)) t = in_tablet t (fst (kv_step r s))"
      using lk assms(3) Put
      by (simp add: lookup_put_fun lookup_cong [OF ensure_lock_frame(1)] in_tablet_upd)
    ultimately show ?thesis by blast
  next
    case (Cput row col old v)
    with assms(1) have s: "s (row, col) = Some old" "v \<noteq> old" by (simp_all add: changes_def)
    have "lookup x t (row, col) = Some old" using lk s assms(3) Cput by (simp add: in_tablet_def)
    with assms act Cput have "parsing_logic (render r) x = Inr (put_cell t (row, col) v x)"
      by (simp add: parse_cput)
    moreover have "lookup (put_cell t (row, col) v x) t = in_tablet t (fst (kv_step r s))"
      using lk assms(3) Cput s by (simp add: lookup_put_fun in_tablet_upd)
    ultimately show ?thesis by blast
  next
    case (Delete row col)
    with assms(1) obtain e where s: "s (row, col) = Some e" by (auto simp: changes_def)
    let ?y = "(erase_cell t (row, col) x)\<lparr>row_locks := AList.delete (row, col) (row_locks x)\<rparr>"
    have "lookup x t (row, col) = Some e" using lk s assms(3) Delete by (simp add: in_tablet_def)
    with assms act Delete have "parsing_logic (render r) x = Inr ?y"
      by (simp add: parse_delete)
    moreover have "lookup ?y t = (lookup x t)((row, col) := None)"
      by (rule ext) (simp add: lookup_def erase_cell_def)
    moreover have "\<dots> = in_tablet t (fst (kv_step r s))"
      using lk assms(3) Delete s by (simp add: in_tablet_upd)
    ultimately show ?thesis by auto
  qed
qed

lemma changed_elsewhere:
  assumes "t \<noteq> get_tablet (fst (request_key r))"
  shows "in_tablet t (fst (kv_step r s)) = in_tablet t s"
  using assms by (cases r) (auto simp: in_tablet_other split: option.split)

lemma durable_with_append:
  assumes "durable_with t base n c es" and "pending_log t m = pending_log t n @ entry_text (i, cmd, q)"
    and "no_mark cmd" and "replays t [cmd] (lookup n t) (lookup m t)"
  shows "durable_with t base m c (es @ [(i, cmd, q)])"
  using assms replays_append [of t "map (fst \<circ> snd) es" base "lookup n t" "[cmd]" "lookup m t"]
  unfolding durable_with_def by auto

lemma durable_step:
  assumes "durable base n" and "serves_alone n" and "request_ok r (store_of n)" and "no_mark (render r)"
    and "answers c r n m"
  shows "durable base m"
  unfolding durable_def
proof (intro allI impI)
  fix t :: nat assume t: "t < 5"
  from assms(1) t obtain ch es where d: "durable_with t (base t) n ch es" unfolding durable_def by blast
  have inv: "lock_inv n" "lock_inv m" using assms(2,5) by (simp_all add: serves_alone_def answers_def)
  note lk = lookup_in_tablet [OF inv(1), of t] lookup_in_tablet [OF inv(2), of t]
  have st: "store_of m = fst (kv_step r (store_of n))" using assms(5) by (simp add: answers_def)
  from assms(5) obtain i q where log: "pending_log t m = pending_log t n @
      (if changes r (store_of n) \<and> t = get_tablet (fst (request_key r)) then entry_text (i, render r, q) else [])"
    unfolding answers_def by blast
  show "\<exists>c es. durable_with t (base t) m c es"
  proof (cases "changes r (store_of n) \<and> t = get_tablet (fst (request_key r))")
    case True
    then have "replays t [render r] (lookup n t) (lookup m t)"
      unfolding lk st using replays_change [of r "store_of n" t] assms(3) by simp
    with log True have "durable_with t (base t) m ch (es @ [(i, render r, q)])"
      by (intro durable_with_append [OF d _ assms(4)]) simp_all
    then show ?thesis by blast
  next
    case False
    then have "lookup m t = lookup n t"
      unfolding lk st using unchanged_store [of r "store_of n"] changed_elsewhere [of t r "store_of n"] by auto
    moreover have "pending_log t m = pending_log t n" using log False by auto
    ultimately have "durable_with t (base t) m ch es" using d by (simp add: durable_with_def)
    then show ?thesis by blast
  qed
qed

lemma run_requests_durable:
  assumes "serves_alone n" and "client c" and "requests_ok rs (store_of n)" and "durable base n"
    and "\<forall>r \<in> set rs. no_mark (render r)" and "run_requests H f c rs n = Inr m"
  shows "durable base m"
  using assms
proof (induction rs arbitrary: n)
  case Nil
  then show ?case by (simp add: run_requests_def)
next
  case (Cons r rs)
  have ok: "request_ok r (store_of n)" using Cons.prems(3) by simp
  from request_answered [OF Cons.prems(1,2) ok, of H f]
  obtain n' where n': "dispatch H f c (render r) n = Inr n'" and ans: "answers c r n n'" by auto
  have d: "durable base n'"
    using durable_step [OF Cons.prems(4,1) ok _ ans] Cons.prems(5) by simp
  have "run_requests H f c rs n' = Inr m" using Cons.prems(6) n' by (simp add: run_requests_def)
  moreover have "serves_alone n'" "requests_ok rs (store_of n')"
    using ans Cons.prems(3) by (simp_all add: answers_def)
  ultimately show ?case using Cons.IH [OF _ Cons.prems(2) _ d] Cons.prems(5) by simp
qed

text \<open>
  A restart: a server \<open>x\<close> with empty tables and the files the old one left, its log flushed,
  loads the tablet.
\<close>

lemma restart_recovers:
  assumes "durable_with t (map_of cells) n c es"
    and "log_file x t = log_file (flush_log t n) t"
    and "table_file x t = Some (concat (map checkpoint_entry cells))"
    and "\<forall>e \<in> set cells. cell_ok e" and "distinct (map fst cells)" and "lookup x t = Map.empty"
  shows "\<exists>y. recover_table t (restore_table t (set_active t True x)) = Inr y \<and> lookup y t = lookup n t"
proof -
  let ?r = "restore_table t (set_active t True x)"
  note r = restored_tablet [OF assms(3-6)]
  have lf: "log_file ?r t = log_file (flush_log t n) t" using r(2) assms(2) by simp
  let ?z = "set_checkpoint t c ?r"
  have z: "active_tablets ?z t" "lookup ?z t = map_of cells"
    using r(1,3) by (simp_all add: set_checkpoint_def lookup_def fun_eq_iff)
  have d: "replays t (map (fst \<circ> snd) es) (map_of cells) (lookup n t)" and
    log: "log_file ?r t = Some (to_string c @ newline # concat (map entry_text es))" and
    rng: "\<forall>e \<in> set es. no_mark (fst (snd e))" "- (2 ^ 31) \<le> c" "c < 2 ^ 31"
    using assms(1) lf by (simp_all add: durable_with_def log_file_flush)
  from d z obtain y where "efold (replay t) (map (fst \<circ> snd) es) ?z = Inr y" "lookup y t = lookup n t"
    unfolding replays_def by blast
  with recover_table_entries [OF log rng] show ?thesis by auto
qed

section \<open>Properties\<close>

text \<open>
  C1: a primary without replicas is the key-value service of the specification: for every
  sequence of requests of a frontend, the stored map and the sequence of replies are those of
  \<open>kv_run\<close>.
\<close>

theorem alone_refines_spec:
  assumes "serves_alone n" and "client c" and "requests_ok rs (store_of n)"
  shows "\<exists>m. run_requests H f c rs n = Inr m \<and> serves_alone m \<and>
    store_of m = fst (kv_run rs (store_of n)) \<and>
    net m = net n @ map (Pair (connfd c)) (snd (kv_run rs (store_of n)))"
  by (rule run_requests_refines [OF assms])

text \<open>
  C5: what such a primary has answered survives a restart: once the logs are flushed, loading
  a tablet from its checkpoint and its log gives exactly the contents the tablet had.
\<close>

theorem restart_keeps_store:
  assumes "serves_alone n" and "client c" and "requests_ok rs (store_of n)"
    and "\<forall>r \<in> set rs. no_mark (render r)" and "durable (\<lambda>t. map_of (cells t)) n"
    and "run_requests H f c rs n = Inr m" and "t < 5"
    and "log_file x t = log_file (flush_log t m) t"
    and "table_file x t = Some (concat (map checkpoint_entry (cells t)))"
    and "\<forall>e \<in> set (cells t). cell_ok e" and "distinct (map fst (cells t))" and "lookup x t = Map.empty"
  shows "\<exists>y. recover_table t (restore_table t (set_active t True x)) = Inr y \<and> lookup y t = lookup m t"
proof -
  have "durable (\<lambda>t. map_of (cells t)) m"
    using run_requests_durable assms(1-6) by blast
  then obtain ch es where "durable_with t (map_of (cells t)) m ch es"
    using assms(7) unfolding durable_def by blast
  then show ?thesis using restart_recovers assms(8-12) by blast
qed

text \<open>
  a client message of fewer than four bytes, such as \<open>GET\<close> alone, raises
  \<open>out_of_range\<close> in the routing (\<open>message.substr(4, 7)\<close>): the server process ends.
\<close>

theorem short_message_ends_server:
  assumes "length message < 4"
  shows "dispatch H f c message n = Inl Out_of_range"
proof -
  have "\<not> contains message ''STOP''"
  proof
    assume "contains message ''STOP''"
    then have "length ''STOP'' \<le> length message" unfolding contains_iff by (rule sublist_length_le)
    with assms show False by simp
  qed
  then show ?thesis using assms by (simp add: dispatch_def substr_def)
qed

text \<open>
  a write whose value contains the word \<open>TSEQNUM\<close> is taken for a request of a replica:
  the primary answers its sequence numbers and stores nothing.
\<close>

theorem tseqnum_value_not_stored:
  assumes "is_primary n" and "client c" and "contains v ''TSEQNUM''"
  shows "dispatch H f c (put_cmd row col v) n =
    Inr (do_write_backend (connfd c)
           (''TSEQNUMRETURN '' @ to_string (tpc_seq n) @ '' '' @ to_string (last_seq n) @ crlf) n)"
proof -
  have "contains (put_cmd row col v) ''TSEQNUM''"
    using contains_append [OF assms(3), of "''PUT '' @ row @ '' '' @ col @ '' ''" "[]"] by (simp add: put_cmd_def)
  moreover have "substr (put_cmd row col v) 4 7 = Inr (take 7 (row @ '' '' @ col @ '' '' @ v))"
    by (simp add: substr_def put_cmd_def)
  ultimately show ?thesis using assms(1,2) by (simp add: dispatch_def client_def)
qed

text \<open>
  a compare-and-put that gives the stored value and no new one is cut past its end: the
  server process ends.
\<close>

theorem cput_without_new_value_ends_server:
  assumes "word_ok row" and "word_ok col" and "client c" and "active_tablets n (get_tablet row)"
    and "lookup n (get_tablet row) (row, col) = Some old" and "ordinary (''CPUT '' @ row @ '' '' @ col @ '' '' @ old)"
  shows "dispatch H f c (''CPUT '' @ row @ '' '' @ col @ '' '' @ old) n = Inl Out_of_range"
proof -
  let ?msg = "''CPUT '' @ row @ '' '' @ col @ '' '' @ old"
  have "dispatch H f c ?msg n = command_message H c ?msg n"
    using assms(3,6) by (auto simp: dispatch_def client_def ordinary_def substr_def)
  also have "\<dots> = cput_command H c [] ?msg row (col @ '' '' @ old) n"
    using assms(3) rcv_cut [OF _ assms(1), of "''CPUT''" "col @ '' '' @ old"]
    by (simp add: command_message_def client_def Let_def)
  also have "\<dots> = Inl Out_of_range"
    using assms(2,4,5) substr_to_find [of "CHR '' ''" col old] substr_after_find [of "CHR '' ''" col old]
    by (simp add: cput_command_def ensure_loaded_def substr_def word_ok_def Let_def)
  finally show ?thesis .
qed

section \<open>Witnesses\<close>

definition lone_primary :: node where
  "lone_primary = initial_node\<lparr>is_primary := True, active_tablets := (\<lambda>_. True),
     log_file := (\<lambda>_. Some (''1'' @ [newline])), table_file := (\<lambda>_. Some []), checkpoints := (\<lambda>_. 1)\<rparr>"

definition frontend :: conn where
  "frontend = \<lparr>connfd = 4, coord_conn = False, backend_conn = False, conn_address = []\<rparr>"

definition sample_requests :: "request list" where
  "sample_requests = [Put ''k'' ''c'' ''x'', Get ''k'' ''c'', Cput ''k'' ''c'' ''x'' ''y z'',
     Put ''m'' ''c'' ''w'', Delete ''m'' ''c'', Get ''m'' ''c'']"

lemma lone_primary_serves: "serves_alone lone_primary"
  by (simp add: serves_alone_def lock_inv_def lone_primary_def initial_node_def lookup_def)

lemma frontend_client: "client frontend"
  by (simp add: client_def frontend_def)

lemma lone_store: "store_of lone_primary = Map.empty"
  by (rule ext) (auto simp: store_of_def lone_primary_def initial_node_def lookup_def)

lemma sample_ok: "requests_ok sample_requests (store_of lone_primary)"
  by (simp add: sample_requests_def lone_store word_ok_def value_ok_def ordinary_def cput_clear_def
      put_cmd_def cput_cmd_def delete_cmd_def contains_def str_find_def reply_204_def)

theorem alone_refines_spec_witness:
  "\<exists>m. run_requests (\<lambda>_. 0) 0 frontend sample_requests lone_primary = Inr m \<and>
     store_of m = [(''k'', ''c'') \<mapsto> ''y z''] \<and>
     map snd (net m) = [ok_text ''PUT SUCCESSFUL.'', ''x'' @ crlf,
       ok_text ''Replaced value one with value two in table.'', ok_text ''PUT SUCCESSFUL.'',
       ok_text ''DELETE successful.'', reply_204]"
  using alone_refines_spec [OF lone_primary_serves frontend_client sample_ok, of "\<lambda>_. 0" 0]
  unfolding lone_store
  by (auto simp: sample_requests_def lone_primary_def initial_node_def)


definition restarted :: "node \<Rightarrow> node" where
  "restarted m = initial_node\<lparr>log_file := (\<lambda>t. log_file (flush_log t m) t), table_file := (\<lambda>_. Some [])\<rparr>"

lemma lone_durable: "durable (\<lambda>t. map_of []) lone_primary"
  unfolding durable_def
proof (intro allI impI)
  fix t :: nat
  have "to_string 1 = ''1''" by (simp add: to_string_def nat_digits.simps)
  then have "pending_log t lone_primary = to_string 1 @ newline # concat (map entry_text [])"
    by (simp add: pending_log_def flush_log_def lone_primary_def initial_node_def write_log_file_def Let_def)
  moreover have "lookup lone_primary t = Map.empty"
    by (simp add: lone_primary_def initial_node_def lookup_def fun_eq_iff)
  ultimately have "durable_with t (map_of []) lone_primary 1 []"
    using replays_Nil [of t Map.empty] by (simp add: durable_with_def)
  then show "\<exists>c es. durable_with t (map_of []) lone_primary c es" by blast
qed

lemma sample_no_mark: "\<forall>r \<in> set sample_requests. no_mark (render r)"
  by (simp add: sample_requests_def no_mark_simps put_cmd_def cput_cmd_def delete_cmd_def str_find_def)

theorem restart_keeps_store_witness:
  "\<exists>m y. run_requests (\<lambda>_. 0) 0 frontend sample_requests lone_primary = Inr m \<and>
     recover_table 2 (restore_table 2 (set_active 2 True (restarted m))) = Inr y \<and>
     lookup y 2 = lookup m 2"
proof -
  obtain m where m: "run_requests (\<lambda>_. 0) 0 frontend sample_requests lone_primary = Inr m"
    using run_requests_refines [OF lone_primary_serves frontend_client sample_ok] by blast
  have "\<exists>y. recover_table 2 (restore_table 2 (set_active 2 True (restarted m))) = Inr y \<and>
      lookup y 2 = lookup m 2"
    by (rule restart_keeps_store [OF lone_primary_serves frontend_client sample_ok sample_no_mark lone_durable m])
      (simp_all add: restarted_def initial_node_def lookup_def fun_eq_iff)
  with m show ?thesis by blast
qed

theorem tseqnum_value_not_stored_witness:
  "\<exists>m. dispatch (\<lambda>_. 0) 0 frontend (put_cmd ''k'' ''c'' ''my TSEQNUM'') lone_primary = Inr m \<and>
     store_of m = Map.empty"
proof -
  have "dispatch (\<lambda>_. 0) 0 frontend (put_cmd ''k'' ''c'' ''my TSEQNUM'') lone_primary =
    Inr (do_write_backend (connfd frontend) (''TSEQNUMRETURN '' @ to_string (tpc_seq lone_primary) @ '' '' @
      to_string (last_seq lone_primary) @ crlf) lone_primary)"
    by (rule tseqnum_value_not_stored)
      (simp_all add: lone_primary_def initial_node_def frontend_client contains_def str_find_def)
  moreover have "store_of (do_write_backend fd s lone_primary) = Map.empty" for fd s
    using store_of_cong [of "do_write_backend fd s lone_primary" lone_primary] lone_store
    by (simp add: do_write_backend_def)
  ultimately show ?thesis by simp
qed

end
