(* ===== verification/Text_Utils.thy ===== *)
theory Text_Utils
  imports Cpp_String "HOL-Library.List_Lexorder" "HOL-Library.Char_ord" "HOL-Library.Word" "HOL-Library.While_Combinator"
begin

text \<open>
  The text helpers of the frontend: \<open>stringutils.cc\<close> (suffixes, replacement, file names, the
  little JSON reader and writer), \<open>url.cc\<close> (form data), \<open>chunk.cc\<close> (chunked transfer) and
  \<open>cookie.cc\<close>. A \<open>std::map\<close> is an association list in the order of its keys (\<open>map_put\<close>).
\<close>

type_synonym params = "(string \<times> string) list"

definition dat :: "params \<Rightarrow> string \<Rightarrow> string" where
  "dat m k = (case map_of m k of None \<Rightarrow> [] | Some v \<Rightarrow> v)"

section \<open>Strings\<close>

definition has_suffix :: "string \<Rightarrow> string \<Rightarrow> bool" where
  "has_suffix str suf =
     (if length str < length suf then False
      else drop (length str - length suf) str = suf)"

function count_from :: "string \<Rightarrow> string \<Rightarrow> nat \<Rightarrow> nat" where
  "count_from buf sub offset =
     (if sub = [] then 0
      else case str_find_from buf sub offset of
             None \<Rightarrow> 0
           | Some i \<Rightarrow> if offset \<le> i \<and> i < length buf then Suc (count_from buf sub (i + length sub)) else 0)"
  by pat_completeness auto
termination
  by (relation "measure (\<lambda>(buf, sub, offset). length buf - offset)")
     (auto intro!: diff_less_mono2 simp: length_greater_0_conv [symmetric] simp del: length_greater_0_conv)

declare count_from.simps [simp del]

definition count_substring :: "string \<Rightarrow> string \<Rightarrow> nat" where
  "count_substring buf sub = count_from buf sub 0"

definition replace :: "string \<Rightarrow> string \<Rightarrow> string \<Rightarrow> string" where
  "replace str from to =
     (case str_find str from of
        None \<Rightarrow> str
      | Some i \<Rightarrow> take i str @ to @ drop (i + length from) str)"

definition to_lower :: "char \<Rightarrow> char" where
  "to_lower c =
     (let n = (of_char c :: nat) in if 65 \<le> n \<and> n \<le> 90 then char_of (n + 32) else c)"

text \<open>The part after the last slash; for a folder, after the last slash but one.\<close>

definition file_name_from_path :: "string \<Rightarrow> string" where
  "file_name_from_path full_path =
     (if full_path = ''/'' then ''/''
      else if full_path \<noteq> [] \<and> last full_path = CHR ''/''
      then (case str_rfind (butlast full_path) ''/'' of
              None \<Rightarrow> full_path
            | Some i \<Rightarrow> drop (i + 1) full_path)
      else (case str_rfind full_path ''/'' of
              None \<Rightarrow> full_path
            | Some i \<Rightarrow> drop (i + 1) full_path))"

section \<open>JSON\<close>

text \<open>
  The reader works on what is left of the text; every error is a \<open>runtime_error\<close>. After the
  opening quote, \<open>quoted_body\<close> reads up to the closing one; \<open>\n\<close> is the only escape.
\<close>

fun quoted_body :: "string \<Rightarrow> string \<Rightarrow> exn + (string \<times> string)" where
  "quoted_body val [] = Inl Runtime_error"
| "quoted_body val (c # s) =
     (if c = CHR 0x22 then Inr (val, s)
      else if c = CHR 0x5C then
        (case s of
           [] \<Rightarrow> Inl Runtime_error
         | d # s' \<Rightarrow> if d = CHR ''n'' then quoted_body (val @ [CHR 0x0A]) s' else Inl Runtime_error)
      else quoted_body (val @ [c]) s)"

fun parse_quoted_string :: "string \<Rightarrow> exn + (string \<times> string)" where
  "parse_quoted_string [] = Inl Runtime_error"
| "parse_quoted_string (c # s) = (if c = CHR 0x22 then quoted_body [] s else Inl Runtime_error)"

lemma quoted_body_shorter: "quoted_body val s = Inr (v, t) \<Longrightarrow> length t < length s"
  by (induction val s rule: quoted_body.induct) (auto split: if_splits list.splits)

lemma parse_quoted_shorter: "parse_quoted_string s = Inr (v, t) \<Longrightarrow> length t < length s"
  by (cases s) (auto split: if_splits dest: quoted_body_shorter)

function parse_pairs :: "string \<Rightarrow> params \<Rightarrow> exn + params" where
  "parse_pairs s m =
     (case s of
        [] \<Rightarrow> Inr m
      | c # s' \<Rightarrow>
          if c = CHR ''}'' then Inr m
          else case parse_quoted_string (if c = CHR '','' then s' else s) of
                 Inl e \<Rightarrow> Inl e
               | Inr (key, u) \<Rightarrow>
                   (case u of
                      [] \<Rightarrow> Inl Runtime_error
                    | d # v \<Rightarrow>
                        if d \<noteq> CHR '':'' then Inl Runtime_error
                        else case parse_quoted_string v of
                               Inl e \<Rightarrow> Inl e
                             | Inr (val, w) \<Rightarrow> parse_pairs w (map_put key val m)))"
  by pat_completeness auto
termination
proof (relation "measure (\<lambda>(s, m). length s)", goal_cases)
  case (2 s m c s' p key u d v q val w)
  then have "length u < length s"
    using parse_quoted_shorter [of "if c = CHR '','' then s' else s" key u] by (auto split: if_splits)
  moreover have "length w < length v" using parse_quoted_shorter [of v val w] 2 by simp
  ultimately show ?case using 2 by simp
qed simp

declare parse_pairs.simps [simp del]

definition parse_json_string :: "string \<Rightarrow> exn + params" where
  "parse_json_string json_string = parse_pairs (drop 1 json_string) []"

definition json_pair :: "string \<times> string \<Rightarrow> string" where
  "json_pair = (\<lambda>(k, v). [CHR 0x22] @ k @ [CHR 0x22, CHR '':''] @ [CHR 0x22] @ v @ [CHR 0x22])"

fun map_to_json :: "params \<Rightarrow> string" where
  "map_to_json [] = ''{}''"
| "map_to_json (p # ps) = ''{'' @ json_pair p @ concat (map (\<lambda>q. '','' @ json_pair q) ps) @ ''}''"

section \<open>Form data\<close>

definition isxdigit :: "char \<Rightarrow> bool" where
  "isxdigit c = (c \<in> set ''0123456789abcdefABCDEF'')"

definition hex_val :: "char \<Rightarrow> nat" where
  "hex_val c =
     (let n = (of_char c :: nat) in if n \<le> 57 then n - 48 else if n \<le> 70 then n - 55 else n - 87)"

fun url_decode :: "string \<Rightarrow> string" where
  "url_decode [] = []"
| "url_decode (c # s) =
     (if c = CHR ''%'' then
        (case s of
           a # b # s' \<Rightarrow>
             if isxdigit a \<and> isxdigit b then char_of (16 * hex_val a + hex_val b) # url_decode s'
             else c # url_decode s
         | _ \<Rightarrow> c # url_decode s)
      else if c = CHR ''+'' then CHR '' '' # url_decode s
      else c # url_decode s)"

text \<open>\<open>url.back()\<close> is called before anything else. The question mark it adds is not read.\<close>

definition param_of :: "string \<Rightarrow> (string \<times> string) option" where
  "param_of s =
     (case str_find s ''='' of
        None \<Rightarrow> None
      | Some pos \<Rightarrow>
          let key = take pos s
          in Some (if key \<noteq> [] \<and> hd key = CHR ''?'' then tl key else key, drop (pos + 1) s))"

definition params_from_url :: "string \<Rightarrow> exn + params" where
  "params_from_url url =
     (if url = [] then Inl Undefined_behaviour
      else Inr (fold (\<lambda>s m. case param_of s of None \<Rightarrow> m | Some (k, v) \<Rightarrow> map_put k v m)
                  (split url CHR ''&'') []))"

definition params_to_url :: "params \<Rightarrow> exn + string" where
  "params_to_url params =
     (let url = concat (map (\<lambda>(k, v). k @ ''='' @ v @ ''&'') params)
      in if url = [] then Inl Undefined_behaviour
         else Inr (''?'' @ (if last url = CHR ''&'' then butlast url else url)))"

section \<open>Chunked transfer\<close>

function hex_digits :: "nat \<Rightarrow> string" where
  "hex_digits n =
     (if n = 0 then []
      else let rem = n mod 16
           in hex_digits (n div 16) @ [char_of (rem + 48 + (if rem \<ge> 10 then 7 else 0))])"
  by pat_completeness auto
termination by (relation "measure id") auto

declare hex_digits.simps [simp del]

definition decToHex :: "nat \<Rightarrow> string" where
  "decToHex n = hex_digits n"

text \<open>
  \<open>hexToDec\<close> counts an unsigned index down from the last character while it is \<open>>= 0\<close>: past the
  first character the index wraps around and the next read is out of bounds. \<open>toupper\<close> is
  applied in the test only.
\<close>

primrec hex_loop :: "string \<Rightarrow> nat \<Rightarrow> nat \<Rightarrow> exn + nat" where
  "hex_loop [] base n = Inl Undefined_behaviour"
| "hex_loop (c # cs) base n =
     (if isdigit c then hex_loop cs (base * 16 mod 2 ^ 64) ((n + (of_char c - 48) * base) mod 2 ^ 64)
      else if isxdigit c then hex_loop cs (base * 16 mod 2 ^ 64) ((n + (of_char c - 55) * base) mod 2 ^ 64)
      else hex_loop cs base n)"

definition hexToDec :: "string \<Rightarrow> exn + nat" where
  "hexToDec hex =
     hex_loop (rev (if has_suffix hex [CHR 0x0D, CHR 0x0A] then butlast (butlast hex) else hex)) 1 0"

text \<open>
  \<open>read_from_chunk_transfer\<close>: \<open>chunk_lines\<close> are the lines the socket still gives; after the last
  one, \<open>readline\<close> gives the empty string again and again. \<open>expected_size\<close> is a \<open>size_t\<close> that starts
  as -1, and its test is one on unsigned numbers. \<open>pop_back\<close> twice needs two bytes.
\<close>

record chunk_reader =
  chunk_buf :: string
  chunk_payload :: string
  expected_size :: "64 word"
  chunk_lines :: "string list"

definition append_line :: "chunk_reader \<Rightarrow> chunk_reader" where
  "append_line r =
     (case chunk_lines r of
        [] \<Rightarrow> r
      | l # ls \<Rightarrow> r\<lparr>chunk_buf := chunk_buf r @ l, chunk_lines := ls\<rparr>)"

definition chunk_round :: "chunk_reader \<Rightarrow> exn + chunk_reader" where
  "chunk_round r =
     (if expected_size r < 0 then
        let size_text = strip (chunk_buf r)
        in ebind (hexToDec size_text) (\<lambda>n. Inr (r\<lparr>chunk_buf := size_text, expected_size := of_nat n\<rparr>))
      else if expected_size r + 2 \<noteq> of_nat (length (chunk_buf r)) then Inr r
      else if length (chunk_buf r) < 2 then Inl Undefined_behaviour
      else Inr (r\<lparr>chunk_payload := chunk_payload r @ butlast (butlast (chunk_buf r)), chunk_buf := [],
                 expected_size := -1\<rparr>))"

definition chunks_go_on :: "exn + chunk_reader \<Rightarrow> bool" where
  "chunks_go_on x = (case x of Inl _ \<Rightarrow> False | Inr r \<Rightarrow> chunk_buf r \<noteq> [CHR 0x0D, CHR 0x0A])"

definition chunk_step :: "exn + chunk_reader \<Rightarrow> exn + chunk_reader" where
  "chunk_step x = ebind x (\<lambda>r. ebind (chunk_round r) (\<lambda>r'. Inr (append_line r')))"

definition read_from_chunk_transfer :: "string \<Rightarrow> string list \<Rightarrow> exn + unit" where
  "read_from_chunk_transfer payload lines =
     (case while_option chunks_go_on chunk_step
             (Inr (append_line \<lparr>chunk_buf = [], chunk_payload = payload, expected_size = -1, chunk_lines = lines\<rparr>)) of
        None \<Rightarrow> Inl Diverges
      | Some (Inl e) \<Rightarrow> Inl e
      | Some (Inr r) \<Rightarrow> if expected_size r \<noteq> 0 then Inl Process_exit else Inr ())"

text \<open>\<open>None\<close>: the loop does not end, which happens for a chunk size of 0.\<close>

function write_chunks :: "nat \<Rightarrow> string \<Rightarrow> string option" where
  "write_chunks chunksize data =
     (if data = [] then Some ''0''
      else if chunksize = 0 then None
      else let sz = min chunksize (length data)
           in map_option (\<lambda>rest. decToHex sz @ [CHR 0x0D, CHR 0x0A] @ take sz data @ [CHR 0x0D, CHR 0x0A] @ rest)
                (write_chunks chunksize (drop sz data)))"
  by pat_completeness auto
termination by (relation "measure (\<lambda>(k, d). length d)") auto

declare write_chunks.simps [simp del]

definition write_to_chunk_transfer :: "string \<Rightarrow> nat \<Rightarrow> string option" where
  "write_to_chunk_transfer data chunksize = write_chunks chunksize data"

section \<open>Cookies\<close>

text \<open>\<open>mt\<close> gives the numbers of the generator \<open>std::mt19937\<close> seeded with the time.\<close>

definition cookie_char :: "nat \<Rightarrow> char" where
  "cookie_char c =
     (if c < 10 then char_of (48 + c)
      else if c < 36 then char_of (65 + (c - 10))
      else char_of (97 + (c - 36)))"

definition generate_cookie :: "(nat \<Rightarrow> nat) \<Rightarrow> string" where
  "generate_cookie mt = map (\<lambda>i. cookie_char (mt i mod 62)) [0..<128]"

section \<open>Lemmas: JSON\<close>

definition plain :: "string \<Rightarrow> bool" where
  "plain s = (CHR 0x22 \<notin> set s \<and> CHR 0x5C \<notin> set s)"

lemma quoted_body_plain: "plain v \<Longrightarrow> quoted_body acc (v @ CHR 0x22 # t) = Inr (acc @ v, t)"
  by (induction v arbitrary: acc) (auto simp: plain_def)

definition json_pairs :: "params \<Rightarrow> string" where
  "json_pairs ps = concat (map (\<lambda>q. '','' @ json_pair q) ps)"

definition put_all :: "params \<Rightarrow> params \<Rightarrow> params" where
  "put_all ps m = fold (\<lambda>(k, v) m. map_put k v m) ps m"

lemma parse_one_pair:
  assumes "plain k" and "plain v" and "s = json_pair (k, v) @ t \<or> s = CHR '','' # json_pair (k, v) @ t"
  shows "parse_pairs s m = parse_pairs t (map_put k v m)"
proof -
  have q: "parse_quoted_string (json_pair (k, v) @ t) = Inr (k, CHR '':'' # CHR 0x22 # v @ CHR 0x22 # t)"
    "parse_quoted_string (CHR 0x22 # v @ CHR 0x22 # t) = Inr (v, t)"
    using quoted_body_plain [OF assms(1), of "[]"] quoted_body_plain [OF assms(2), of "[]"]
    by (simp_all add: json_pair_def)
  obtain c where hd: "json_pair (k, v) @ t = CHR 0x22 # c" by (simp add: json_pair_def)
  from assms(3) show ?thesis
    using q unfolding hd by (auto simp: parse_pairs.simps [of s m])
qed

lemma parse_json_pairs:
  assumes "\<forall>(k, v) \<in> set ps. plain k \<and> plain v"
  shows "parse_pairs (json_pairs ps @ ''}'') m = Inr (put_all ps m)"
  using assms
proof (induction ps arbitrary: m)
  case Nil
  show ?case by (simp add: json_pairs_def put_all_def parse_pairs.simps)
next
  case (Cons p ps)
  obtain k v where p: "p = (k, v)" by (cases p)
  have "parse_pairs (json_pairs (p # ps) @ ''}'') m = parse_pairs (json_pairs ps @ ''}'') (map_put k v m)"
    by (rule parse_one_pair) (use Cons.prems in \<open>simp_all add: p json_pairs_def\<close>)
  also have "\<dots> = Inr (put_all (p # ps) m)"
    using Cons by (simp add: p put_all_def)
  finally show ?case .
qed

lemma parse_map_to_json:
  assumes "\<forall>(k, v) \<in> set ps. plain k \<and> plain v"
  shows "parse_json_string (map_to_json ps) = Inr (put_all ps [])"
proof (cases ps)
  case Nil
  then show ?thesis by (simp add: parse_json_string_def parse_pairs.simps put_all_def)
next
  case (Cons p qs)
  obtain k v where p: "p = (k, v)" by (cases p)
  have "parse_json_string (map_to_json ps) = parse_pairs (json_pair (k, v) @ json_pairs qs @ ''}'') []"
    by (simp add: Cons p parse_json_string_def json_pairs_def)
  also have "\<dots> = parse_pairs (json_pairs qs @ ''}'') (map_put k v [])"
    by (rule parse_one_pair) (use assms in \<open>simp_all add: Cons p\<close>)
  also have "\<dots> = Inr (put_all ps [])"
    using assms by (simp add: parse_json_pairs Cons p put_all_def)
  finally show ?thesis .
qed

lemma map_of_put_all: "distinct (map fst ps) \<Longrightarrow> map_of (put_all ps m) = map_of m ++ map_of ps"
proof (induction ps arbitrary: m)
  case (Cons p ps)
  obtain k v where p: "p = (k, v)" by (cases p)
  have "map_of (put_all (p # ps) m) = (map_of m)(k \<mapsto> v) ++ map_of ps"
    using Cons by (simp add: put_all_def p)
  also have "\<dots> = map_of m ++ map_of (p # ps)"
  proof
    fix x
    show "((map_of m)(k \<mapsto> v) ++ map_of ps) x = (map_of m ++ map_of (p # ps)) x"
      using Cons.prems by (cases "map_of ps x") (auto simp: p map_add_def image_iff dest!: map_of_SomeD split: option.splits)
  qed
  finally show ?case .
qed (simp add: put_all_def)

lemma sorted_put_all: "sorted (map fst m) \<Longrightarrow> sorted (map fst (put_all ps m))"
  by (induction ps arbitrary: m) (auto simp: put_all_def intro: sorted_map_put)

lemma quoted_escape:
  "plain a \<Longrightarrow> c \<noteq> CHR ''n'' \<Longrightarrow> quoted_body acc (a @ CHR 0x5C # c # t) = Inl Runtime_error"
  by (induction a arbitrary: acc) (auto simp: plain_def)

section \<open>Lemmas: chunks\<close>

lemma hex_loop_fails: "hex_loop cs base n = Inl Undefined_behaviour"
  by (induction cs arbitrary: base n) auto

text \<open>The decoder of a chunked body, from RFC 7230: size line, data, line end, up to size 0.\<close>

definition hex_num :: "string \<Rightarrow> nat" where
  "hex_num s = foldl (\<lambda>a c. 16 * a + hex_val c) 0 s"

lemma find_crlf_length: "str_find s [CHR 0x0D, CHR 0x0A] = Some i \<Longrightarrow> i + 2 \<le> length s"
proof -
  assume "str_find s [CHR 0x0D, CHR 0x0A] = Some i"
  then have "i \<le> length s" "prefix [CHR 0x0D, CHR 0x0A] (drop i s)" by (simp_all add: str_find_eq_Some_iff)
  moreover from this(2) have "length [CHR 0x0D, CHR 0x0A :: char] \<le> length (drop i s)" by (rule prefix_length_le)
  ultimately show ?thesis by simp
qed

function unchunk :: "string \<Rightarrow> string option" where
  "unchunk s =
     (case str_find s [CHR 0x0D, CHR 0x0A] of
        None \<Rightarrow> None
      | Some i \<Rightarrow>
          let n = hex_num (take i s); body = drop (i + 2) s
          in if i = 0 \<or> \<not> list_all isxdigit (take i s) then None
             else if n = 0 then (if body = [CHR 0x0D, CHR 0x0A] then Some [] else None)
             else if take 2 (drop n body) = [CHR 0x0D, CHR 0x0A]
             then map_option ((@) (take n body)) (unchunk (drop (n + 2) body))
             else None)"
  by pat_completeness auto
termination
  by (relation "measure length") (auto dest: find_crlf_length)

declare unchunk.simps [simp del]

lemma hex_char:
  fixes r :: nat
  assumes "r < 16"
  defines "c \<equiv> char_of (r + 48 + (if r \<ge> 10 then 7 else 0)) :: char"
  shows "hex_val c = r" and "isxdigit c" and "c \<noteq> CHR 0x0D"
proof -
  have num: "(of_char c :: nat) = r + 48 + (if r \<ge> 10 then 7 else 0)"
    using assms(1) by (simp add: c_def)
  then show "hex_val c = r" using assms(1) by (simp add: hex_val_def Let_def)
  show "c \<noteq> CHR 0x0D" using num by auto
  have "c \<in> set (map (\<lambda>r. char_of (r + 48 + (if r \<ge> 10 then 7 else 0))) [0..<16])"
    unfolding c_def set_map by (rule imageI) (use assms(1) in simp)
  also have "map (\<lambda>r. char_of (r + 48 + (if r \<ge> 10 then 7 else 0))) [0..<16] = ''0123456789ABCDEF''"
    by code_simp
  finally show "isxdigit c" by (auto simp: isxdigit_def)
qed

lemma hex_digits_num: "hex_num (hex_digits n) = n"
proof (induction n rule: hex_digits.induct)
  case (1 n)
  show ?case
  proof (cases "n = 0")
    case True
    then show ?thesis by (simp add: hex_digits.simps hex_num_def)
  next
    case False
    with 1 have "hex_num (hex_digits (n div 16)) = n div 16" by simp
    with hex_char(1) [of "n mod 16"] show ?thesis
      by (simp add: hex_digits.simps [of n] False Let_def hex_num_def)
  qed
qed

lemma hex_digits_chars: "c \<in> set (hex_digits n) \<Longrightarrow> isxdigit c \<and> c \<noteq> CHR 0x0D"
proof (induction n rule: hex_digits.induct)
  case (1 n)
  show ?case
  proof (cases "n = 0")
    case True
    with 1 show ?thesis by (simp add: hex_digits.simps)
  next
    case False
    with 1 hex_char(2,3) [of "n mod 16"] show ?thesis
      by (auto simp: hex_digits.simps [of n] Let_def)
  qed
qed

lemma hex_digits_Nil: "hex_digits n = [] \<longleftrightarrow> n = 0"
  by (subst hex_digits.simps) (simp add: Let_def)

lemma unchunk_chunk:
  assumes "0 < n" and "n = length d"
  shows "unchunk (decToHex n @ [CHR 0x0D, CHR 0x0A] @ d @ [CHR 0x0D, CHR 0x0A] @ rest) = map_option ((@) d) (unchunk rest)"
proof -
  have "CHR 0x0D \<notin> set (hex_digits n)" "list_all isxdigit (hex_digits n)" "hex_digits n \<noteq> []"
    using hex_digits_chars [of _ n] assms by (auto simp: list_all_iff hex_digits_Nil)
  with assms show ?thesis
    by (subst unchunk.simps) (simp add: decToHex_def hex_digits_num Let_def)
qed

lemma unchunk_end: "unchunk [CHR ''0'', CHR 0x0D, CHR 0x0A, CHR 0x0D, CHR 0x0A] = Some []"
  by (subst unchunk.simps) (simp add: str_find_def hex_num_def hex_val_def isxdigit_def Let_def)

lemma write_chunks_unchunk:
  assumes "0 < k"
  shows "\<exists>e. write_chunks k data = Some e \<and> unchunk (e @ [CHR 0x0D, CHR 0x0A, CHR 0x0D, CHR 0x0A]) = Some data"
proof (induction "length data" arbitrary: data rule: less_induct)
  case less
  show ?case
  proof (cases "data = []")
    case True
    then show ?thesis by (simp add: write_chunks.simps unchunk_end)
  next
    case False
    let ?n = "min k (length data)"
    have n: "0 < ?n" "?n = length (take ?n data)" using assms False by simp_all
    from less [of "drop ?n data"] n obtain e where
      e: "write_chunks k (drop ?n data) = Some e"
        "unchunk (e @ [CHR 0x0D, CHR 0x0A, CHR 0x0D, CHR 0x0A]) = Some (drop ?n data)" by auto
    let ?e = "decToHex ?n @ [CHR 0x0D, CHR 0x0A] @ take ?n data @ [CHR 0x0D, CHR 0x0A] @ e"
    have "write_chunks k data = Some ?e"
      using e(1) assms False by (subst write_chunks.simps) (simp add: Let_def)
    moreover have "unchunk (?e @ [CHR 0x0D, CHR 0x0A, CHR 0x0D, CHR 0x0A]) = Some data"
      using unchunk_chunk [OF n, of "e @ [CHR 0x0D, CHR 0x0A, CHR 0x0D, CHR 0x0A]"] e(2) by simp
    ultimately show ?thesis by blast
  qed
qed

section \<open>Properties\<close>

text \<open>
  C26: the JSON reader inverts the JSON writer: for keys and values without quotes and
  backslashes it returns the map that was written, in the order of its keys.
\<close>

theorem json_roundtrip:
  assumes "\<forall>(k, v) \<in> set ps. plain k \<and> plain v" and "distinct (map fst ps)"
  shows "\<exists>m. parse_json_string (map_to_json ps) = Inr m \<and> map_of m = map_of ps \<and> sorted (map fst m)"
  using parse_map_to_json [OF assms(1)] map_of_put_all [OF assms(2), of "[]"] sorted_put_all [of "[]" ps]
  by auto

theorem json_roundtrip_witness:
  "\<exists>m. parse_json_string (map_to_json [(''subject'', ''hi''), (''message'', ''a, b: c'')]) = Inr m
     \<and> map_of m ''message'' = Some ''a, b: c''"
  using json_roundtrip [of "[(''subject'', ''hi''), (''message'', ''a, b: c'')]"]
  by (auto simp: plain_def)

text \<open>
  A JSON value with any escape but \<open>\n\<close> in it (a quote, a tab, a backslash, as every JSON
  writer escapes them) is an uncaught \<open>runtime_error\<close>.
\<close>

theorem json_escape_raises:
  assumes "plain k" and "plain a" and "c \<noteq> CHR ''n''"
  shows "parse_json_string (CHR ''{'' # CHR 0x22 # k @ CHR 0x22 # CHR '':'' # CHR 0x22 # a @ CHR 0x5C # c # rest)
    = Inl Runtime_error"
  using quoted_body_plain [OF assms(1), of "[]"] quoted_escape [OF assms(2,3), of "[]"]
  by (simp add: parse_json_string_def parse_pairs.simps)

text \<open>
  C27: for a positive chunk size the chunked body is written completely, and, with the two line
  ends the connection loop adds, decodes by RFC 7230 to the data.
\<close>

theorem chunked_body_decodes:
  assumes "0 < chunksize"
  shows "\<exists>e. write_to_chunk_transfer data chunksize = Some e
    \<and> unchunk (e @ [CHR 0x0D, CHR 0x0A, CHR 0x0D, CHR 0x0A]) = Some data"
  unfolding write_to_chunk_transfer_def by (rule write_chunks_unchunk [OF assms])

theorem chunked_body_decodes_witness:
  "\<exists>e. write_to_chunk_transfer ''hello world, this is a file'' 16 = Some e
    \<and> unchunk (e @ [CHR 0x0D, CHR 0x0A, CHR 0x0D, CHR 0x0A]) = Some ''hello world, this is a file''"
  by (rule chunked_body_decodes) simp

text \<open>
  The test of the size never holds and the size never changes: a text of two or more bytes, not a
  line end, only grows and is never taken for a chunk.
\<close>

lemma chunks_never_end:
  assumes "expected_size r = -1" and "2 \<le> length (chunk_buf r)" and "chunk_buf r \<noteq> [CHR 0x0D, CHR 0x0A]"
    and "length (chunk_buf r) + length (concat (chunk_lines r)) < 2 ^ 64"
  shows "while_option chunks_go_on chunk_step (Inr r) = None"
proof -
  define P where "P x \<longleftrightarrow> (\<exists>r. x = Inr r \<and> expected_size r = -1 \<and> 2 \<le> length (chunk_buf r)
      \<and> chunk_buf r \<noteq> [CHR 0x0D, CHR 0x0A] \<and> length (chunk_buf r) + length (concat (chunk_lines r)) < 2 ^ 64)"
    for x :: "exn + chunk_reader"
  have step: "P (chunk_step x)" if "P x" for x
  proof -
    from that obtain r where r: "x = Inr r" "expected_size r = -1" "2 \<le> length (chunk_buf r)"
      "chunk_buf r \<noteq> [CHR 0x0D, CHR 0x0A]" "length (chunk_buf r) + length (concat (chunk_lines r)) < 2 ^ 64"
      unfolding P_def by blast
    have "unat (of_nat (length (chunk_buf r)) :: 64 word) = length (chunk_buf r)"
      using r(5) by (simp add: unat_of_nat take_bit_eq_mod)
    then have "(1 :: 64 word) \<noteq> of_nat (length (chunk_buf r))" using r(3) by (metis Suc_1 not_less_eq_eq unat_1 le_refl)
    then have "chunk_step x = Inr (append_line r)" using r(1,2) by (simp add: chunk_step_def chunk_round_def)
    moreover have "chunk_buf r @ l \<noteq> [CHR 0x0D, CHR 0x0A]" for l
    proof
      assume two: "chunk_buf r @ l = [CHR 0x0D, CHR 0x0A]"
      then have "length (chunk_buf r) + length l = 2" by (metis length_append length_Cons list.size(3) Suc_1 One_nat_def)
      with r(3) have "length l = 0" by linarith
      then have "l = []" by simp
      with two r(4) show False by simp
    qed
    ultimately show ?thesis using r unfolding P_def append_line_def by (cases "chunk_lines r") auto
  qed
  have start: "P (Inr r)" using assms unfolding P_def by blast
  show ?thesis
  proof (rule ccontr)
    assume "while_option chunks_go_on chunk_step (Inr r) \<noteq> None"
    then obtain y where y: "while_option chunks_go_on chunk_step (Inr r) = Some y" by blast
    have "P y" by (rule while_option_rule [OF step y start])
    with while_option_stop [OF y] show False by (auto simp: P_def chunks_go_on_def)
  qed
qed

lemma chunks_wait_for_ever:
  assumes "expected_size r = -1" and "chunk_buf r = []" and "chunk_lines r = []"
  shows "while_option chunks_go_on chunk_step (Inr r) = None"
proof -
  have fix_point: "chunk_step (Inr r) = Inr r"
    using assms by (simp add: chunk_step_def chunk_round_def append_line_def)
  show ?thesis
  proof (rule ccontr)
    assume "while_option chunks_go_on chunk_step (Inr r) \<noteq> None"
    then obtain y where y: "while_option chunks_go_on chunk_step (Inr r) = Some y" by blast
    have "y = Inr r" by (rule while_option_rule [where P = "\<lambda>x. x = Inr r", OF _ y refl]) (simp add: fix_point)
    with while_option_stop [OF y] assms(2) show False by (simp add: chunks_go_on_def)
  qed
qed

text \<open>What the first line that is not empty does.\<close>

lemma first_chunk_line:
  assumes "length (concat ls) < 2 ^ 64"
  shows "while_option chunks_go_on chunk_step
      (Inr (append_line \<lparr>chunk_buf = [], chunk_payload = p, expected_size = -1, chunk_lines = ls\<rparr>)) =
    (case dropWhile (\<lambda>l. l = []) ls of
       [] \<Rightarrow> None
     | l # ls' \<Rightarrow>
         if l = [CHR 0x0D, CHR 0x0A]
         then Some (Inr \<lparr>chunk_buf = l, chunk_payload = p, expected_size = -1, chunk_lines = ls'\<rparr>)
         else if length l = 1 then Some (Inl Undefined_behaviour) else None)"
  using assms
proof (induction ls)
  case Nil
  then show ?case by (simp add: append_line_def chunks_wait_for_ever)
next
  case (Cons l ls)
  let ?r = "\<lparr>chunk_buf = l, chunk_payload = p, expected_size = -1, chunk_lines = ls\<rparr>"
  have first: "append_line \<lparr>chunk_buf = [], chunk_payload = p, expected_size = -1, chunk_lines = l # ls\<rparr> = ?r"
    by (simp add: append_line_def)
  have some: "l = [] \<or> length l = 1 \<or> 2 \<le> length l" by (cases l) (auto simp: Suc_le_eq)
  consider "l = []" | "l = [CHR 0x0D, CHR 0x0A]" | "length l = 1" | "2 \<le> length l" "l \<noteq> [CHR 0x0D, CHR 0x0A]"
    using some by blast
  then show ?case
  proof cases
    case 1
    have "chunk_step (Inr ?r) = Inr (append_line \<lparr>chunk_buf = [], chunk_payload = p, expected_size = -1, chunk_lines = ls\<rparr>)"
      using 1 by (simp add: chunk_step_def chunk_round_def)
    then have "while_option chunks_go_on chunk_step (Inr ?r) = while_option chunks_go_on chunk_step
        (Inr (append_line \<lparr>chunk_buf = [], chunk_payload = p, expected_size = -1, chunk_lines = ls\<rparr>))"
      using 1 by (subst while_option_unfold) (simp add: chunks_go_on_def)
    with Cons 1 show ?thesis unfolding first by simp
  next
    case 2
    then show ?thesis unfolding first by (subst while_option_unfold) (simp add: chunks_go_on_def)
  next
    case 3
    then have "chunk_step (Inr ?r) = Inl Undefined_behaviour" "chunks_go_on (Inr ?r)" "l \<noteq> []"
      by (auto simp: chunk_step_def chunk_round_def chunks_go_on_def)
    then show ?thesis unfolding first
      by (subst while_option_unfold, subst while_option_unfold) (use 3 in \<open>auto simp: chunks_go_on_def\<close>)
  next
    case 4
    have "while_option chunks_go_on chunk_step (Inr ?r) = None"
      using 4 Cons.prems by (intro chunks_never_end) simp_all
    with 4 show ?thesis unfolding first by auto
  qed
qed



end
