(* ===== verification/Backend_Client.thy ===== *)
theory Backend_Client
  imports Kv_Store Text_Utils
begin

text \<open>
  The frontend's side of the backend protocol (\<open>frontend/src/message.cc\<close>,
  \<open>do_read_backend\<close> of both \<open>frontend/src/ioutils.cc\<close> and \<open>backend/src/utils.cpp\<close>): reading a
  reply, the commands sent to a storage server and to the coordinator, and the interface
  \<open>kv_backend\<close> the web handlers rely on, with the storage server that provides it.
\<close>

section \<open>Reading\<close>

text \<open>
  \<open>chunks\<close> are the pieces \<open>read\<close> returns before the end of the stream.
  \<open>message.append(buf, 0, n)\<close> goes through a C string, so a piece counts up to its first zero
  byte. The bytes of the piece after the delimiter are dropped.
\<close>

definition c_string :: "string \<Rightarrow> string" where
  "c_string s = takeWhile (\<lambda>c. c \<noteq> CHR 0x00) s"

primrec do_read_from :: "string \<Rightarrow> string \<Rightarrow> string list \<Rightarrow> string \<times> string list" where
  "do_read_from delim message [] = (message, [])"
| "do_read_from delim message (buf # chunks) =
     (let message' = message @ c_string buf in
      if delim \<noteq> [] \<and> contains message' delim
      then (substr_to message' (str_find message' delim), chunks)
      else do_read_from delim message' chunks)"

definition do_read :: "string \<Rightarrow> string list \<Rightarrow> string \<times> string list" where
  "do_read delim chunks = do_read_from delim [] chunks"

text \<open>\<open>None\<close> in the list is a read error; the end of the list is the end of the stream.\<close>

primrec do_read_backend_from :: "string \<Rightarrow> string \<Rightarrow> string option list \<Rightarrow> string \<times> string option list" where
  "do_read_backend_from delim message [] = (''CLOSED'', [])"
| "do_read_backend_from delim message (r # rs) =
     (case r of
        None \<Rightarrow> (''ERROR'', rs)
      | Some buf \<Rightarrow>
          let message' = message @ buf in
          if contains message' delim then (substr_to message' (str_find message' delim), rs)
          else do_read_backend_from delim message' rs)"

definition do_read_backend :: "string \<Rightarrow> string option list \<Rightarrow> string \<times> string option list" where
  "do_read_backend delim rs = do_read_backend_from delim [] rs"

section \<open>Commands\<close>

text \<open>
  A service answers one command line with one reply line. \<open>ask address line\<close> is a connection
  to \<open>address\<close>, whose greeting has been read; a write that fails ends the process.
\<close>

type_synonym 's service = "string \<Rightarrow> string \<Rightarrow> 's \<Rightarrow> exn + (string \<times> 's)"

definition uk_line :: "string \<Rightarrow> string \<Rightarrow> string \<Rightarrow> string" where
  "uk_line u k meth = meth @ '' '' @ u @ '' '' @ k @ crlf"

definition ukv_line :: "string \<Rightarrow> string \<Rightarrow> string \<Rightarrow> string \<Rightarrow> string" where
  "ukv_line u k v meth = meth @ '' '' @ u @ '' '' @ k @ '' '' @ v @ crlf"

text \<open>A socket is the address it is connected to; \<open>None\<close> is the descriptor -1.\<close>

definition bend_uk :: "'s service \<Rightarrow> string option \<Rightarrow> string \<Rightarrow> string \<Rightarrow> string \<Rightarrow> 's \<Rightarrow> exn + (string \<times> 's)" where
  "bend_uk ask sock u k meth s =
     (case sock of None \<Rightarrow> Inl Process_exit | Some a \<Rightarrow> ask a (uk_line u k meth) s)"

definition bend_ukv ::
  "'s service \<Rightarrow> string option \<Rightarrow> string \<Rightarrow> string \<Rightarrow> string \<Rightarrow> string \<Rightarrow> 's \<Rightarrow> exn + (string \<times> 's)" where
  "bend_ukv ask sock u k v meth s =
     (case sock of None \<Rightarrow> Inl Process_exit | Some a \<Rightarrow> ask a (ukv_line u k v meth) s)"

definition bend_GET :: "'s service \<Rightarrow> string option \<Rightarrow> string \<Rightarrow> string \<Rightarrow> 's \<Rightarrow> exn + (string \<times> 's)" where
  "bend_GET ask sock uuid key = bend_uk ask sock uuid key ''GET''"

definition bend_PUT :: "'s service \<Rightarrow> string option \<Rightarrow> string \<Rightarrow> string \<Rightarrow> string \<Rightarrow> 's \<Rightarrow> exn + (string \<times> 's)" where
  "bend_PUT ask sock uuid key val = bend_ukv ask sock uuid key val ''PUT''"

definition bend_CPUT :: "'s service \<Rightarrow> string option \<Rightarrow> string \<Rightarrow> string \<Rightarrow> string \<Rightarrow> 's \<Rightarrow> exn + (string \<times> 's)" where
  "bend_CPUT ask sock uuid key val = bend_ukv ask sock uuid key val ''CPUT''"

definition bend_DELETE :: "'s service \<Rightarrow> string option \<Rightarrow> string \<Rightarrow> string \<Rightarrow> 's \<Rightarrow> exn + (string \<times> 's)" where
  "bend_DELETE ask sock uuid key = bend_uk ask sock uuid key ''DELETE''"

section \<open>The coordinator\<close>

definition greet_bend :: "'s service \<Rightarrow> string \<Rightarrow> string \<Rightarrow> 's \<Rightarrow> exn + (string \<times> 's)" where
  "greet_bend ask bcoord uuid s = ask bcoord (''HELO passwd '' @ uuid @ crlf) s"

text \<open>
  The address in the coordinator's reply. All white space is stripped first; the port is cut to
  16 bits.
\<close>

definition bend_connect :: "'s service \<Rightarrow> string \<Rightarrow> string \<Rightarrow> 's \<Rightarrow> exn + (string option \<times> 's)" where
  "bend_connect ask bcoord uuid s =
     ebind (greet_bend ask bcoord uuid s) (\<lambda>(reply0, s').
       let reply = strip reply0 in
       if \<not> starts_with reply ''+OK'' then Inr (None, s')
       else
         let addr = strip (drop 3 reply) in
         case str_find addr '':'' of
           None \<Rightarrow> Inl Process_exit
         | Some i \<Rightarrow>
             ebind (stoi (drop (i + 1) addr)) (\<lambda>port.
               Inr (Some (take i addr @ '':'' @ to_string (port mod 2 ^ 16)), s')))"

definition bend_status :: "'s service \<Rightarrow> string \<Rightarrow> 's \<Rightarrow> exn + (string \<times> 's)" where
  "bend_status ask bcoord s = ask bcoord (''GET passwd null null'' @ crlf) s"

text \<open>\<open>split(baddr, '-')[1]\<close> reads past the end when there is nothing after the dash.\<close>

definition node_name :: "string \<Rightarrow> exn + string" where
  "node_name baddr =
     (if \<not> contains baddr ''-'' then Inr baddr
      else case split baddr CHR ''-'' of _ # name # _ \<Rightarrow> Inr name | _ \<Rightarrow> Inl Undefined_behaviour)"

definition bend_shutdown :: "'s service \<Rightarrow> string \<Rightarrow> string \<Rightarrow> 's \<Rightarrow> exn + (string \<times> 's)" where
  "bend_shutdown ask bcoord baddr s =
     ebind (node_name baddr) (\<lambda>name. ask bcoord (''STOP passwd '' @ name @ crlf) s)"

definition bend_restart :: "'s service \<Rightarrow> string \<Rightarrow> string \<Rightarrow> 's \<Rightarrow> exn + (string \<times> 's)" where
  "bend_restart ask bcoord baddr s =
     ebind (node_name baddr) (\<lambda>name. ask bcoord (''START passwd '' @ name @ crlf) s)"

definition bend_listcontent :: "'s service \<Rightarrow> string \<Rightarrow> 's \<Rightarrow> exn + (string \<times> 's)" where
  "bend_listcontent ask baddr s =
     ebind (node_name baddr) (\<lambda>name.
       case split name CHR '':'' of
         ip # _ # _ # p # _ \<Rightarrow>
           ebind (stoi p) (\<lambda>port. ask (ip @ '':'' @ to_string (port mod 2 ^ 16)) (''GET passwd null'' @ crlf) s)
       | _ \<Rightarrow> Inl Undefined_behaviour)"

section \<open>The storage server as a service\<close>

text \<open>
  The connection \<open>c\<close> of a frontend to a storage server: the line is served, and the client
  reads the first line the server wrote; without one it waits for ever.
\<close>

definition server_service :: "(string \<Rightarrow> nat) \<Rightarrow> int \<Rightarrow> conn \<Rightarrow> string \<Rightarrow> node \<Rightarrow> exn + (string \<times> node)" where
  "server_service H new_fd c line n =
     ebind (serve H new_fd c line n) (\<lambda>(rest, m).
       case filter (\<lambda>(fd, s). fd = connfd c) (drop (length (net n)) (net m)) of
         [] \<Rightarrow> Inl Diverges
       | (fd, s) # _ \<Rightarrow> Inr (fst (do_read crlf [s]), m))"

section \<open>Addresses\<close>

text \<open>
  \<open>inet_pton\<close>: four numbers up to 255 without leading zeros. A descriptor is the address it is
  connected to.
\<close>

definition ipv4_octet :: "string \<Rightarrow> bool" where
  "ipv4_octet o8 =
     (o8 \<noteq> [] \<and> length o8 \<le> 3 \<and> list_all isdigit o8 \<and> digits_val 0 o8 \<le> 255 \<and>
      (length o8 = 1 \<or> hd o8 \<noteq> CHR ''0''))"

definition inet_pton_ok :: "string \<Rightarrow> bool" where
  "inet_pton_ok ip =
     (list_all (\<lambda>c. isdigit c \<or> c = CHR ''.'') ip \<and> last ip \<noteq> CHR ''.'' \<and>
      length (split ip CHR ''.'') = 4 \<and> list_all ipv4_octet (split ip CHR ''.''))"

definition create_connect_socket :: "string \<Rightarrow> string option" where
  "create_connect_socket ip_address =
     (case IP_port ip_address of (ip, port) \<Rightarrow>
        if inet_pton_ok ip then Some (ip @ '':'' @ to_string (port mod 2 ^ 16)) else None)"

definition coord_address :: string where
  "coord_address = ''127.0.0.1:5001''"

section \<open>Interfaces\<close>

text \<open>
  The texts the protocol carries unchanged: a word has no white space, a value does not end in
  white space and is not empty. Neither has a carriage return or a zero byte, nor the text
  \<open>TSEQNUM\<close> or \<open>REPLICA\<close>, and a word does not begin with \<open>REQUEST\<close>: such a message is routed
  elsewhere.
\<close>

definition clean_text :: "string \<Rightarrow> bool" where
  "clean_text s =
     (\<not> contains s ''TSEQNUM'' \<and> \<not> contains s ''REPLICA'' \<and> CHR 0x0D \<notin> set s \<and> CHR 0x00 \<notin> set s)"

definition word :: "string \<Rightarrow> bool" where
  "word s = (s \<noteq> [] \<and> clean_text s \<and> (\<forall>c \<in> set s. \<not> isspace c) \<and> \<not> starts_with s ''REQUEST'')"

definition val_ok :: "string \<Rightarrow> bool" where
  "val_ok s = (s \<noteq> [] \<and> clean_text s \<and> \<not> isspace (last s))"

definition not_found :: string where
  "not_found = ''-ERR 204 specific row and column does not exist.''"

text \<open>
  The outcome of a call in terms of the map behind it: it returns \<open>r\<close>, keeps \<open>I\<close> and leaves
  the map \<open>m\<close>.
\<close>

definition yields :: "('s \<Rightarrow> bool) \<Rightarrow> ('s \<Rightarrow> store) \<Rightarrow> exn + ('a \<times> 's) \<Rightarrow> 'a \<Rightarrow> store \<Rightarrow> bool" where
  "yields I kv res r m = (\<exists>s'. res = Inr (r, s') \<and> I s' \<and> kv s' = m)"

lemma yields_Inr [simp]: "yields I kv (Inr (r', s)) r m \<longleftrightarrow> r' = r \<and> I s \<and> kv s = m"
  by (auto simp: yields_def)

lemma yieldsE:
  assumes "yields I kv res r m"
  obtains s' where "res = Inr (r, s')" and "I s'" and "kv s' = m"
  using assms by (auto simp: yields_def)

lemma yields_bind:
  assumes "yields I kv X r m" and "\<And>s'. I s' \<Longrightarrow> kv s' = m \<Longrightarrow> yields I kv (f (r, s')) r' m'"
  shows "yields I kv (ebind X f) r' m'"
  using assms by (auto elim!: yieldsE)

text \<open>
  What a client of one connection to a storage server relies on: \<open>kv\<close> is the map behind it,
  \<open>inv\<close> the states the laws hold in.
\<close>

locale kv_table =
  fixes line :: "string \<Rightarrow> 's \<Rightarrow> exn + (string \<times> 's)"
    and kv :: "'s \<Rightarrow> store"
    and inv :: "'s \<Rightarrow> bool"
  assumes get_law: "inv s \<Longrightarrow> word u \<Longrightarrow> word k \<Longrightarrow> u \<noteq> ''passwd'' \<Longrightarrow>
      yields inv kv (line (uk_line u k ''GET'') s) (case kv s (u, k) of None \<Rightarrow> not_found | Some v \<Rightarrow> v) (kv s)"
    and put_law: "inv s \<Longrightarrow> word u \<Longrightarrow> word k \<Longrightarrow> val_ok v \<Longrightarrow>
      yields inv kv (line (ukv_line u k v ''PUT'') s) ''+OK PUT SUCCESSFUL.'' ((kv s)((u, k) \<mapsto> v))"
    and delete_law: "inv s \<Longrightarrow> word u \<Longrightarrow> word k \<Longrightarrow>
      yields inv kv (line (uk_line u k ''DELETE'') s)
        (if kv s (u, k) = None then not_found else ''+OK DELETE successful.'') ((kv s)((u, k) := None))"

text \<open>
  With the coordinator, which names the storage server of a user. \<open>helo\<close> sends a line to it.
\<close>

locale kv_backend = kv_table line kv inv
  for line :: "string \<Rightarrow> 's \<Rightarrow> exn + (string \<times> 's)" and kv :: "'s \<Rightarrow> store" and inv :: "'s \<Rightarrow> bool" +
  fixes helo :: "string \<Rightarrow> 's \<Rightarrow> exn + (string \<times> 's)" and table_addr :: string
  assumes helo_law: "inv s \<Longrightarrow> word u \<Longrightarrow>
      yields inv kv (helo (''HELO passwd '' @ u @ crlf) s) (''+OK '' @ table_addr) (kv s)"
    and addr_law: "inv s \<Longrightarrow> \<exists>ip port. table_addr = ip @ '':'' @ to_string port \<and>
      inet_pton_ok ip \<and> 0 \<le> port \<and> port < 2 ^ 16"

section \<open>The lone primary provides the table interface\<close>

text \<open>The server serves alone and no stored value has a byte that would end a reply early.\<close>

definition table_inv :: "string \<Rightarrow> node \<Rightarrow> bool" where
  "table_inv a n =
     (serves_alone n \<and> listen_address n = a \<and>
      (\<forall>k v. store_of n k = Some v \<longrightarrow> CHR 0x0D \<notin> set v \<and> CHR 0x00 \<notin> set v))"

lemma word_clean [simp]: "word s \<Longrightarrow> clean_text s"
  by (simp add: word_def)

lemma val_clean [simp]: "val_ok s \<Longrightarrow> clean_text s"
  by (simp add: val_ok_def)

lemma word_word_ok [simp]: "word s \<Longrightarrow> word_ok s"
  by (auto simp: word_def word_ok_def isspace_def)

lemma val_ok_value_ok [simp]: "val_ok s \<Longrightarrow> value_ok s"
  by (auto simp: val_ok_def value_ok_def isspace_def)

lemma contains_separated:
  assumes "d \<notin> set p" and "p \<noteq> []"
  shows "contains (a @ d # b) p \<longleftrightarrow> contains a p \<or> contains b p"
proof -
  have "sublist p (d # b) \<longleftrightarrow> sublist p b"
    using assms by (cases p) (auto simp: sublist_Cons_right)
  moreover have "sublist p a"
    if "p = xs @ ys" "suffix xs a" "prefix ys (d # b)" for xs ys
    using that assms(1) by (cases ys) auto
  ultimately show ?thesis unfolding contains_iff sublist_append by blast
qed

lemma words_clean:
  assumes "CHR '' '' \<notin> set p" and "p \<noteq> []" and "\<not> contains meth p" and "\<not> contains u p" and "\<not> contains k p"
  shows "\<not> contains (meth @ '' '' @ u @ '' '' @ k) p"
    and "\<not> contains v p \<Longrightarrow> \<not> contains (meth @ '' '' @ u @ '' '' @ k @ '' '' @ v) p"
  using assms by (simp_all add: contains_separated)

lemma not_contains_char: "c \<in> set p \<Longrightarrow> c \<notin> set s \<Longrightarrow> \<not> contains s p"
  using set_mono_sublist [of p s] by (auto simp: contains_iff)

lemma contains_front: "contains s (p @ q) \<Longrightarrow> contains s p"
  by (auto simp: contains_iff sublist_def)

lemma ordinaryI:
  assumes "\<not> contains s ''TSEQNUM''" and "\<not> contains s ''REPLICA''" and "take 7 (drop 4 s) \<noteq> ''REQUEST''"
  shows "ordinary s"
proof -
  have "\<not> contains s (''TSEQNUM'' @ ''RETURN'')" "\<not> contains s (''REPLICA'' @ '' COUNT'')"
    using assms(1,2) contains_front by blast+
  then show ?thesis using assms by (simp add: ordinary_def)
qed

lemma no_request_word:
  assumes "word u"
  shows "take 7 (u @ CHR '' '' # s) \<noteq> ''REQUEST''"
proof
  assume eq: "take 7 (u @ CHR '' '' # s) = ''REQUEST''"
  show False
  proof (cases "length u < 7")
    case True
    then have "CHR '' '' \<in> set (take 7 (u @ CHR '' '' # s))"
      by (simp add: take_Cons')
    then show False unfolding eq by simp
  next
    case False
    then have "take 7 u = ''REQUEST''" using eq by simp
    then have "prefix ''REQUEST'' u" by (metis take_is_prefix)
    then show False using assms by (simp add: word_def starts_with_def)
  qed
qed

lemma contains_short: "length s < length p \<Longrightarrow> \<not> contains s p"
  by (auto simp: contains_iff dest: sublist_length_le)

lemma ordinary_lines:
  assumes "word u" and "word k"
  shows "ordinary (''GET '' @ u @ '' '' @ k)"
    and "val_ok v \<Longrightarrow> ordinary (put_cmd u k v)"
    and "ordinary (delete_cmd u k)"
proof -
  note w = words_clean [of "''TSEQNUM''" _ u k] words_clean [of "''REPLICA''" _ u k]
  have c: "\<not> contains u ''TSEQNUM''" "\<not> contains u ''REPLICA''" "\<not> contains k ''TSEQNUM''" "\<not> contains k ''REPLICA''"
    using assms by (simp_all add: word_def clean_text_def)
  show "ordinary (''GET '' @ u @ '' '' @ k)"
    using w(1,3) [of "''GET''"] c no_request_word [OF assms(1)] by (intro ordinaryI) (simp_all add: contains_short)
  show "ordinary (delete_cmd u k)"
    using w(1,3) [of "''DELETE''"] c by (intro ordinaryI) (simp_all add: contains_short delete_cmd_def)
  assume "val_ok v"
  then show "ordinary (put_cmd u k v)"
    using w(2,4) [of "''PUT''" v] c no_request_word [OF assms(1)]
    by (intro ordinaryI) (simp_all add: contains_short put_cmd_def val_ok_def clean_text_def)
qed

lemma serve_line:
  assumes "CHR 0x0D \<notin> set l" and "l \<noteq> []" and "\<not> isspace (last l)"
  shows "serve H f c (l @ crlf) n = ebind (dispatch H f c l n) (\<lambda>m. Inr ([], m))"
proof -
  have "str_find [] crlf = None" by (simp add: str_find_def)
  then have "serve H f c [] = (\<lambda>m. Inr ([], m))" by (intro ext) (simp add: serve.simps)
  then show ?thesis
    using assms by (subst serve.simps) (simp add: trim_id)
qed

lemma do_read_one:
  assumes "CHR 0x0D \<notin> set l" and "CHR 0x00 \<notin> set l"
  shows "fst (do_read crlf [l @ crlf]) = l"
proof -
  have "c_string (l @ crlf) = l @ crlf" using assms(2) by (simp add: c_string_def takeWhile_append2)
  then show ?thesis using assms(1) by (simp add: do_read_def contains_def)
qed

lemma service_answers:
  assumes "serves_alone n" and "client c" and "request_ok r (store_of n)"
    and "CHR 0x0D \<notin> set (render r)" and "\<not> isspace (last (render r))"
    and reply: "snd (kv_step r (store_of n)) = l @ crlf" and "CHR 0x0D \<notin> set l" and "CHR 0x00 \<notin> set l"
  obtains m where "server_service H f c (render r @ crlf) n = Inr (l, m)" and "serves_alone m"
    and "store_of m = fst (kv_step r (store_of n))" and "listen_address m = listen_address n"
proof -
  from request_answered [OF assms(1-3), of H f] obtain m where
    run: "dispatch H f c (render r) n = Inr m" and m: "answers c r n m" by blast
  have "render r \<noteq> []" by (cases r) (simp_all add: put_cmd_def cput_cmd_def delete_cmd_def)
  with run assms(4,5) have serve: "serve H f c (render r @ crlf) n = Inr ([], m)"
    by (simp add: serve_line)
  have net: "net m = net n @ [(connfd c, l @ crlf)]" and st: "serves_alone m"
    "listen_address m = listen_address n" "store_of m = fst (kv_step r (store_of n))"
    using m reply by (simp_all add: answers_def)
  have "server_service H f c (render r @ crlf) n = Inr (l, m)"
    using do_read_one [OF assms(7,8)] by (simp add: server_service_def serve net)
  with st that show thesis by blast
qed

lemma table_inv_frame:
  "table_inv a n \<Longrightarrow> store_of m = store_of n \<Longrightarrow> serves_alone m \<Longrightarrow> listen_address m = listen_address n \<Longrightarrow>
     table_inv a m"
  by (simp add: table_inv_def)

lemma clean_CR [simp]: "clean_text s \<Longrightarrow> CHR 0x0D \<notin> set s" "clean_text s \<Longrightarrow> CHR 0x00 \<notin> set s"
  by (simp_all add: clean_text_def)

lemma word_last: "word s \<Longrightarrow> s \<noteq> [] \<and> \<not> isspace (last s)"
  by (auto simp: word_def)

lemma service_get:
  assumes "table_inv a n" and "client c" and "word u" and "word k" and "u \<noteq> ''passwd''"
  shows "yields (table_inv a) store_of (server_service H f c (uk_line u k ''GET'') n)
     (case store_of n (u, k) of None \<Rightarrow> not_found | Some v \<Rightarrow> v) (store_of n)"
proof -
  let ?r = "Get u k"
  let ?l = "case store_of n (u, k) of None \<Rightarrow> not_found | Some v \<Rightarrow> v"
  have line: "uk_line u k ''GET'' = render ?r @ crlf" by (simp add: uk_line_def)
  have "takeWhile (\<lambda>x. x \<noteq> CHR '' '') (u @ CHR '' '' # k) = u"
    using word_word_ok [OF assms(3)] by (simp add: word_ok_def)
  then have "render ?r \<noteq> ''GET passwd null''" using assms(5) by auto
  then have ok: "request_ok ?r (store_of n)"
    using assms(3,4) ordinary_lines(1) [OF assms(3,4)] by simp
  have l: "snd (kv_step ?r (store_of n)) = ?l @ crlf" "CHR 0x0D \<notin> set ?l" "CHR 0x00 \<notin> set ?l"
    using assms(1) by (auto simp: not_found_def reply_204_def table_inv_def split: option.split)
  have inv: "serves_alone n" using assms(1) by (simp add: table_inv_def)
  obtain m where "server_service H f c (render ?r @ crlf) n = Inr (?l, m)" "serves_alone m"
    "store_of m = fst (kv_step ?r (store_of n))" "listen_address m = listen_address n"
    by (rule service_answers [OF inv assms(2) ok _ _ l]) (use assms(3,4) word_last [of k] in auto)
  then show ?thesis using assms(1) by (auto simp: line yields_def intro: table_inv_frame)
qed

lemma service_put:
  assumes "table_inv a n" and "client c" and "word u" and "word k" and "val_ok v"
  shows "yields (table_inv a) store_of (server_service H f c (ukv_line u k v ''PUT'') n)
     ''+OK PUT SUCCESSFUL.'' ((store_of n)((u, k) \<mapsto> v))"
proof -
  let ?r = "Put u k v" and ?l = "''+OK PUT SUCCESSFUL.''"
  have line: "ukv_line u k v ''PUT'' = render ?r @ crlf" by (simp add: ukv_line_def put_cmd_def)
  have ok: "request_ok ?r (store_of n)"
    using assms(3-5) ordinary_lines(2) [OF assms(3-5)] by simp
  have l: "snd (kv_step ?r (store_of n)) = ?l @ crlf" "CHR 0x0D \<notin> set ?l" "CHR 0x00 \<notin> set ?l"
    by (simp_all add: ok_text_def)
  have inv: "serves_alone n" using assms(1) by (simp add: table_inv_def)
  obtain m where m: "server_service H f c (render ?r @ crlf) n = Inr (?l, m)" "serves_alone m"
    "store_of m = fst (kv_step ?r (store_of n))" "listen_address m = listen_address n"
    by (rule service_answers [OF inv assms(2) ok _ _ l]) (use assms(3-5) in \<open>auto simp: put_cmd_def val_ok_def\<close>)
  have "table_inv a m"
    using assms(1,5) m(2,3,4) by (auto simp: table_inv_def)
  with m show ?thesis by (auto simp: line yields_def)
qed

lemma service_delete:
  assumes "table_inv a n" and "client c" and "word u" and "word k"
  shows "yields (table_inv a) store_of (server_service H f c (uk_line u k ''DELETE'') n)
     (if store_of n (u, k) = None then not_found else ''+OK DELETE successful.'') ((store_of n)((u, k) := None))"
proof -
  let ?r = "Delete u k"
  let ?l = "if store_of n (u, k) = None then not_found else ''+OK DELETE successful.''"
  have line: "uk_line u k ''DELETE'' = render ?r @ crlf" by (simp add: uk_line_def delete_cmd_def)
  have ok: "request_ok ?r (store_of n)"
    using assms(3,4) ordinary_lines(3) [OF assms(3,4)] by simp
  have l: "snd (kv_step ?r (store_of n)) = ?l @ crlf" "CHR 0x0D \<notin> set ?l" "CHR 0x00 \<notin> set ?l"
    by (auto simp: not_found_def reply_204_def ok_text_def)
  have inv: "serves_alone n" using assms(1) by (simp add: table_inv_def)
  obtain m where m: "server_service H f c (render ?r @ crlf) n = Inr (?l, m)" "serves_alone m"
    "store_of m = fst (kv_step ?r (store_of n))" "listen_address m = listen_address n"
    by (rule service_answers [OF inv assms(2) ok _ _ l])
       (use assms(3,4) word_last [of k] in \<open>auto simp: delete_cmd_def\<close>)
  have st: "store_of m = (store_of n)((u, k) := None)"
    using m(3) by (auto simp: fun_eq_iff)
  then have "table_inv a m"
    using assms(1) m(2,4) by (auto simp: table_inv_def split: if_splits)
  with m st show ?thesis by (auto simp: line yields_def)
qed

interpretation lone: kv_table "server_service H f frontend" store_of "table_inv a" for H f a
  by unfold_locales
     (rule service_get service_put service_delete; (assumption | rule frontend_client))+

section \<open>Reading in pieces\<close>

lemma no_early_delim:
  assumes "str_find (m @ delim) delim = Some (length m)" and "x @ y = m @ delim" and "y \<noteq> []"
  shows "\<not> contains x delim"
proof
  assume "contains x delim"
  then obtain k where k: "str_find x delim = Some k" by (auto simp: contains_def)
  then have "k \<le> length x" "prefix delim (drop k x)" by (simp_all add: str_find_eq_Some_iff)
  moreover from this(2) have "length delim \<le> length (drop k x)" by (rule prefix_length_le)
  moreover have "length x < length (m @ delim)" using assms(2,3) by (metis length_append length_greater_0_conv less_add_same_cancel1)
  ultimately have "k < length m" by simp
  moreover have "prefix delim (drop k (m @ delim))"
    using \<open>prefix delim (drop k x)\<close> \<open>k \<le> length x\<close> by (simp add: assms(2) [symmetric])
  ultimately show False using assms(1) by (auto simp: str_find_eq_Some_iff)
qed

lemma do_read_from_pieces:
  assumes "str_find (m @ delim) delim = Some (length m)" and "delim \<noteq> []"
    and "CHR 0x00 \<notin> set (m @ delim)" and "acc @ concat chunks = m @ delim" and "[] \<notin> set chunks" and "chunks \<noteq> []"
  shows "do_read_from delim acc (chunks @ rest) = (m, rest)"
  using assms(4-6)
proof (induction chunks arbitrary: acc)
  case (Cons b bs)
  have "set b \<subseteq> set (m @ delim)"
    unfolding Cons.prems(1) [symmetric] by auto
  then have b: "c_string b = b"
    using assms(3) by (auto simp: c_string_def takeWhile_eq_all_conv)
  show ?case
  proof (cases "bs = []")
    case True
    then have whole: "acc @ b = m @ delim" using Cons.prems(1) by simp
    show ?thesis using assms(1,2) by (simp add: True b contains_def whole)
  next
    case False
    then have "concat bs \<noteq> []" using Cons.prems(2) by (cases bs) auto
    with no_early_delim [OF assms(1), of "acc @ b" "concat bs"] Cons.prems(1)
    have "\<not> contains (acc @ b) delim" by simp
    with Cons.IH [of "acc @ b"] Cons.prems False show ?thesis by (simp add: b)
  qed
qed simp

text \<open>
  however the network cuts a reply into pieces, \<open>do_read\<close> returns the text before the
  delimiter and leaves what arrives later, as long as the delimiter ends a piece.
\<close>

theorem do_read_any_pieces:
  assumes "concat chunks = m @ delim" and "str_find (m @ delim) delim = Some (length m)"
    and "CHR 0x00 \<notin> set (m @ delim)" and "[] \<notin> set chunks" and "delim \<noteq> []"
  shows "do_read delim (chunks @ rest) = (m, rest)"
proof -
  have "chunks \<noteq> []" using assms(1,5) by auto
  with do_read_from_pieces [OF assms(2,5,3), of "[]" chunks rest] assms(1,4) show ?thesis
    by (simp add: do_read_def)
qed

theorem do_read_any_pieces_witness:
  "do_read crlf ([''+OK 1'', ''2'' @ [CHR 0x0D], [CHR 0x0A]] @ [''next'']) = (''+OK 12'', [''next''])"
  by (rule do_read_any_pieces) (simp_all add: str_find_def)

text \<open>
  When a second line arrives in the piece in which the first one ends, it is lost: the next
  read does not see it.
\<close>

theorem do_read_drops_the_rest:
  assumes "CHR 0x0D \<notin> set l" and "CHR 0x00 \<notin> set l" and "CHR 0x00 \<notin> set later"
  shows "do_read crlf [l @ crlf @ later] = (l, [])"
proof -
  have "c_string (l @ crlf @ later) = l @ crlf @ later"
    using assms(2,3) by (auto simp: c_string_def takeWhile_eq_all_conv)
  then show ?thesis using assms(1) by (simp add: do_read_def contains_def)
qed

end
