(* ===== verification/Coordinator.thy ===== *)
theory Coordinator
  imports Node
begin

text \<open>
  The coordinator (\<open>backend/coordinator.cpp\<close>): which storage servers are alive, which are
  paused by the administrator, and which one is the primary of each partition. It answers the
  frontends (\<open>accept_frontend_connections\<close>) and watches the heartbeats
  (\<open>accept_storage_connections\<close>); here each event is one step.
\<close>

section \<open>State\<close>

text \<open>
  A server is named by its five-part id \<open>IP:port:port:port:port\<close>. The sets of servers are
  lists without duplicates in the order of iteration. \<open>rands\<close> are the numbers \<open>rand()\<close>
  is going to return; \<open>out\<close> is the trace of all writes.
\<close>

record coord =
  partition_info :: "(string \<times> int) list"
  server_info :: "(string \<times> string) list"
  partition_count :: int
  comm_fd :: "(string \<times> int) list"
  primary_server :: "(int \<times> string) list"
  alive_servers :: "(int \<times> string list) list"
  all_servers :: "(int \<times> string) list"
  paused_servers :: "(int \<times> string list) list"
  paused_frontend_fd :: "(string \<times> int) list"
  server_heartbeat :: "(string \<times> int) list"
  rands :: "nat list"
  out :: "(int \<times> string) list"

definition initial_coord :: coord where
  "initial_coord =
     \<lparr>partition_info = [], server_info = [], partition_count = -1, comm_fd = [], primary_server = [],
      alive_servers = [], all_servers = [], paused_servers = [], paused_frontend_fd = [],
      server_heartbeat = [], rands = [], out = []\<rparr>"

text \<open>
  \<open>m[k]\<close> of a map without \<open>k\<close> inserts the default value. An absent set and an empty one
  are the same to every reader, so the sets are only read (\<open>set_at\<close>); for the other maps the
  insertion is seen by later calls of \<open>find\<close> and by iteration, and is modelled.
\<close>

definition touch :: "'k \<Rightarrow> 'v \<Rightarrow> ('k \<times> 'v) list \<Rightarrow> ('k \<times> 'v) list" where
  "touch k d m = (if map_of m k = None then AList.update k d m else m)"

text \<open>\<open>m[p]\<close> for a map to sets, to descriptors and to partitions: absent means empty or 0.\<close>

definition set_at :: "('k \<times> 'v list) list \<Rightarrow> 'k \<Rightarrow> 'v list" where
  "set_at m p = (case map_of m p of None \<Rightarrow> [] | Some s \<Rightarrow> s)"

definition int_at :: "('k \<times> int) list \<Rightarrow> 'k \<Rightarrow> int" where
  "int_at m k = (case map_of m k of None \<Rightarrow> 0 | Some v \<Rightarrow> v)"

definition write_fd :: "int \<Rightarrow> string \<Rightarrow> coord \<Rightarrow> coord" where
  "write_fd fd s c = c\<lparr>out := out c @ [(fd, s)]\<rparr>"

definition alive_at :: "coord \<Rightarrow> int \<Rightarrow> string list" where
  "alive_at c p = set_at (alive_servers c) p"

definition paused_at :: "coord \<Rightarrow> int \<Rightarrow> string list" where
  "paused_at c p = set_at (paused_servers c) p"

section \<open>Choosing a server\<close>

text \<open>
  The loop draws until the drawn server is not paused; the result is \<open>None\<close> when the given
  numbers do not suffice.
\<close>

primrec draw :: "string list \<Rightarrow> string list \<Rightarrow> nat list \<Rightarrow> (string \<times> nat list) option" where
  "draw servers paused [] = None"
| "draw servers paused (r # rs) =
     (let chosen = servers ! (r mod length servers)
      in if chosen \<in> set paused then draw servers paused rs else Some (chosen, rs))"

definition choose_random_server :: "int \<Rightarrow> coord \<Rightarrow> exn + (string \<times> coord)" where
  "choose_random_server p c =
     (case map_of (alive_servers c) p of
        None \<Rightarrow> Inr ([], c)
      | Some servers \<Rightarrow>
          if servers = [] then Inr ([], c)
          else if length servers = length (paused_at c p) then Inr ([], c)
          else (case draw servers (paused_at c p) (rands c) of
                  None \<Rightarrow> Inl Diverges
                | Some (s, rs) \<Rightarrow> Inr (s, c\<lparr>rands := rs\<rparr>)))"

text \<open>\<open>+OK PRIMARY ip:port count\<close> to every live server of the partition.\<close>

definition primary_message :: "string \<Rightarrow> nat \<Rightarrow> exn + string" where
  "primary_message primary count =
     (let tokens = split primary CHR '':'' in
      ebind (at tokens 0) (\<lambda>ip. ebind (at tokens 3) (\<lambda>port.
        Inr (''+OK PRIMARY '' @ ip @ '':'' @ port @ '' '' @ to_string (int count) @ crlf))))"

definition send_server :: "string \<Rightarrow> string \<Rightarrow> coord \<Rightarrow> coord" where
  "send_server msg srv c =
     write_fd (int_at (comm_fd c) srv) msg
       (c\<lparr>comm_fd := AList.update srv (int_at (comm_fd c) srv) (comm_fd c)\<rparr>)"

definition announce_primary :: "int \<Rightarrow> string \<Rightarrow> coord \<Rightarrow> exn + coord" where
  "announce_primary p new_primary c =
     (let c1 = c\<lparr>primary_server := AList.update p new_primary (primary_server c)\<rparr> in
      ebind (primary_message new_primary (length (alive_at c1 p))) (\<lambda>msg.
        Inr (fold (send_server msg) (alive_at c1 p) c1)))"

section \<open>Failures and heartbeats\<close>

definition drop_server :: "string \<Rightarrow> coord \<Rightarrow> coord" where
  "drop_server srv c =
     (let p = int_at (partition_info c) srv
      in c\<lparr>partition_info := touch srv 0 (partition_info c),
           comm_fd := AList.delete srv (comm_fd c),
           alive_servers := AList.update p (removeAll srv (alive_at c p)) (alive_servers c),
           server_heartbeat := AList.delete srv (server_heartbeat c),
           primary_server := touch p [] (primary_server c)\<rparr>)"

definition handle_server_failure :: "string \<Rightarrow> coord \<Rightarrow> exn + coord" where
  "handle_server_failure srv c =
     (let p = int_at (partition_info c) srv;
          c1 = drop_server srv c
      in if map_of (primary_server c1) p \<noteq> Some srv then Inr c1
         else ebind (choose_random_server p c1) (\<lambda>(new_primary, c2).
           if new_primary = []
           then Inr (c2\<lparr>alive_servers := AList.delete p (alive_servers c2),
                        primary_server := AList.delete p (primary_server c2)\<rparr>)
           else announce_primary p new_primary c2))"

text \<open>
  A heartbeat connection from an address that is not in \<open>server_info\<close> is closed, and one of a
  server that is alive already changes nothing more; both end the round (see \<open>storage_round\<close>).
  A communication connection is taken from any address: \<open>server_info[ip_port]\<close> of an unknown
  one is the empty string, and its partition 0.
\<close>

definition name_at :: "coord \<Rightarrow> string \<Rightarrow> string" where
  "name_at c addr = (case map_of (server_info c) addr of None \<Rightarrow> [] | Some srv \<Rightarrow> srv)"

definition accept_heartbeat :: "string \<Rightarrow> int \<Rightarrow> int \<Rightarrow> coord \<Rightarrow> exn + coord" where
  "accept_heartbeat addr fd now c =
     (case map_of (server_info c) addr of
        None \<Rightarrow> Inr c
      | Some srv \<Rightarrow>
          let p = int_at (partition_info c) srv;
              c1 = c\<lparr>server_heartbeat := AList.update addr now (server_heartbeat c),
                     all_servers := List.insert (fd, srv) (all_servers c),
                     partition_info := touch srv 0 (partition_info c)\<rparr>
          in if srv \<in> set (alive_at c1 p) then Inr c1
             else
               let c2 = c1\<lparr>alive_servers := AList.update p (alive_at c1 p @ [srv]) (alive_servers c1)\<rparr>
               in if map_of (primary_server c2) p \<noteq> None then Inr c2
                  else ebind (choose_random_server p c2) (\<lambda>(s, c3).
                         Inr (c3\<lparr>primary_server := AList.update p s (primary_server c3)\<rparr>)))"

definition accept_comm :: "string \<Rightarrow> int \<Rightarrow> coord \<Rightarrow> exn + coord" where
  "accept_comm addr fd c =
     (let srv = name_at c addr;
          c1 = c\<lparr>server_info := touch addr [] (server_info c),
                 comm_fd := AList.update srv fd (comm_fd c),
                 partition_info := touch srv 0 (partition_info c)\<rparr>;
          p = int_at (partition_info c1) srv
      in case map_of (primary_server c1) p of
           None \<Rightarrow> Inr (write_fd fd (''-ERR No primary server available'' @ crlf) c1)
         | Some primary \<Rightarrow>
             ebind (primary_message primary (length (alive_at c1 p))) (\<lambda>msg. Inr (write_fd fd msg c1)))"

text \<open>A heartbeat or communication connection that \<open>fcntl\<close> finds closed.\<close>

definition heartbeat_closed :: "int \<Rightarrow> string \<Rightarrow> coord \<Rightarrow> exn + coord" where
  "heartbeat_closed fd srv c =
     ebind (handle_server_failure srv c) (\<lambda>c1.
       Inr (c1\<lparr>all_servers := removeAll (fd, srv) (all_servers c1)\<rparr>))"

definition comm_closed :: "string \<Rightarrow> coord \<Rightarrow> coord" where
  "comm_closed srv c = c\<lparr>comm_fd := AList.delete srv (comm_fd c)\<rparr>"

definition heartbeat_message :: "int \<Rightarrow> string \<Rightarrow> string \<Rightarrow> int \<Rightarrow> coord \<Rightarrow> exn + coord" where
  "heartbeat_message fd srv message now c =
     (if message = ''CLOSED'' \<or> message = ''ERROR'' then
        heartbeat_closed fd srv c
      else if message \<noteq> ''HEARTBEAT'' then Inr c
      else Inr (c\<lparr>server_heartbeat := AList.update srv now (server_heartbeat c)\<rparr>))"

text \<open>
  The servers whose last heartbeat is more than \<open>HEARTBEAT_THRESHOLD\<close> = 3 seconds old. Two
  entries of \<open>all_servers\<close> for the same server are equal but hash differently when their
  descriptors differ; they are different entries here.
\<close>

definition is_late :: "int \<Rightarrow> string \<Rightarrow> coord \<Rightarrow> bool" where
  "is_late now srv c =
     (case map_of (server_heartbeat c) srv of None \<Rightarrow> False | Some t \<Rightarrow> now - t > 3)"

definition check_failures :: "int \<Rightarrow> coord \<Rightarrow> exn + coord" where
  "check_failures now c =
     ebind (efold (\<lambda>(fd, srv) (removed, c).
              if is_late now srv c
              then ebind (handle_server_failure srv c) (\<lambda>c'. Inr (removed @ [(fd, srv)], c'))
              else Inr (removed, c)) (all_servers c) ([], c)) (\<lambda>(removed, c1).
       Inr (c1\<lparr>all_servers := filter (\<lambda>x. x \<notin> set removed) (all_servers c1)\<rparr>))"

definition comm_message :: "string \<Rightarrow> string \<Rightarrow> coord \<Rightarrow> exn + coord" where
  "comm_message srv message c =
     (if contains message ''ACK'' then
        Inr (write_fd (int_at (paused_frontend_fd c) srv) (''+OK Server paused'' @ crlf) c)
      else if contains message ''REPLICA COUNT'' then
        ebind (at (split message CHR '' '') 2) (\<lambda>s. ebind (stoi s) (\<lambda>p.
          Inr (write_fd (int_at (comm_fd c) srv)
                 (''REPLICA COUNT '' @ to_string (int (length (alive_at c p))) @ crlf) c)))
      else Inr c)"

section \<open>Requests of the frontends\<close>

definition helo :: "int \<Rightarrow> string \<Rightarrow> coord \<Rightarrow> exn + coord" where
  "helo fd message c =
     ebind (at (split message CHR '' '') 2) (\<lambda>user_email.
       let p = get_partition (partition_count c) user_email in
       if p = -1 then Inr (write_fd fd (''-ERR Invalid user email'' @ crlf) c)
       else ebind (choose_random_server p c) (\<lambda>(chosen, c1).
         if chosen = [] then Inr (write_fd fd (''-ERR No available servers'' @ crlf) c1)
         else let tokens = split chosen CHR '':'' in
              ebind (at tokens 0) (\<lambda>ip. ebind (at tokens 3) (\<lambda>port.
                Inr (write_fd fd (''+OK '' @ ip @ '':'' @ port @ crlf) c1)))))"

definition is_on :: "coord \<Rightarrow> string \<Rightarrow> int \<Rightarrow> bool" where
  "is_on c srv p = (srv \<in> set (alive_at c p) \<and> srv \<notin> set (paused_at c p))"

definition list_servers :: "int \<Rightarrow> coord \<Rightarrow> coord" where
  "list_servers fd c =
     (let response = ''+OK '' @ concat (map (\<lambda>(srv, p).
            to_string p @ ''-'' @ srv @ ''-'' @ (if is_on c srv p then ''ON'' else ''OFF'') @ '' '') (partition_info c))
      in write_fd fd (butlast response @ crlf) c)"

definition strip_crlf :: "string \<Rightarrow> string" where
  "strip_crlf s = rev (dropWhile (\<lambda>ch. ch = CHR 0x0D \<or> ch = CHR 0x0A) (rev s))"

text \<open>A new primary for partition \<open>p\<close>, or none: the last step of \<open>STOP\<close> and \<open>START\<close>.\<close>

definition elect :: "int \<Rightarrow> coord \<Rightarrow> exn + coord" where
  "elect p c =
     ebind (choose_random_server p c) (\<lambda>(new_primary, c1).
       if new_primary = [] then Inr (c1\<lparr>primary_server := AList.delete p (primary_server c1)\<rparr>)
       else announce_primary p new_primary c1)"

definition pause_server :: "int \<Rightarrow> string \<Rightarrow> int \<Rightarrow> coord \<Rightarrow> coord" where
  "pause_server fd srv p c =
     (send_server (''STOP'' @ crlf) srv
        (c\<lparr>paused_servers := AList.update p (paused_at c p @ [srv]) (paused_servers c),
           paused_frontend_fd := AList.update srv fd (paused_frontend_fd c)\<rparr>))
       \<lparr>primary_server := touch p [] (primary_server c)\<rparr>"

definition resume_server :: "string \<Rightarrow> int \<Rightarrow> coord \<Rightarrow> coord" where
  "resume_server srv p c =
     c\<lparr>paused_servers := AList.update p (removeAll srv (paused_at c p)) (paused_servers c),
       paused_frontend_fd := AList.delete srv (paused_frontend_fd c)\<rparr>"

definition stop_request :: "int \<Rightarrow> string \<Rightarrow> coord \<Rightarrow> exn + coord" where
  "stop_request fd message c =
     (let tokens = split message CHR '' '' in
      if length tokens \<noteq> 3 then Inr (write_fd fd (''-ERR Invalid request'' @ crlf) c)
      else
        let srv = strip_crlf (tokens ! 2) in
        (case map_of (partition_info c) srv of
           None \<Rightarrow> Inr (write_fd fd (''-ERR Cannot identify server'' @ crlf) c)
         | Some p \<Rightarrow>
             if srv \<in> set (paused_at c p) then Inr (write_fd fd (''-ERR Server is already paused'' @ crlf) c)
             else
               let c1 = pause_server fd srv p c
               in if map_of (primary_server c1) p = Some srv then elect p c1 else Inr c1))"

definition start_request :: "int \<Rightarrow> string \<Rightarrow> coord \<Rightarrow> exn + coord" where
  "start_request fd message c =
     (let tokens = split message CHR '' '' in
      if length tokens \<noteq> 3 then Inr (write_fd fd (''-ERR Invalid request'' @ crlf) c)
      else
        let srv = strip_crlf (tokens ! 2) in
        (case map_of (partition_info c) srv of
           None \<Rightarrow> Inr (write_fd fd (''-ERR Cannot identify server'' @ crlf) c)
         | Some p \<Rightarrow>
             if srv \<notin> set (paused_at c p) then Inr (write_fd fd (''-ERR Server is already running'' @ crlf) c)
             else
               let c1 = resume_server srv p c
               in ebind (if map_of (primary_server c1) p = None then elect p c1 else Inr c1) (\<lambda>c2.
                    Inr (write_fd fd (''+OK Server resumed'' @ crlf) c2))))"

definition frontend_message :: "int \<Rightarrow> string \<Rightarrow> coord \<Rightarrow> exn + coord" where
  "frontend_message fd message c =
     (if message = ''CLOSED'' \<or> message = ''ERROR'' then Inr c
      else if contains message ''HELO passwd'' then helo fd message c
      else if contains message ''GET passwd null null'' then Inr (list_servers fd c)
      else if contains message ''STOP passwd'' then stop_request fd message c
      else if contains message ''START passwd'' then start_request fd message c
      else Inr (write_fd fd (''-ERR Invalid request'' @ crlf) c))"

section \<open>Configuration\<close>

text \<open>One line \<open>partition:IP:heartbeat:comm:listening:last\<close> of the storage file.\<close>

definition load_server :: "string \<Rightarrow> coord \<Rightarrow> exn + coord" where
  "load_server line c =
     (let parts = split line CHR '':'' in
      ebind (at parts 0) (\<lambda>s0. ebind (stoi s0) (\<lambda>p.
      ebind (at parts 1) (\<lambda>ip.
      ebind (at parts 2) (\<lambda>s2. ebind (stoi s2) (\<lambda>hb.
      ebind (at parts 3) (\<lambda>s3. ebind (stoi s3) (\<lambda>cm.
      ebind (at parts 4) (\<lambda>s4. ebind (stoi s4) (\<lambda>ls.
      ebind (at parts 5) (\<lambda>last_port.
        let full_id = ip @ '':'' @ to_string hb @ '':'' @ to_string cm @ '':'' @ to_string ls @ '':'' @ last_port
        in Inr (c\<lparr>server_info := AList.update (ip @ '':'' @ to_string cm) full_id
                    (AList.update (ip @ '':'' @ to_string hb) full_id
                      (AList.update (ip @ '':'' @ to_string ls) full_id (server_info c))),
                  partition_info := AList.update full_id p (partition_info c),
                  partition_count := max (partition_count c) p\<rparr>))))))))))))"

definition load_servers :: "string \<Rightarrow> coord \<Rightarrow> exn + coord" where
  "load_servers text c = efold load_server (split text newline) c"

section \<open>Events\<close>

text \<open>
  What the two threads of the coordinator react to. \<open>Random\<close> says what \<open>rand()\<close> will return
  from here on; a \<open>Check\<close> is the test of the heartbeats at a given time.
\<close>

datatype event =
    Heartbeat_conn string int int
  | Comm_conn string int
  | Heartbeat_msg int string string int
  | Heartbeat_closed int string
  | Comm_closed string
  | Check int
  | Comm_msg string string
  | Frontend int string
  | Random "nat list"

fun handle_event :: "event \<Rightarrow> coord \<Rightarrow> exn + coord" where
  "handle_event (Heartbeat_conn addr fd now) c = accept_heartbeat addr fd now c"
| "handle_event (Comm_conn addr fd) c = accept_comm addr fd c"
| "handle_event (Heartbeat_msg fd srv message now) c = heartbeat_message fd srv message now c"
| "handle_event (Heartbeat_closed fd srv) c = heartbeat_closed fd srv c"
| "handle_event (Comm_closed srv) c = Inr (comm_closed srv c)"
| "handle_event (Check now) c = check_failures now c"
| "handle_event (Comm_msg srv message) c = comm_message srv message c"
| "handle_event (Frontend fd message) c = frontend_message fd message c"
| "handle_event (Random rs) c = Inr (c\<lparr>rands := rs\<rparr>)"

definition run_coordinator :: "string \<Rightarrow> event list \<Rightarrow> exn + coord" where
  "run_coordinator storage_file events =
     ebind (load_servers storage_file initial_coord) (efold handle_event events)"

section \<open>Lemmas\<close>

lemma map_of_touch [simp]:
  "map_of (touch k d m) k' = (if k' = k \<and> map_of m k = None then Some d else map_of m k')"
  by (auto simp: touch_def)

lemma draw_SomeD:
  assumes "draw servers paused rs = Some (s, rs')" and "servers \<noteq> []"
  shows "s \<in> set servers \<and> s \<notin> set paused"
  using assms(1) by (induction rs) (auto simp: Let_def assms(2) split: if_splits)

lemma choose_cases:
  assumes "choose_random_server p c = Inr (s, c')"
  obtains rs where "c' = c\<lparr>rands := rs\<rparr>"
    and "s = [] \<or> s \<in> set (alive_at c p) \<and> s \<notin> set (paused_at c p)"
proof (cases "map_of (alive_servers c) p")
  case None
  then have "c' = c\<lparr>rands := rands c\<rparr>" "s = []"
    using assms by (auto simp: choose_random_server_def)
  then show thesis using that by blast
next
  case (Some servers)
  then have alive: "alive_at c p = servers"
    by (simp add: alive_at_def set_at_def)
  show thesis
  proof (cases "servers = [] \<or> length servers = length (paused_at c p)")
    case True
    then have "c' = c\<lparr>rands := rands c\<rparr>" "s = []"
      using assms Some by (auto simp: choose_random_server_def split: if_splits)
    then show thesis using that by blast
  next
    case False
    with Some assms obtain rs where draw: "draw servers (paused_at c p) (rands c) = Some (s, rs)"
      and c': "c' = c\<lparr>rands := rs\<rparr>"
      by (auto simp: choose_random_server_def split: option.splits)
    from draw_SomeD [OF draw] False alive that [OF c'] show thesis by simp
  qed
qed

text \<open>The primary recorded for a partition is alive and not paused.\<close>

definition serving :: "coord \<Rightarrow> int \<Rightarrow> string \<Rightarrow> bool" where
  "serving c p s = (s = [] \<or> s \<in> set (alive_at c p) \<and> s \<notin> set (paused_at c p))"

definition primary_ok :: "coord \<Rightarrow> bool" where
  "primary_ok c = (\<forall>p s. map_of (primary_server c) p = Some s \<longrightarrow> serving c p s)"

definition roles :: "coord \<Rightarrow> (int \<times> string) list \<times> (int \<times> string list) list \<times> (int \<times> string list) list" where
  "roles c = (primary_server c, alive_servers c, paused_servers c)"

lemma serving_Nil [simp]: "serving c p []"
  by (simp add: serving_def)

lemma serving_cong:
  "alive_servers c' = alive_servers c \<Longrightarrow> paused_servers c' = paused_servers c \<Longrightarrow> serving c' = serving c"
  by (rule ext)+ (simp add: serving_def alive_at_def paused_at_def)

lemma serving_record [simp]:
  "serving (c\<lparr>primary_server := x\<rparr>) = serving c" "serving (c\<lparr>rands := rs\<rparr>) = serving c"
  by (auto intro: serving_cong)

lemma primary_ok_roles:
  assumes "roles c' = roles c"
  shows "primary_ok c' = primary_ok c"
proof -
  have "serving c' = serving c"
    using assms by (intro serving_cong) (simp_all add: roles_def)
  with assms show ?thesis by (simp add: primary_ok_def roles_def)
qed

lemma roles_frame [frame, simp]:
  "roles (write_fd fd s c) = roles c" "roles (c\<lparr>rands := rs\<rparr>) = roles c"
  "roles (c\<lparr>comm_fd := x\<rparr>) = roles c" "roles (c\<lparr>all_servers := y\<rparr>) = roles c"
  "roles (c\<lparr>server_heartbeat := z\<rparr>) = roles c" "roles (comm_closed srv c) = roles c"
  "roles (send_server msg srv c) = roles c"
  by (simp_all add: roles_def write_fd_def comm_closed_def send_server_def)

lemma roles_fold_send [simp]: "roles (fold (send_server msg) srvs c) = roles c"
  by (induction srvs arbitrary: c) simp_all

lemma set_at_update [simp]: "set_at (AList.update k v m) k' = (if k' = k then v else set_at m k')"
  by (simp add: set_at_def)

lemma set_at_delete [simp]: "set_at (AList.delete k m) k' = (if k' = k then [] else set_at m k')"
  by (simp add: set_at_def)

lemma announce_primary_roles:
  assumes "announce_primary p s c = Inr c'"
  shows "roles c' = roles (c\<lparr>primary_server := AList.update p s (primary_server c)\<rparr>)"
  using assms by (auto simp: announce_primary_def Let_def elim!: ebind_InrE)

text \<open>The primary of every partition but \<open>p\<close> is alive and not paused.\<close>

definition primary_ok_except :: "int \<Rightarrow> coord \<Rightarrow> bool" where
  "primary_ok_except p c =
     (\<forall>q s. q \<noteq> p \<longrightarrow> map_of (primary_server c) q = Some s \<longrightarrow> serving c q s)"

lemma primary_ok_update:
  assumes "primary_ok_except p c" and "serving c p s"
  shows "primary_ok (c\<lparr>primary_server := AList.update p s (primary_server c), rands := rs\<rparr>)"
  using assms by (auto simp: primary_ok_except_def primary_ok_def)

lemma primary_ok_erase:
  assumes "primary_ok_except p c"
  shows "primary_ok (c\<lparr>primary_server := AList.delete p (primary_server c), rands := rs\<rparr>)"
  using assms by (auto simp: primary_ok_except_def primary_ok_def split: if_splits)

lemma choose_serving:
  assumes "choose_random_server p c = Inr (s, c')"
  obtains rs where "c' = c\<lparr>rands := rs\<rparr>" and "serving c p s"
  using assms by (rule choose_cases) (auto simp: serving_def)

lemma announce_ok:
  assumes "announce_primary p s e = Inr c'" and "e = c\<lparr>rands := rs\<rparr>"
    and "serving c p s" and "primary_ok_except p c"
  shows "primary_ok c'"
proof -
  have "roles c' = roles (c\<lparr>primary_server := AList.update p s (primary_server c), rands := rs\<rparr>)"
    using announce_primary_roles [OF assms(1)] by (simp add: assms(2) roles_def)
  from primary_ok_roles [OF this] primary_ok_update [OF assms(4,3), of rs] show ?thesis by simp
qed

lemma elect_ok:
  assumes "elect p c = Inr c'" and ok: "primary_ok_except p c"
  shows "primary_ok c'"
proof -
  from assms(1) obtain s e where choose: "choose_random_server p c = Inr (s, e)"
    and rest: "(if s = [] then Inr (e\<lparr>primary_server := AList.delete p (primary_server e)\<rparr>)
                else announce_primary p s e) = Inr c'"
    by (auto simp: elect_def elim!: ebind_InrE)
  from choose_serving [OF choose] obtain rs where e: "e = c\<lparr>rands := rs\<rparr>" and s: "serving c p s" .
  show ?thesis
  proof (cases "s = []")
    case True
    with rest have "c' = e\<lparr>primary_server := AList.delete p (primary_server e)\<rparr>" by simp
    then have "roles c' = roles (c\<lparr>primary_server := AList.delete p (primary_server c), rands := rs\<rparr>)"
      by (simp add: e roles_def)
    from primary_ok_roles [OF this] primary_ok_erase [OF ok, of rs] show ?thesis by simp
  next
    case False
    with rest have "announce_primary p s e = Inr c'" by (simp only: if_False)
    from announce_ok [OF this e s ok] show ?thesis .
  qed
qed

lemma primary_ok_D: "primary_ok c \<Longrightarrow> primary_ok_except p c"
  by (simp add: primary_ok_def primary_ok_except_def)

lemma primary_ok_touch:
  "primary_ok c \<Longrightarrow> primary_ok (c\<lparr>primary_server := touch p [] (primary_server c)\<rparr>)"
  by (auto simp: primary_ok_def split: if_splits)

lemma drop_server_ok:
  assumes "primary_ok c" and "p = int_at (partition_info c) srv"
  shows "primary_ok_except p (drop_server srv c)"
    and "map_of (primary_server (drop_server srv c)) p \<noteq> Some srv \<Longrightarrow> primary_ok (drop_server srv c)"
  using assms
  by (auto simp: primary_ok_def primary_ok_except_def drop_server_def Let_def serving_def alive_at_def
                 paused_at_def split: if_splits)

lemma handle_server_failure_ok:
  assumes run: "handle_server_failure srv c = Inr c'" and ok: "primary_ok c"
  shows "primary_ok c'"
proof -
  define p where "p = int_at (partition_info c) srv"
  define d where "d = drop_server srv c"
  from run have run': "(if map_of (primary_server d) p \<noteq> Some srv then Inr d
      else ebind (choose_random_server p d) (\<lambda>(s, e).
        if s = []
        then Inr (e\<lparr>alive_servers := AList.delete p (alive_servers e),
                     primary_server := AList.delete p (primary_server e)\<rparr>)
        else announce_primary p s e)) = Inr c'"
    by (simp only: handle_server_failure_def Let_def d_def p_def)
  show ?thesis
  proof (cases "map_of (primary_server d) p = Some srv")
    case False
    with run' drop_server_ok(2) [OF ok p_def] show ?thesis by (auto simp: d_def)
  next
    case True
    have ok_d: "primary_ok_except p d"
      using drop_server_ok(1) [OF ok p_def] by (simp add: d_def)
    from True run' obtain s e where choose: "choose_random_server p d = Inr (s, e)"
      and rest: "(if s = []
        then Inr (e\<lparr>alive_servers := AList.delete p (alive_servers e),
                     primary_server := AList.delete p (primary_server e)\<rparr>)
        else announce_primary p s e) = Inr c'"
      by (auto elim!: ebind_InrE)
    from choose_serving [OF choose] obtain rs where e: "e = d\<lparr>rands := rs\<rparr>" and s: "serving d p s" .
    show ?thesis
    proof (cases "s = []")
      case True
      with rest have "c' = e\<lparr>alive_servers := AList.delete p (alive_servers e),
                     primary_server := AList.delete p (primary_server e)\<rparr>" by simp
      with ok_d show ?thesis
        by (auto simp: e primary_ok_except_def primary_ok_def serving_def alive_at_def paused_at_def)
    next
      case False
      with rest have "announce_primary p s e = Inr c'" by (simp only: if_False)
      from announce_ok [OF this e s ok_d] show ?thesis .
    qed
  qed
qed

text \<open>Every event keeps the primaries alive and unpaused.\<close>

lemma roles_okI: "roles c' = roles c \<Longrightarrow> primary_ok c \<Longrightarrow> primary_ok c'"
  by (simp add: primary_ok_roles [of c' c])

lemma accept_heartbeat_ok:
  assumes run: "accept_heartbeat addr fd now c = Inr c'" and ok: "primary_ok c"
  shows "primary_ok c'"
proof (cases "map_of (server_info c) addr")
  case None
  with run ok show ?thesis by (simp add: accept_heartbeat_def)
next
  case (Some srv)
  define p where "p = int_at (partition_info c) srv"
  define c1 where "c1 = c\<lparr>server_heartbeat := AList.update addr now (server_heartbeat c),
      all_servers := List.insert (fd, srv) (all_servers c),
      partition_info := touch srv 0 (partition_info c)\<rparr>"
  define c2 where "c2 = c1\<lparr>alive_servers := AList.update p (alive_at c1 p @ [srv]) (alive_servers c1)\<rparr>"
  have ok1: "primary_ok c1"
    by (rule roles_okI [OF _ ok]) (simp add: c1_def roles_def)
  have ok2: "primary_ok c2"
    using ok1 by (auto simp: c2_def primary_ok_def serving_def alive_at_def paused_at_def)
  have run': "(if srv \<in> set (alive_at c1 p) then Inr c1
      else if map_of (primary_server c2) p \<noteq> None then Inr c2
      else ebind (choose_random_server p c2) (\<lambda>(s, c3).
             Inr (c3\<lparr>primary_server := AList.update p s (primary_server c3)\<rparr>))) = Inr c'"
    using run by (simp only: accept_heartbeat_def Some option.case c1_def c2_def p_def Let_def)
  then consider "c' = c1" | "c' = c2"
    | s c3 where "choose_random_server p c2 = Inr (s, c3)"
        "c' = c3\<lparr>primary_server := AList.update p s (primary_server c3)\<rparr>"
    by (auto split: if_splits elim!: ebind_InrE)
  then show ?thesis
  proof cases
    case 3
    from choose_serving [OF 3(1)] obtain rs where c3: "c3 = c2\<lparr>rands := rs\<rparr>" and s: "serving c2 p s" .
    have "roles c' = roles (c2\<lparr>primary_server := AList.update p s (primary_server c2), rands := rs\<rparr>)"
      by (simp add: 3(2) c3 roles_def)
    from roles_okI [OF this primary_ok_update [OF primary_ok_D [OF ok2] s]] show ?thesis .
  qed (use ok1 ok2 in simp_all)
qed

lemma accept_comm_ok:
  assumes "accept_comm addr fd c = Inr c'" and "primary_ok c"
  shows "primary_ok c'"
  by (rule roles_okI [OF _ assms(2)])
     (use assms(1) in \<open>auto simp: accept_comm_def Let_def roles_def write_fd_def split: option.splits elim!: ebind_InrE\<close>)

lemma heartbeat_closed_ok:
  assumes "heartbeat_closed fd srv c = Inr c'" and "primary_ok c"
  shows "primary_ok c'"
proof -
  from assms(1) obtain d where d: "handle_server_failure srv c = Inr d"
    and c': "c' = d\<lparr>all_servers := removeAll (fd, srv) (all_servers d)\<rparr>"
    by (auto simp: heartbeat_closed_def elim!: ebind_InrE)
  from roles_okI [OF _ handle_server_failure_ok [OF d assms(2)]] show ?thesis by (simp add: c')
qed

lemma heartbeat_message_ok:
  assumes "heartbeat_message fd srv message now c = Inr c'" and "primary_ok c"
  shows "primary_ok c'"
proof -
  from assms(1) consider "heartbeat_closed fd srv c = Inr c'" | "roles c' = roles c"
    by (auto simp: heartbeat_message_def split: if_splits)
  then show ?thesis using heartbeat_closed_ok roles_okI assms(2) by cases metis+
qed

lemma check_failures_ok:
  assumes "check_failures now c = Inr c'" and "primary_ok c"
  shows "primary_ok c'"
proof -
  let ?f = "\<lambda>(fd, srv) (removed, c). if is_late now srv c
              then ebind (handle_server_failure srv c) (\<lambda>c'. Inr (removed @ [(fd, srv)], c'))
              else Inr (removed, c)"
  from assms(1) obtain removed d where d: "efold ?f (all_servers c) ([], c) = Inr (removed, d)"
    and c': "c' = d\<lparr>all_servers := filter (\<lambda>x. x \<notin> set removed) (all_servers d)\<rparr>"
    by (auto simp: check_failures_def elim!: ebind_InrE)
  have "primary_ok (snd (removed, d))"
  proof (rule efold_invariant [where P = "\<lambda>s. primary_ok (snd s)", OF _ _ d])
    show "primary_ok (snd ([], c))" using assms(2) by simp
    show "primary_ok (snd s')" if "primary_ok (snd s)" and "?f x s = Inr s'" for x s s'
    proof -
      obtain fd srv rm e where x: "x = (fd, srv)" and s: "s = (rm, e)" by (metis surj_pair)
      from that(2) consider "snd s' = e" | "handle_server_failure srv e = Inr (snd s')"
        by (auto simp: x s split: if_splits elim!: ebind_InrE)
      then show ?thesis using that(1) handle_server_failure_ok by (cases) (auto simp: s)
    qed
  qed
  from roles_okI [OF _ this] show ?thesis by (simp add: c')
qed

lemma comm_message_ok:
  assumes "comm_message srv message c = Inr c'" and "primary_ok c"
  shows "primary_ok c'"
  by (rule roles_okI [OF _ assms(2)])
     (use assms(1) in \<open>auto simp: comm_message_def split: if_splits elim!: ebind_InrE\<close>)

lemma helo_ok:
  assumes "helo fd message c = Inr c'" and "primary_ok c"
  shows "primary_ok c'"
  by (rule roles_okI [OF _ assms(2)])
     (use assms(1) in \<open>auto simp: helo_def Let_def split: if_splits elim!: ebind_InrE choose_serving\<close>)

text \<open>Pausing a server that is not a primary, or any server once its primary is re-elected.\<close>

lemma pause_ok:
  assumes "primary_ok c"
  shows "primary_ok_except p (pause_server fd srv p c)"
    and "map_of (primary_server (pause_server fd srv p c)) p \<noteq> Some srv \<Longrightarrow> primary_ok (pause_server fd srv p c)"
  using assms
  by (auto simp: primary_ok_def primary_ok_except_def serving_def alive_at_def paused_at_def
                 pause_server_def send_server_def write_fd_def split: if_splits)

lemma resume_ok: "primary_ok c \<Longrightarrow> primary_ok (resume_server srv p c)"
  by (auto simp: resume_server_def primary_ok_def serving_def alive_at_def paused_at_def)

lemma stop_request_ok:
  assumes run: "stop_request fd message c = Inr c'" and ok: "primary_ok c"
  shows "primary_ok c'"
proof -
  from run consider "roles c' = roles c"
    | srv p where "elect p (pause_server fd srv p c) = Inr c'"
    | srv p where "map_of (primary_server (pause_server fd srv p c)) p \<noteq> Some srv" "c' = pause_server fd srv p c"
    by (auto simp: stop_request_def Let_def split: if_splits option.splits)
  then show ?thesis
    using roles_okI [OF _ ok] elect_ok [OF _ pause_ok(1) [OF ok]] pause_ok(2) [OF ok] by cases auto
qed

lemma start_request_ok:
  assumes run: "start_request fd message c = Inr c'" and ok: "primary_ok c"
  shows "primary_ok c'"
proof -
  from run consider "roles c' = roles c"
    | srv p c2 where "elect p (resume_server srv p c) = Inr c2" "roles c' = roles c2"
    | srv p where "roles c' = roles (resume_server srv p c)"
    by (auto simp: start_request_def Let_def split: if_splits option.splits elim!: ebind_InrE)
  then show ?thesis
  proof cases
    case 1
    then show ?thesis by (rule roles_okI [OF _ ok])
  next
    case 2
    from roles_okI [OF 2(2) elect_ok [OF 2(1) primary_ok_D [OF resume_ok [OF ok]]]] show ?thesis .
  next
    case 3
    from roles_okI [OF 3 resume_ok [OF ok]] show ?thesis .
  qed
qed

lemma frontend_message_ok:
  assumes "frontend_message fd message c = Inr c'" and "primary_ok c"
  shows "primary_ok c'"
proof -
  from assms(1) consider "roles c' = roles c" | "helo fd message c = Inr c'"
    | "stop_request fd message c = Inr c'" | "start_request fd message c = Inr c'"
    by (auto simp: frontend_message_def list_servers_def split: if_splits)
  then show ?thesis
    using roles_okI helo_ok stop_request_ok start_request_ok assms(2) by cases metis+
qed

lemma handle_event_ok:
  assumes "handle_event e c = Inr c'" and ok: "primary_ok c"
  shows "primary_ok c'"
proof (cases e)
  case (Comm_closed srv)
  with assms show ?thesis by (auto intro: roles_okI)
next
  case (Random rs)
  with assms show ?thesis by (auto intro: roles_okI)
qed (use assms in \<open>auto intro: accept_heartbeat_ok accept_comm_ok heartbeat_message_ok heartbeat_closed_ok
                        check_failures_ok comm_message_ok frontend_message_ok\<close>)

lemma load_servers_ok:
  assumes "load_servers text initial_coord = Inr c"
  shows "primary_server c = [] \<and> all_servers c = [] \<and> server_heartbeat c = [] \<and> alive_servers c = []
     \<and> paused_servers c = []"
proof (rule efold_invariant [where P = "\<lambda>c. primary_server c = [] \<and> all_servers c = [] \<and> server_heartbeat c = []
     \<and> alive_servers c = [] \<and> paused_servers c = []"])
  show "efold load_server (split text newline) initial_coord = Inr c"
    using assms by (simp add: load_servers_def)
qed (auto simp: load_server_def Let_def initial_coord_def elim!: ebind_InrE)

lemma run_coordinator_ok:
  assumes "run_coordinator text events = Inr c"
  shows "primary_ok c"
proof -
  from assms obtain c0 where c0: "load_servers text initial_coord = Inr c0"
    and run: "efold handle_event events c0 = Inr c"
    by (auto simp: run_coordinator_def elim!: ebind_InrE)
  have "primary_ok c0" using load_servers_ok [OF c0] by (simp add: primary_ok_def)
  then show ?thesis using run by (rule efold_invariant [where P = primary_ok, rotated]) (rule handle_event_ok)
qed

section \<open>Properties\<close>

text \<open>
  However the heartbeats, connections, failures and requests come, and whatever the random
  numbers are, the primary the coordinator records for a partition is a server of that
  partition that is alive and that the administrator has not paused; the only other value is
  the empty string, which \<open>primary_server[partition]\<close> inserts.
\<close>

theorem primaries_serve:
  assumes "run_coordinator storage_file events = Inr c"
    and "map_of (primary_server c) p = Some s" and "s \<noteq> []"
  shows "s \<in> set (alive_at c p) \<and> s \<notin> set (paused_at c p)"
  using run_coordinator_ok [OF assms(1)] assms(2,3) by (auto simp: primary_ok_def serving_def)

definition storage_servers :: string where
  "storage_servers = ''1:h:1:2:3:4'' @ [newline] @ ''1:h:5:6:7:8'' @ [newline]"

definition both_up :: "event list" where
  "both_up = [Heartbeat_conn ''h:1'' 10 0, Heartbeat_conn ''h:5'' 11 0, Comm_conn ''h:2'' 12, Comm_conn ''h:6'' 13]"

definition ends_in :: "exn + 'a \<Rightarrow> ('a \<Rightarrow> bool) \<Rightarrow> bool" where
  "ends_in r P = (case r of Inl e \<Rightarrow> False | Inr c \<Rightarrow> P c)"

lemma ends_inE:
  assumes "ends_in r P"
  obtains c where "r = Inr c" and "P c"
  using assms by (cases r) (auto simp: ends_in_def)

theorem primaries_serve_witness:
  "\<exists>c. run_coordinator storage_servers (Random [4, 3] # both_up @ [Frontend 20 ''STOP passwd h:1:2:3:4'']) = Inr c
    \<and> map_of (primary_server c) 1 = Some ''h:5:6:7:8''
    \<and> ''h:5:6:7:8'' \<in> set (alive_at c 1) \<and> ''h:5:6:7:8'' \<notin> set (paused_at c 1)"
proof -
  have "ends_in (run_coordinator storage_servers (Random [4, 3] # both_up @ [Frontend 20 ''STOP passwd h:1:2:3:4'']))
     (\<lambda>c. map_of (primary_server c) 1 = Some ''h:5:6:7:8'')"
    by code_simp
  then obtain c where
    "run_coordinator storage_servers (Random [4, 3] # both_up @ [Frontend 20 ''STOP passwd h:1:2:3:4'']) = Inr c"
    "map_of (primary_server c) 1 = Some ''h:5:6:7:8''" by (rule ends_inE)
  with primaries_serve [OF this] show ?thesis by blast
qed

lemma helo_parts:
  assumes "CHR '' '' \<notin> set email" and "email \<noteq> []"
  shows "split (''HELO passwd '' @ email) CHR '' '' = [''HELO'', ''passwd'', email]"
  using split_append_delim [of "CHR '' ''" "''HELO''" "''passwd '' @ email"]
    split_append_delim [of "CHR '' ''" "''passwd''" email] split_no_delim [OF assms(1)] assms(2)
  by simp

lemma at_two: "at [x, y, z] 2 = Inr z"
  by (simp add: at_def)

lemma choose_empty:
  assumes "choose_random_server p c = Inr (s, c')" and "[] \<notin> set (alive_at c p)"
  shows "s = [] \<longleftrightarrow> alive_at c p = [] \<or> length (alive_at c p) = length (paused_at c p)"
proof (cases "map_of (alive_servers c) p")
  case None
  with assms(1) show ?thesis by (simp add: choose_random_server_def alive_at_def set_at_def)
next
  case (Some servers)
  then have alive: "alive_at c p = servers" by (simp add: alive_at_def set_at_def)
  with assms Some draw_SomeD [of servers "paused_at c p" "rands c"] show ?thesis
    by (auto simp: choose_random_server_def split: if_splits option.splits)
qed

lemma helo_reply:
  assumes "frontend_message fd (''HELO passwd '' @ email) c = Inr c'"
    and "CHR '' '' \<notin> set email" and "email \<noteq> []" and "[] \<notin> set (alive_at c p)"
    and p: "p = get_partition (partition_count c) email"
  shows "\<exists>reply. out c' = out c @ [(fd, reply)] \<and> roles c' = roles c \<and>
     (if p = -1 then reply = ''-ERR Invalid user email'' @ crlf
      else if alive_at c p = [] \<or> length (alive_at c p) = length (paused_at c p)
      then reply = ''-ERR No available servers'' @ crlf
      else \<exists>s \<in> set (alive_at c p). s \<notin> set (paused_at c p) \<and>
             reply = ''+OK '' @ split s CHR '':'' ! 0 @ '':'' @ split s CHR '':'' ! 3 @ crlf)"
proof -
  have "contains (''HELO passwd '' @ email) ''HELO passwd''"
    using str_find_prefix [of "''HELO passwd''" "'' '' @ email"] by (simp add: contains_def)
  moreover have "''HELO passwd '' @ email \<noteq> ''CLOSED''" "''HELO passwd '' @ email \<noteq> ''ERROR''" by simp_all
  ultimately have "helo fd (''HELO passwd '' @ email) c = Inr c'"
    using assms(1) by (simp only: frontend_message_def if_True if_False simp_thms)
  then have run: "(if p = -1 then Inr (write_fd fd (''-ERR Invalid user email'' @ crlf) c)
       else ebind (choose_random_server p c) (\<lambda>(chosen, c1).
         if chosen = [] then Inr (write_fd fd (''-ERR No available servers'' @ crlf) c1)
         else let tokens = split chosen CHR '':'' in
              ebind (at tokens 0) (\<lambda>ip. ebind (at tokens 3) (\<lambda>port.
                Inr (write_fd fd (''+OK '' @ ip @ '':'' @ port @ crlf) c1))))) = Inr c'"
    unfolding helo_def helo_parts [OF assms(2,3)] at_two ebind_Inr p [symmetric] by (simp only: Let_def)
  show ?thesis
  proof (cases "p = -1")
    case True
    with run show ?thesis by (auto simp: write_fd_def roles_def)
  next
    case False
    with run obtain s e where choose: "choose_random_server p c = Inr (s, e)"
      and rest: "(if s = [] then Inr (write_fd fd (''-ERR No available servers'' @ crlf) e)
         else let tokens = split s CHR '':'' in
              ebind (at tokens 0) (\<lambda>ip. ebind (at tokens 3) (\<lambda>port.
                Inr (write_fd fd (''+OK '' @ ip @ '':'' @ port @ crlf) e)))) = Inr c'"
      by (auto elim!: ebind_InrE)
    from choose_serving [OF choose] obtain rs where e: "e = c\<lparr>rands := rs\<rparr>" and s: "serving c p s" .
    from rest have out: "\<exists>reply. out c' = out c @ [(fd, reply)] \<and> roles c' = roles c \<and>
       reply = (if s = [] then ''-ERR No available servers'' @ crlf
        else ''+OK '' @ split s CHR '':'' ! 0 @ '':'' @ split s CHR '':'' ! 3 @ crlf)"
      by (auto simp: e Let_def write_fd_def roles_def at_def split: if_splits elim!: ebind_InrE)
    with choose_empty [OF choose assms(4)] s False show ?thesis
      by (cases "s = []") (auto simp: serving_def)
  qed
qed


lemma draw_None: "draw servers paused rs = None \<longleftrightarrow> (\<forall>r \<in> set rs. servers ! (r mod length servers) \<in> set paused)"
  by (induction rs) (simp_all add: Let_def)

lemma choose_fails:
  assumes "choose_random_server p c = Inl e"
  shows "e = Diverges \<and> alive_at c p \<noteq> [] \<and> length (alive_at c p) \<noteq> length (paused_at c p)
    \<and> (\<forall>r \<in> set (rands c). alive_at c p ! (r mod length (alive_at c p)) \<in> set (paused_at c p))"
proof (cases "map_of (alive_servers c) p")
  case None
  with assms show ?thesis by (simp add: choose_random_server_def)
next
  case (Some servers)
  then have "alive_at c p = servers" by (simp add: alive_at_def set_at_def)
  with assms Some draw_None [of servers "paused_at c p" "rands c"] show ?thesis
    by (auto simp: choose_random_server_def split: if_splits option.splits)
qed

text \<open>
  C22: A frontend that asks for a server of a user's partition is told the address of one that is
  alive and not paused, or that the user is invalid, or that there are no servers. The last is said
  when no server is alive, and also whenever as many are alive as are paused, even if one of those
  alive is not paused. The coordinator hangs in the request only if all random numbers draw paused
  servers. The names of the live servers have four parts or more, as those of the storage file.
\<close>

theorem helo_names_live_server:
  assumes "CHR '' '' \<notin> set email" and "email \<noteq> []" and "p = get_partition (partition_count c) email"
    and "\<forall>s \<in> set (alive_at c p). 4 \<le> length (split s CHR '':'')"
  shows "case frontend_message fd (''HELO passwd '' @ email) c of
     Inl e \<Rightarrow> e = Diverges \<and> alive_at c p \<noteq> [] \<and> length (alive_at c p) \<noteq> length (paused_at c p)
       \<and> (\<forall>r \<in> set (rands c). alive_at c p ! (r mod length (alive_at c p)) \<in> set (paused_at c p))
   | Inr c' \<Rightarrow> \<exists>reply. out c' = out c @ [(fd, reply)] \<and> roles c' = roles c \<and>
       (if p = -1 then reply = ''-ERR Invalid user email'' @ crlf
        else if alive_at c p = [] \<or> length (alive_at c p) = length (paused_at c p)
        then reply = ''-ERR No available servers'' @ crlf
        else \<exists>s \<in> set (alive_at c p). s \<notin> set (paused_at c p) \<and>
               reply = ''+OK '' @ split s CHR '':'' ! 0 @ '':'' @ split s CHR '':'' ! 3 @ crlf)"
proof (cases "frontend_message fd (''HELO passwd '' @ email) c")
  case (Inr c')
  have "[] \<notin> set (alive_at c p)"
  proof
    assume "[] \<in> set (alive_at c p)"
    with assms(4) have "4 \<le> length (split [] CHR '':'')" by blast
    then show False by (simp add: split_def)
  qed
  with helo_reply [OF Inr assms(1,2) _ assms(3)] Inr show ?thesis by simp
next
  case (Inl e)
  have "contains (''HELO passwd '' @ email) ''HELO passwd''"
    using str_find_prefix [of "''HELO passwd''" "'' '' @ email"] by (simp add: contains_def)
  moreover have "''HELO passwd '' @ email \<noteq> ''CLOSED''" "''HELO passwd '' @ email \<noteq> ''ERROR''" by simp_all
  ultimately have run: "helo fd (''HELO passwd '' @ email) c = Inl e"
    using Inl by (simp only: frontend_message_def if_True if_False simp_thms)
  have "p \<noteq> -1"
  proof
    assume "p = -1"
    with run show False
      unfolding helo_def helo_parts [OF assms(1,2)] at_two ebind_Inr assms(3) [symmetric] by simp
  qed
  then have chosen: "ebind (choose_random_server p c) (\<lambda>(chosen, c1).
         if chosen = [] then Inr (write_fd fd (''-ERR No available servers'' @ crlf) c1)
         else let tokens = split chosen CHR '':'' in
              ebind (at tokens 0) (\<lambda>ip. ebind (at tokens 3) (\<lambda>port.
                Inr (write_fd fd (''+OK '' @ ip @ '':'' @ port @ crlf) c1)))) = Inl e"
    using run unfolding helo_def helo_parts [OF assms(1,2)] at_two ebind_Inr assms(3) [symmetric] by (simp only: Let_def if_False)
  have "choose_random_server p c = Inl e"
  proof (cases "choose_random_server p c")
    case (Inr x)
    obtain s c1 where x: "x = (s, c1)" by (cases x)
    have "s = [] \<or> s \<in> set (alive_at c p)" using choose_cases [OF Inr [unfolded x]] by blast
    with assms(4) chosen show ?thesis by (auto simp: Inr x at_def Let_def split: if_splits)
  qed (use chosen in simp)
  from choose_fails [OF this] Inl show ?thesis by simp
qed

theorem helo_names_live_server_witness:
  "\<exists>c. run_coordinator storage_servers (Random [4, 3, 7, 9] # both_up) = Inr c
    \<and> (\<exists>c' reply. frontend_message 20 ''HELO passwd alice'' c = Inr c' \<and> out c' = out c @ [(20, reply)])"
proof -
  let ?r = "run_coordinator storage_servers (Random [4, 3, 7, 9] # both_up)"
  have "ends_in ?r (\<lambda>c. ends_in (frontend_message 20 ''HELO passwd alice'' c) (\<lambda>_. True)
     \<and> (\<forall>s \<in> set (alive_at c (get_partition (partition_count c) ''alice'')). 4 \<le> length (split s CHR '':'')))" by code_simp
  then obtain c c' where c: "?r = Inr c" "frontend_message 20 ''HELO passwd alice'' c = Inr c'"
     "\<forall>s \<in> set (alive_at c (get_partition (partition_count c) ''alice'')). 4 \<le> length (split s CHR '':'')"
    by (auto elim!: ends_inE)
  from helo_names_live_server [OF _ _ refl c(3), of 20] c(1,2) show ?thesis by auto
qed

lemma draw_all_paused: "set servers \<subseteq> set paused \<Longrightarrow> servers \<noteq> [] \<Longrightarrow> draw servers paused rs = None"
  by (induction rs) (auto simp: Let_def subset_iff)

lemma choose_diverges:
  assumes "set (alive_at c p) \<subseteq> set (paused_at c p)" and "alive_at c p \<noteq> []"
    and "length (alive_at c p) \<noteq> length (paused_at c p)"
  shows "choose_random_server p c = Inl Diverges"
proof -
  from assms(2) obtain servers where some: "map_of (alive_servers c) p = Some servers" "servers = alive_at c p"
    by (auto simp: alive_at_def set_at_def split: option.splits)
  with assms draw_all_paused [of servers "paused_at c p" "rands c"] show ?thesis
    by (simp add: choose_random_server_def)
qed

lemma stop_parts:
  assumes "CHR '' '' \<notin> set srv" and "srv \<noteq> []"
  shows "split (''STOP passwd '' @ srv) CHR '' '' = [''STOP'', ''passwd'', srv]"
  using split_append_delim [of "CHR '' ''" "''STOP''" "''passwd '' @ srv"]
    split_append_delim [of "CHR '' ''" "''passwd''" srv] split_no_delim [OF assms(1)] assms(2)
  by simp

text \<open>A server's name has no blank and no line end, and the request no other key word.\<close>

definition server_name :: "string \<Rightarrow> bool" where
  "server_name srv = (srv \<noteq> [] \<and> CHR '' '' \<notin> set srv \<and> last srv \<noteq> CHR 0x0D \<and> last srv \<noteq> CHR 0x0A)"

lemma strip_crlf_id: "server_name srv \<Longrightarrow> strip_crlf srv = srv"
  by (cases srv rule: rev_cases) (auto simp: strip_crlf_def server_name_def)

lemma stop_request_eq:
  assumes "server_name srv" and "map_of (partition_info c) srv = Some p" and "srv \<notin> set (paused_at c p)"
  shows "stop_request fd (''STOP passwd '' @ srv) c =
     (let c1 = pause_server fd srv p c
      in if map_of (primary_server c1) p = Some srv then elect p c1 else Inr c1)"
proof -
  have "split (''STOP passwd '' @ srv) CHR '' '' = [''STOP'', ''passwd'', srv]"
    using assms(1) by (intro stop_parts) (auto simp: server_name_def)
  then show ?thesis
    using assms by (simp add: stop_request_def strip_crlf_id Let_def)
qed

lemma pause_server_fields [simp]:
  "primary_server (pause_server fd srv p c) = touch p [] (primary_server c)"
  "alive_at (pause_server fd srv p c) q = alive_at c q"
  "paused_at (pause_server fd srv p c) q = (if q = p then paused_at c p @ [srv] else paused_at c q)"
  "partition_info (pause_server fd srv p c) = partition_info c"
  "server_info (pause_server fd srv p c) = server_info c"
  by (simp_all add: pause_server_def send_server_def write_fd_def alive_at_def paused_at_def)

text \<open>
  C36: The administrator stops the last live server of a partition, its primary, while another
  server of the partition that had been stopped before has gone away: the counts of live and
  paused servers then differ, and the coordinator looks for an unpaused server for ever,
  whatever the random numbers are.
\<close>

theorem stop_last_server_hangs:
  assumes "server_name srv" and "map_of (partition_info c) srv = Some p" and "srv \<notin> set (paused_at c p)"
    and "map_of (primary_server c) p = Some srv" and "alive_at c p = [srv]" and "paused_at c p \<noteq> []"
  shows "stop_request fd (''STOP passwd '' @ srv) c = Inl Diverges"
proof -
  have "choose_random_server p (pause_server fd srv p c) = Inl Diverges"
    by (rule choose_diverges) (use assms in auto)
  then show ?thesis
    unfolding stop_request_eq [OF assms(1-3)] using assms(4) by (simp add: elect_def Let_def)
qed

theorem stop_last_server_hangs_witness:
  "\<exists>c. run_coordinator storage_servers (Random [4, 3, 7, 9] # both_up
        @ [Frontend 20 ''STOP passwd h:5:6:7:8'', Heartbeat_closed 11 ''h:5:6:7:8'']) = Inr c
    \<and> stop_request 20 (''STOP passwd '' @ ''h:1:2:3:4'') c = Inl Diverges"
proof -
  let ?s = "''h:1:2:3:4''"
  let ?r = "run_coordinator storage_servers (Random [4, 3, 7, 9] # both_up
        @ [Frontend 20 ''STOP passwd h:5:6:7:8'', Heartbeat_closed 11 ''h:5:6:7:8''])"
  have "ends_in ?r (\<lambda>c. map_of (partition_info c) ?s = Some 1 \<and> ?s \<notin> set (paused_at c 1)
     \<and> map_of (primary_server c) 1 = Some ?s \<and> alive_at c 1 = [?s] \<and> paused_at c 1 \<noteq> [])"
    by code_simp
  moreover have "server_name ?s" by code_simp
  ultimately show ?thesis
    using stop_last_server_hangs [of ?s _ 1 20] by (elim ends_inE) blast
qed

text \<open>
  Stopping a server of a partition that has no primary records the empty string as its
  primary: the next storage server of the partition that connects makes the coordinator read
  past the parts of that name, an uncaught exception.
\<close>

theorem stop_without_primary_crashes:
  assumes "server_name srv" and "map_of (partition_info c) srv = Some p" and "srv \<notin> set (paused_at c p)"
    and "map_of (primary_server c) p = None"
    and "map_of (server_info c) addr = Some other" and "map_of (partition_info c) other = Some p"
  shows "\<exists>c'. stop_request fd (''STOP passwd '' @ srv) c = Inr c' \<and> map_of (primary_server c') p = Some []
     \<and> (\<forall>fd'. accept_comm addr fd' c' = Inl Out_of_range)"
proof -
  have "srv \<noteq> []" using assms(1) by (simp add: server_name_def)
  then have "stop_request fd (''STOP passwd '' @ srv) c = Inr (pause_server fd srv p c)"
    unfolding stop_request_eq [OF assms(1-3)] using assms(4) by (simp add: Let_def)
  moreover have "accept_comm addr fd' (pause_server fd srv p c) = Inl Out_of_range" for fd'
    using assms(4-6) by (simp add: accept_comm_def Let_def int_at_def primary_message_def at_def name_at_def)
  ultimately show ?thesis using assms(4) by simp
qed

lemma check_failures_none:
  assumes "\<forall>(fd, srv) \<in> set (all_servers c). map_of (server_heartbeat c) srv = None"
  shows "check_failures now c = Inr c"
proof -
  have "efold (\<lambda>(fd, srv) (removed, c). if is_late now srv c
          then ebind (handle_server_failure srv c) (\<lambda>c'. Inr (removed @ [(fd, srv)], c'))
          else Inr (removed, c)) xs ([], c) = Inr ([], c)" if "set xs \<subseteq> set (all_servers c)" for xs
    using that assms by (induction xs) (auto simp: is_late_def)
  from this [of "all_servers c"] show ?thesis by (simp add: check_failures_def)
qed

text \<open>
  The time of a server's connection is recorded under the address it connected from, the
  times of its heartbeats under its full name, and only the latter are looked at: a server
  that connects and then never sends a heartbeat is never found to have failed.
\<close>

theorem silent_server_never_fails:
  assumes "load_servers storage_file initial_coord = Inr c0"
    and "map_of (server_info c0) addr = Some srv" and "addr \<noteq> srv"
    and "efold handle_event [Random rs, Heartbeat_conn addr fd now] c0 = Inr c"
  shows "srv \<in> set (alive_at c (int_at (partition_info c0) srv)) \<and> efold handle_event (map Check ts) c = Inr c"
proof -
  note c0 = load_servers_ok [OF assms(1)]
  from assms(4) have run: "accept_heartbeat addr fd now (c0\<lparr>rands := rs\<rparr>) = Inr c"
    by (cases "accept_heartbeat addr fd now (c0\<lparr>rands := rs\<rparr>)") auto
  have c: "server_heartbeat c = [(addr, now)]" "all_servers c = [(fd, srv)]"
    "srv \<in> set (alive_at c (int_at (partition_info c0) srv))"
    using run assms(2) c0
    by (auto simp: accept_heartbeat_def Let_def alive_at_def set_at_def split: if_splits
             elim!: ebind_InrE choose_serving)
  have "check_failures t c = Inr c" for t
    by (rule check_failures_none) (use c assms(3) in auto)
  then have "efold handle_event (map Check ts) c = Inr c" by (induction ts) auto
  with c show ?thesis by simp
qed

theorem silent_server_never_fails_witness:
  "\<exists>c0 c. load_servers storage_servers initial_coord = Inr c0
     \<and> efold handle_event [Random [0], Heartbeat_conn ''h:1'' 10 0] c0 = Inr c
     \<and> efold handle_event (map Check [100, 1000]) c = Inr c"
proof -
  have "ends_in (load_servers storage_servers initial_coord) (\<lambda>c0.
      map_of (server_info c0) ''h:1'' = Some ''h:1:2:3:4''
      \<and> ends_in (efold handle_event [Random [0], Heartbeat_conn ''h:1'' 10 0] c0) (\<lambda>_. True))"
    by code_simp
  then obtain c0 c where "load_servers storage_servers initial_coord = Inr c0"
      "map_of (server_info c0) ''h:1'' = Some ''h:1:2:3:4''"
      "efold handle_event [Random [0], Heartbeat_conn ''h:1'' 10 0] c0 = Inr c"
    by (auto elim!: ends_inE)
  with silent_server_never_fails [OF this(1,2) _ this(3), of "[100, 1000]"] show ?thesis by auto
qed

section \<open>The storage file\<close>

record server_config =
  sc_partition :: int
  sc_ip :: string
  sc_heartbeat :: int
  sc_comm :: int
  sc_listen :: int
  sc_last :: string

definition fits_int :: "int \<Rightarrow> bool" where
  "fits_int n = (- (2 ^ 31) \<le> n \<and> n < 2 ^ 31)"

definition config_ok :: "server_config \<Rightarrow> bool" where
  "config_ok s =
     (fits_int (sc_partition s) \<and> fits_int (sc_heartbeat s) \<and> fits_int (sc_comm s) \<and> fits_int (sc_listen s)
      \<and> CHR '':'' \<notin> set (sc_ip s) \<and> newline \<notin> set (sc_ip s)
      \<and> sc_last s \<noteq> [] \<and> CHR '':'' \<notin> set (sc_last s) \<and> newline \<notin> set (sc_last s))"

definition full_id :: "server_config \<Rightarrow> string" where
  "full_id s = sc_ip s @ '':'' @ to_string (sc_heartbeat s) @ '':'' @ to_string (sc_comm s) @ '':''
     @ to_string (sc_listen s) @ '':'' @ sc_last s"

definition config_line :: "server_config \<Rightarrow> string" where
  "config_line s = to_string (sc_partition s) @ '':'' @ full_id s"

definition address :: "server_config \<Rightarrow> int \<Rightarrow> string" where
  "address s port = sc_ip s @ '':'' @ to_string port"

definition addresses :: "server_config \<Rightarrow> string list" where
  "addresses s = [address s (sc_heartbeat s), address s (sc_comm s), address s (sc_listen s)]"

lemma split_full_id:
  assumes "config_ok s"
  shows "split (full_id s) CHR '':'' =
     [sc_ip s, to_string (sc_heartbeat s), to_string (sc_comm s), to_string (sc_listen s), sc_last s]"
  using assms by (simp add: full_id_def config_ok_def split_no_delim)

lemma load_config_line:
  assumes "config_ok s"
  shows "load_server (config_line s) c =
     Inr (c\<lparr>server_info := AList.update (address s (sc_comm s)) (full_id s)
              (AList.update (address s (sc_heartbeat s)) (full_id s)
                (AList.update (address s (sc_listen s)) (full_id s) (server_info c))),
            partition_info := AList.update (full_id s) (sc_partition s) (partition_info c),
            partition_count := max (partition_count c) (sc_partition s)\<rparr>)"
proof -
  have tokens: "split (config_line s) CHR '':'' = [to_string (sc_partition s), sc_ip s,
      to_string (sc_heartbeat s), to_string (sc_comm s), to_string (sc_listen s), sc_last s]"
    using split_full_id [OF assms] by (simp add: config_line_def)
  from assms show ?thesis
    by (simp add: load_server_def tokens Let_def at_def stoi_to_string config_ok_def fits_int_def)
       (simp add: address_def full_id_def)
qed

lemma efold_config_lines:
  assumes "\<forall>s \<in> set ss. config_ok s" and "distinct (concat (map addresses ss))" and "distinct (map full_id ss)"
  shows "\<exists>c'. efold load_server (map config_line ss) c = Inr c'
     \<and> (\<forall>s \<in> set ss. map_of (partition_info c') (full_id s) = Some (sc_partition s)
          \<and> (\<forall>a \<in> set (addresses s). map_of (server_info c') a = Some (full_id s)))
     \<and> (\<forall>a. (\<forall>s \<in> set ss. a \<notin> set (addresses s)) \<longrightarrow> map_of (server_info c') a = map_of (server_info c) a)
     \<and> (\<forall>i. i \<notin> full_id ` set ss \<longrightarrow> map_of (partition_info c') i = map_of (partition_info c) i)
     \<and> partition_count c' = fold (\<lambda>s m. max m (sc_partition s)) ss (partition_count c)"
  using assms
proof (induction ss arbitrary: c)
  case (Cons s ss)
  from Cons.prems have ok: "config_ok s" by simp
  obtain c1 where c1: "load_server (config_line s) c = Inr c1"
    and info: "map_of (server_info c1) = (map_of (server_info c))
        (address s (sc_listen s) \<mapsto> full_id s, address s (sc_heartbeat s) \<mapsto> full_id s, address s (sc_comm s) \<mapsto> full_id s)"
    and part: "map_of (partition_info c1) = (map_of (partition_info c))(full_id s \<mapsto> sc_partition s)"
    and count: "partition_count c1 = max (partition_count c) (sc_partition s)"
    using load_config_line [OF ok, of c] by simp
  have prems: "\<forall>s \<in> set ss. config_ok s" "distinct (concat (map addresses ss))" "distinct (map full_id ss)"
    using Cons.prems by auto
  from Cons.IH [OF prems, of c1] obtain c' where
    run: "efold load_server (map config_line ss) c1 = Inr c'"
    and tl: "\<forall>s \<in> set ss. map_of (partition_info c') (full_id s) = Some (sc_partition s)
          \<and> (\<forall>a \<in> set (addresses s). map_of (server_info c') a = Some (full_id s))"
    and oth: "\<And>a. \<forall>s \<in> set ss. a \<notin> set (addresses s) \<Longrightarrow> map_of (server_info c') a = map_of (server_info c1) a"
      "\<And>i. i \<notin> full_id ` set ss \<Longrightarrow> map_of (partition_info c') i = map_of (partition_info c1) i"
    and cnt: "partition_count c' = fold (\<lambda>s m. max m (sc_partition s)) ss (partition_count c1)"
    by blast
  have fresh: "\<forall>s' \<in> set ss. a \<notin> set (addresses s')" if "a \<in> set (addresses s)" for a
    using Cons.prems(2) that by auto
  have hd_info: "map_of (server_info c') a = Some (full_id s)" if "a \<in> set (addresses s)" for a
    using oth(1) [OF fresh [OF that]] that by (auto simp: info addresses_def)
  have hd_part: "map_of (partition_info c') (full_id s) = Some (sc_partition s)"
    using oth(2) [of "full_id s"] Cons.prems(3) by (auto simp: part)
  have rest: "map_of (server_info c') a = map_of (server_info c) a"
    if "\<forall>s' \<in> set (s # ss). a \<notin> set (addresses s')" for a
    using oth(1) [of a] that by (auto simp: info addresses_def)
  have rest': "map_of (partition_info c') i = map_of (partition_info c) i" if "i \<notin> full_id ` set (s # ss)" for i
    using oth(2) [of i] that by (auto simp: part)
  have "efold load_server (map config_line (s # ss)) c = Inr c'"
    using c1 run by simp
  moreover have "partition_count c' = fold (\<lambda>s m. max m (sc_partition s)) (s # ss) (partition_count c)"
    using cnt count by simp
  ultimately show ?case using hd_info hd_part tl rest rest' by (intro exI [of _ c']) auto
qed simp

lemma split_lines:
  assumes "\<forall>l \<in> set ls. newline \<notin> set l"
  shows "split (concat (map (\<lambda>l. l @ [newline]) ls)) newline = ls"
  using assms by (induction ls) auto

lemma config_line_newline: "config_ok s \<Longrightarrow> newline \<notin> set (config_line s)"
  by (auto simp: config_line_def full_id_def config_ok_def)

text \<open>
  A well-formed storage file is loaded completely: every server is filed under its three
  addresses with its partition, the number of partitions is the largest one, and the name of
  every server can be announced as a primary with its listening address.
\<close>

theorem storage_file_loaded:
  assumes "\<forall>s \<in> set ss. config_ok s" and "distinct (concat (map addresses ss))" and "distinct (map full_id ss)"
  shows "\<exists>c. load_servers (concat (map (\<lambda>s. config_line s @ [newline]) ss)) initial_coord = Inr c
     \<and> (\<forall>s \<in> set ss. map_of (partition_info c) (full_id s) = Some (sc_partition s)
          \<and> (\<forall>a \<in> set (addresses s). map_of (server_info c) a = Some (full_id s))
          \<and> primary_message (full_id s) n =
              Inr (''+OK PRIMARY '' @ address s (sc_listen s) @ '' '' @ to_string (int n) @ crlf))
     \<and> partition_count c = fold (\<lambda>s m. max m (sc_partition s)) ss (-1)"
proof -
  have "split (concat (map (\<lambda>s. config_line s @ [newline]) ss)) newline = map config_line ss"
    using split_lines [of "map config_line ss"] config_line_newline assms(1)
    by (simp add: comp_def)
  then have load: "load_servers (concat (map (\<lambda>s. config_line s @ [newline]) ss)) initial_coord
      = efold load_server (map config_line ss) initial_coord"
    by (simp add: load_servers_def)
  have "primary_message (full_id s) n =
      Inr (''+OK PRIMARY '' @ address s (sc_listen s) @ '' '' @ to_string (int n) @ crlf)" if "s \<in> set ss" for s
    using assms(1) that by (simp add: primary_message_def split_full_id at_def address_def)
  with efold_config_lines [OF assms, of initial_coord] load show ?thesis
    by (auto simp: initial_coord_def)
qed

definition sample_servers :: "server_config list" where
  "sample_servers =
     [\<lparr>sc_partition = 1, sc_ip = ''127.0.0.1'', sc_heartbeat = 8001, sc_comm = 8002, sc_listen = 8003, sc_last = ''8004''\<rparr>,
      \<lparr>sc_partition = 2, sc_ip = ''127.0.0.1'', sc_heartbeat = 8005, sc_comm = 8006, sc_listen = 8007, sc_last = ''8008''\<rparr>]"

theorem storage_file_loaded_witness:
  "\<exists>c. load_servers (concat (map (\<lambda>s. config_line s @ [newline]) sample_servers)) initial_coord = Inr c
     \<and> partition_count c = 2"
proof -
  have ok: "\<forall>s \<in> set sample_servers. config_ok s"
    by (simp add: sample_servers_def config_ok_def fits_int_def)
  have names: "distinct (concat (map addresses sample_servers))" "distinct (map full_id sample_servers)"
    by (simp_all add: sample_servers_def addresses_def address_def full_id_def)
  from storage_file_loaded [OF ok names, of 0] show ?thesis
  proof (elim exE conjE)
    fix c
    assume "load_servers (concat (map (\<lambda>s. config_line s @ [newline]) sample_servers)) initial_coord = Inr c"
      and "partition_count c = fold (\<lambda>s m. max m (sc_partition s)) sample_servers (-1)"
    moreover have "fold (\<lambda>s m. max m (sc_partition s)) sample_servers (-1) = 2" by (simp add: sample_servers_def)
    ultimately show ?thesis by (intro exI [of _ c]) (simp only: simp_thms)
  qed
qed

end
