(* ===== verification/Deployment.thy ===== *)
theory Deployment
  imports Backend_Client Coordinator
begin

text \<open>
  The parts put together as they run: a frontend that asks the coordinator for the server of a
  user and sends it commands, with one storage server in one partition. It provides the
  interface \<open>kv_backend\<close> of the web handlers.
\<close>

text \<open>One request on a new connection to the coordinator; \<open>rs\<close> are the next random numbers.\<close>

definition coordinator_service :: "nat list \<Rightarrow> int \<Rightarrow> string \<Rightarrow> coord \<Rightarrow> exn + (string \<times> coord)" where
  "coordinator_service rs fd line c =
     ebind (frontend_message fd (fst (do_read_backend crlf [Some line])) (c\<lparr>rands := rs\<rparr>)) (\<lambda>c'.
       case filter (\<lambda>(fd', s). fd' = fd) (drop (length (out c)) (out c')) of
         [] \<Rightarrow> Inl Diverges
       | (fd', s) # _ \<Rightarrow> Inr (fst (do_read crlf [s]), c'))"

definition deployed :: "nat list \<Rightarrow> (string \<Rightarrow> nat) \<Rightarrow> int \<Rightarrow> (coord \<times> node) service" where
  "deployed rs H new_fd addr line =
     (\<lambda>(c, n).
        if addr = coord_address then
          ebind (coordinator_service rs 20 line c) (\<lambda>(reply, c'). Inr (reply, (c', n)))
        else if addr = listen_address n then
          ebind (server_service H new_fd frontend line n) (\<lambda>(reply, n'). Inr (reply, (c, n')))
        else Inl Process_exit)"

text \<open>The coordinator knows the one server, which is alive, and the server serves alone.\<close>

definition deployed_inv :: "server_config \<Rightarrow> coord \<times> node \<Rightarrow> bool" where
  "deployed_inv sc =
     (\<lambda>(c, n).
        config_ok sc \<and> inet_pton_ok (sc_ip sc) \<and> 0 \<le> sc_listen sc \<and> sc_listen sc < 2 ^ 16 \<and>
        address sc (sc_listen sc) \<noteq> coord_address \<and>
        partition_count c = 1 \<and> alive_at c 1 = [full_id sc] \<and> paused_at c 1 = [] \<and>
        table_inv (address sc (sc_listen sc)) n)"

definition deployed_kv :: "coord \<times> node \<Rightarrow> store" where
  "deployed_kv = (\<lambda>(c, n). store_of n)"

section \<open>The coordinator's answer\<close>

lemma inet_pton_chars:
  assumes "inet_pton_ok ip"
  shows "CHR 0x0D \<notin> set ip" and "CHR 0x00 \<notin> set ip"
proof -
  have "\<forall>c \<in> set ip. isdigit c \<or> c = CHR ''.''"
    using assms by (simp add: inet_pton_ok_def list_all_iff)
  moreover have "\<not> isdigit CHR 0x0D" "\<not> isdigit CHR 0x00" by (simp_all add: isdigit_def)
  ultimately show "CHR 0x0D \<notin> set ip" "CHR 0x00 \<notin> set ip" by auto
qed

lemma get_partition_one: "email \<noteq> [] \<Longrightarrow> get_partition 1 email = 1"
  by (simp add: get_partition_def trunc_mod_def)

lemma helo_single:
  assumes sc: "config_ok sc" and c: "partition_count c = 1" "alive_at c 1 = [full_id sc]" "paused_at c 1 = []"
    and u: "CHR '' '' \<notin> set u" "u \<noteq> []" and rs: "rands c = r # rs"
  shows "frontend_message fd (''HELO passwd '' @ u) c =
    Inr (write_fd fd (''+OK '' @ address sc (sc_listen sc) @ crlf) (c\<lparr>rands := rs\<rparr>))"
proof -
  have "contains (''HELO passwd '' @ u) ''HELO passwd''"
    using str_find_prefix [of "''HELO passwd''" "'' '' @ u"] by (simp add: contains_def)
  moreover have "''HELO passwd '' @ u \<noteq> ''CLOSED''" "''HELO passwd '' @ u \<noteq> ''ERROR''" by simp_all
  ultimately have "frontend_message fd (''HELO passwd '' @ u) c = helo fd (''HELO passwd '' @ u) c"
    by (simp only: frontend_message_def if_True if_False simp_thms)
  moreover have "map_of (alive_servers c) 1 = Some [full_id sc]"
    using c(2) by (auto simp: alive_at_def set_at_def split: option.splits)
  then have "choose_random_server 1 c = Inr (full_id sc, c\<lparr>rands := rs\<rparr>)"
    by (simp add: choose_random_server_def c rs Let_def)
  moreover have "full_id sc \<noteq> []" by (simp add: full_id_def)
  ultimately show ?thesis
    unfolding helo_def helo_parts [OF u] at_two ebind_Inr c(1) get_partition_one [OF u(2)]
    by (simp add: split_full_id [OF sc] at_def address_def)
qed

lemma do_read_backend_line:
  assumes "CHR 0x0D \<notin> set l"
  shows "fst (do_read_backend crlf [Some (l @ crlf)]) = l"
  using assms by (simp add: do_read_backend_def contains_def)

lemma write_fd_frame [simp]:
  "partition_count (write_fd fd s c) = partition_count c" "alive_at (write_fd fd s c) = alive_at c"
  "paused_at (write_fd fd s c) = paused_at c" "out (write_fd fd s c) = out c @ [(fd, s)]"
  by (auto simp: write_fd_def alive_at_def paused_at_def)

lemma rands_frame [simp]: "alive_at (c\<lparr>rands := rs\<rparr>) = alive_at c" "paused_at (c\<lparr>rands := rs\<rparr>) = paused_at c"
  by (auto simp: alive_at_def paused_at_def)

lemma coordinator_helo:
  assumes "deployed_inv sc (c, n)" and "word u" and "rs \<noteq> []"
  shows "\<exists>c'. coordinator_service rs fd (''HELO passwd '' @ u @ crlf) c
      = Inr (''+OK '' @ address sc (sc_listen sc), c') \<and> deployed_inv sc (c', n)"
proof -
  obtain r rs' where rs: "rs = r # rs'" using assms(3) by (cases rs) auto
  have sc: "config_ok sc" and c: "partition_count (c\<lparr>rands := rs\<rparr>) = 1" "alive_at (c\<lparr>rands := rs\<rparr>) 1 = [full_id sc]"
      "paused_at (c\<lparr>rands := rs\<rparr>) 1 = []"
    using assms(1) by (simp_all add: deployed_inv_def)
  have u: "CHR '' '' \<notin> set u" "u \<noteq> []" using word_word_ok [OF assms(2)] by (simp_all add: word_ok_def)
  have "CHR 0x0D \<notin> set (''HELO passwd '' @ u)" using assms(2) by simp
  from do_read_backend_line [OF this]
  have read: "fst (do_read_backend crlf [Some (''HELO passwd '' @ u @ crlf)]) = ''HELO passwd '' @ u"
    by simp
  let ?a = "''+OK '' @ address sc (sc_listen sc)"
  have run: "frontend_message fd (''HELO passwd '' @ u) (c\<lparr>rands := rs\<rparr>) =
      Inr (write_fd fd (?a @ crlf) (c\<lparr>rands := rs'\<rparr>))"
    using helo_single [OF sc c u, of r rs' fd] rs by simp
  have "CHR 0x0D \<notin> set ?a" "CHR 0x00 \<notin> set ?a"
    using assms(1) inet_pton_chars [of "sc_ip sc"] by (auto simp: deployed_inv_def address_def)
  from do_read_one [OF this] have "fst (do_read crlf [?a @ crlf]) = ?a" .
  then have "coordinator_service rs fd (''HELO passwd '' @ u @ crlf) c
      = Inr (?a, write_fd fd (?a @ crlf) (c\<lparr>rands := rs'\<rparr>))"
    unfolding coordinator_service_def read run by simp
  moreover have "deployed_inv sc (write_fd fd (?a @ crlf) (c\<lparr>rands := rs'\<rparr>), n)"
    using assms(1) by (simp add: deployed_inv_def)
  ultimately show ?thesis by blast
qed

section \<open>The server's answers\<close>

lemma deployed_server:
  assumes "deployed_inv sc s"
    and "\<And>n. table_inv (address sc (sc_listen sc)) n \<Longrightarrow> store_of n = deployed_kv s \<Longrightarrow>
      yields (table_inv (address sc (sc_listen sc))) store_of (server_service H f frontend line n) r S"
  shows "yields (deployed_inv sc) deployed_kv (deployed rs H f (address sc (sc_listen sc)) line s) r S"
proof -
  obtain c n where s: "s = (c, n)" by (cases s)
  let ?a = "address sc (sc_listen sc)"
  have inv: "table_inv ?a n" "?a \<noteq> coord_address" "listen_address n = ?a"
    using assms(1) by (simp_all add: s deployed_inv_def table_inv_def)
  from assms(2) [OF inv(1)] obtain m
    where m: "server_service H f frontend line n = Inr (r, m)" "table_inv ?a m" "store_of m = S"
    by (auto simp: s deployed_kv_def elim: yieldsE)
  have "deployed rs H f ?a line s = Inr (r, (c, m))"
    using inv m(1) by (simp add: s deployed_def)
  moreover have "deployed_inv sc (c, m)"
    using assms(1) m(2) by (simp add: s deployed_inv_def)
  ultimately show ?thesis using m(3) by (simp add: deployed_kv_def)
qed

lemma deployed_coordinator:
  assumes "deployed_inv sc s" and "word u"
  shows "yields (deployed_inv sc) deployed_kv (deployed (r # rs) H f coord_address (''HELO passwd '' @ u @ crlf) s)
    (''+OK '' @ address sc (sc_listen sc)) (deployed_kv s)"
proof -
  obtain c n where s: "s = (c, n)" by (cases s)
  from coordinator_helo [of sc c n u "r # rs" 20] assms obtain c'
    where "coordinator_service (r # rs) 20 (''HELO passwd '' @ u @ crlf) c
        = Inr (''+OK '' @ address sc (sc_listen sc), c')" "deployed_inv sc (c', n)"
    by (auto simp: s)
  then show ?thesis by (simp add: s deployed_def deployed_kv_def)
qed

interpretation site: kv_backend "deployed (r # rs) H f (address sc (sc_listen sc))" deployed_kv "deployed_inv sc"
    "deployed (r # rs) H f coord_address" "address sc (sc_listen sc)"
  for r rs H f sc
proof unfold_locales
  fix s u k v
  assume inv: "deployed_inv sc s"
  then show "\<exists>ip port. address sc (sc_listen sc) = ip @ '':'' @ to_string port \<and>
      inet_pton_ok ip \<and> 0 \<le> port \<and> port < 2 ^ 16"
    by (auto simp: deployed_inv_def address_def config_ok_def)
  assume w: "word u"
  with inv show "yields (deployed_inv sc) deployed_kv
      (deployed (r # rs) H f coord_address (''HELO passwd '' @ u @ crlf) s)
      (''+OK '' @ address sc (sc_listen sc)) (deployed_kv s)"
    by (rule deployed_coordinator)
  assume k: "word k"
  let ?serve = "deployed (r # rs) H f (address sc (sc_listen sc))"
  show "yields (deployed_inv sc) deployed_kv (?serve (uk_line u k ''DELETE'') s)
      (if deployed_kv s (u, k) = None then not_found else ''+OK DELETE successful.'') ((deployed_kv s)((u, k) := None))"
    using lone.delete_law w k by (intro deployed_server [OF inv]) metis
  show "yields (deployed_inv sc) deployed_kv (?serve (uk_line u k ''GET'') s)
      (case deployed_kv s (u, k) of None \<Rightarrow> not_found | Some v \<Rightarrow> v) (deployed_kv s)" if "u \<noteq> ''passwd''"
    using lone.get_law w k that by (intro deployed_server [OF inv]) metis
  show "yields (deployed_inv sc) deployed_kv (?serve (ukv_line u k v ''PUT'') s)
      ''+OK PUT SUCCESSFUL.'' ((deployed_kv s)((u, k) \<mapsto> v))" if "val_ok v"
    using lone.put_law w k that by (intro deployed_server [OF inv]) metis
qed

end
