(* ===== verification/Encodings.thy ===== *)
theory Encodings
  imports Cpp_String "HOL-Library.Word"
begin

unbundle bit_operations_syntax

text \<open>
  The byte encodings of \<open>frontend/src/stringutils.cc\<close>: files and mails are stored in the
  backend as strings of the characters 0 and 1 (\<open>stobs\<close>), turned back into bytes on the way
  out (\<open>bstoby\<close>), and sent to the browser in Base64 (\<open>bytob64\<close>).
\<close>

type_synonym byte = "8 word"

section \<open>Definitions\<close>

definition bits8 :: "byte \<Rightarrow> string" where
  "bits8 b = map (\<lambda>i. if bit b i then CHR ''1'' else CHR ''0'') [7, 6, 5, 4, 3, 2, 1, 0]"

definition stobs :: "string \<Rightarrow> string" where
  "stobs file_data = concat (map (\<lambda>c. bits8 (of_char c)) file_data)"

text \<open>
  \<open>std::bitset<8>(byte_str)\<close> raises \<open>invalid_argument\<close> at a character that is not 0 or 1; a
  string shorter than 8 fills the low bits.
\<close>

definition bitset8 :: "string \<Rightarrow> exn + byte" where
  "bitset8 s =
     (if list_all (\<lambda>c. c = CHR ''0'' \<or> c = CHR ''1'') s
      then Inr (foldl (\<lambda>a c. 2 * a + (if c = CHR ''1'' then 1 else 0)) 0 s)
      else Inl Invalid_argument)"

function bstoby :: "string \<Rightarrow> exn + byte list" where
  "bstoby s =
     (if s = [] then Inr []
      else ebind (bitset8 (take 8 s)) (\<lambda>b. ebind (bstoby (drop 8 s)) (\<lambda>bs. Inr (b # bs))))"
  by pat_completeness auto
termination
  by (relation "measure length") auto

declare bstoby.simps [simp del]

definition BASE64_CHARS :: string where
  "BASE64_CHARS = ''ABCDEFGHIJKLMNOPQRSTUVWXYZabcdefghijklmnopqrstuvwxyz0123456789+/''"

text \<open>Three bytes as one 24-bit chunk; a missing byte contributes 0.\<close>

definition triple :: "byte \<Rightarrow> byte \<Rightarrow> byte \<Rightarrow> 32 word" where
  "triple a b c = (push_bit 16 (ucast a) AND 0xFFFFFF) + push_bit 8 (ucast b) + ucast c"

definition b64_char :: "32 word \<Rightarrow> char" where
  "b64_char w = BASE64_CHARS ! unat (w AND 0x3F)"

fun bytob64 :: "byte list \<Rightarrow> string" where
  "bytob64 [] = []"
| "bytob64 [a] =
     [b64_char (drop_bit 18 (triple a 0 0)), b64_char (drop_bit 12 (triple a 0 0)), CHR ''='', CHR ''='']"
| "bytob64 [a, b] =
     [b64_char (drop_bit 18 (triple a b 0)), b64_char (drop_bit 12 (triple a b 0)),
      b64_char (drop_bit 6 (triple a b 0)), CHR ''='']"
| "bytob64 (a # b # c # rest) =
     [b64_char (drop_bit 18 (triple a b c)), b64_char (drop_bit 12 (triple a b c)),
      b64_char (drop_bit 6 (triple a b c)), b64_char (triple a b c)] @ bytob64 rest"

section \<open>Reference decoder\<close>

text \<open>
  RFC 4648 decoding, written from the standard and not from the code: each character is a
  6-bit value, four of them are three bytes, and \<open>=\<close> pads the last group.
\<close>

definition b64_value :: "char \<Rightarrow> nat option" where
  "b64_value ch =
     (let n = (of_char ch :: nat)
      in if 65 \<le> n \<and> n \<le> 90 then Some (n - 65)
         else if 97 \<le> n \<and> n \<le> 122 then Some (n - 71)
         else if 48 \<le> n \<and> n \<le> 57 then Some (n + 4)
         else if n = 43 then Some 62
         else if n = 47 then Some 63
         else None)"

fun b64_decode :: "string \<Rightarrow> nat list option" where
  "b64_decode [] = Some []"
| "b64_decode (p # q # r # s # rest) =
     (case (b64_value p, b64_value q) of
        (Some x, Some y) \<Rightarrow>
          (if r = CHR ''='' \<and> s = CHR ''='' \<and> rest = [] then Some [x * 4 + y div 16]
           else (case b64_value r of
                   None \<Rightarrow> None
                 | Some z \<Rightarrow>
                     (if s = CHR ''='' \<and> rest = []
                      then Some [x * 4 + y div 16, (y mod 16) * 16 + z div 4]
                      else (case (b64_value s, b64_decode rest) of
                              (Some w, Some bs) \<Rightarrow>
                                Some ((x * 4 + y div 16) # ((y mod 16) * 16 + z div 4) # ((z mod 4) * 64 + w) # bs)
                            | _ \<Rightarrow> None))))
      | _ \<Rightarrow> None)"
| "b64_decode _ = None"

section \<open>Binary strings\<close>

lemma length_bits8 [simp]: "length (bits8 b) = 8"
  by (simp add: bits8_def)

lemma bits8_binary: "list_all (\<lambda>c. c = CHR ''0'' \<or> c = CHR ''1'') (bits8 b)"
  by (simp add: bits8_def)

lemma foldl_horner:
  fixes f :: "'a \<Rightarrow> 'b::comm_semiring_1"
  shows "foldl (\<lambda>a c. 2 * a + f c) 0 (rev xs) = horner_sum f 2 xs"
  by (induction xs) (simp_all add: ac_simps)

lemma horner_sum_map_comp: "horner_sum f a (map g xs) = horner_sum (f \<circ> g) a xs"
  by (induction xs) simp_all

lemma bits8_rev: "bits8 b = rev (map (\<lambda>i. if bit b i then CHR ''1'' else CHR ''0'') [0..<8])"
proof -
  have "[7, 6, 5, 4, 3, 2, 1, 0] = rev [0..<8]" by code_simp
  then show ?thesis by (simp only: bits8_def rev_map)
qed

lemma foldl_bits8: "foldl (\<lambda>a c. 2 * a + (if c = CHR ''1'' then 1 else 0)) 0 (bits8 b) = b"
proof -
  have bits: "(\<lambda>i. if (if bit b i then CHR ''1'' else CHR ''0'') = CHR ''1'' then 1 else 0) =
      (\<lambda>i. of_bool (bit b i) :: byte)"
    by auto
  have "foldl (\<lambda>a c. 2 * a + (if c = CHR ''1'' then 1 else 0)) (0 :: byte) (bits8 b) =
      horner_sum (\<lambda>i. of_bool (bit b i)) 2 [0..<8]"
    unfolding bits8_rev foldl_horner horner_sum_map_comp comp_def bits ..
  also have "\<dots> = take_bit 8 b"
    using horner_sum_bit_eq_take_bit [of b 8] by (simp add: horner_sum_map_comp comp_def)
  also have "\<dots> = b"
    by (simp add: take_bit_word_eq_self)
  finally show ?thesis .
qed

lemma bitset8_bits8 [simp]: "bitset8 (bits8 b) = Inr b"
  by (simp add: bitset8_def bits8_binary foldl_bits8)

lemma bstoby_Nil [simp]: "bstoby [] = Inr []"
  by (simp add: bstoby.simps)

lemma bstoby_bits8 [simp]: "bstoby (bits8 b @ s) = ebind (bstoby s) (\<lambda>bs. Inr (b # bs))"
proof -
  have "bits8 b @ s \<noteq> []" using length_bits8 [of b] by (metis Nil_is_append_conv length_0_conv zero_neq_numeral)
  then show ?thesis by (subst bstoby.simps) simp
qed

lemma stobs_Cons: "stobs (c # s) = bits8 (of_char c) @ stobs s"
  by (simp add: stobs_def)

lemma stobs_Nil [simp]: "stobs [] = []"
  by (simp add: stobs_def)

lemma bstoby_stobs_bytes: "bstoby (stobs s) = Inr (map of_char s)"
  by (induction s) (simp_all add: stobs_Cons)

lemma byte_of_char: "unat (of_char c :: byte) = of_char c"
proof -
  have "unat (of_nat (of_char c) :: byte) = of_char c" by (simp add: unat_of_nat)
  then show ?thesis by (simp add: of_nat_of_char)
qed

lemma stobs_binary: "c \<in> set (stobs s) \<Longrightarrow> c = CHR ''0'' \<or> c = CHR ''1''"
  using bits8_binary by (fastforce simp: stobs_def list_all_iff)

lemma length_stobs: "length (stobs s) = 8 * length s"
  by (induction s) (simp_all add: stobs_Cons)

lemma bitset8_not_binary:
  "\<exists>c \<in> set s. c \<noteq> CHR ''0'' \<and> c \<noteq> CHR ''1'' \<Longrightarrow> bitset8 s = Inl Invalid_argument"
  by (auto simp: bitset8_def list_all_iff)

section \<open>Base64\<close>

lemma length_BASE64_CHARS [simp]: "length BASE64_CHARS = 64"
  by (simp add: BASE64_CHARS_def)

lemma b64_values: "map b64_value BASE64_CHARS = map Some (map nat [0..63])"
  by (simp add: b64_value_def BASE64_CHARS_def upto_rec1)

lemma b64_value_nth: "k < 64 \<Longrightarrow> b64_value (BASE64_CHARS ! k) = Some k"
  using arg_cong [OF b64_values, of "\<lambda>xs. xs ! k"] by simp

lemma unat_and_63: "unat ((w :: 32 word) AND 0x3F) = unat w mod 64"
proof -
  have "w AND 0x3F = take_bit 6 w"
    by (simp add: take_bit_eq_mask mask_numeral)
  then have "unat (w AND 0x3F) = take_bit 6 (unat w)"
    by (simp only: unsigned_take_bit_eq)
  then show ?thesis by (simp add: take_bit_eq_mod)
qed

lemma b64_value_char: "b64_value (b64_char w) = Some (unat w mod 64)"
  by (simp add: b64_char_def unat_and_63 b64_value_nth)

lemma b64_char_neq_pad: "b64_char w \<noteq> CHR ''=''"
proof
  assume "b64_char w = CHR ''=''"
  then have "b64_value (CHR ''='') = Some (unat w mod 64)" using b64_value_char [of w] by simp
  then show False by (simp add: b64_value_def)
qed

lemma unat_byte_less: "unat (b :: byte) < 256"
  using unsigned_less [where 'a = nat, of b] by simp

lemma unat_push_byte: "n \<le> 24 \<Longrightarrow> unat (push_bit n (ucast (b :: byte)) :: 32 word) = unat b * 2 ^ n"
proof -
  assume "n \<le> 24"
  then have "unat b * 2 ^ n < 2 ^ 8 * 2 ^ 24"
    using unat_byte_less [of b] power_increasing [of n 24 "2 :: nat"]
    by (intro mult_less_le_imp_less) simp_all
  then show ?thesis
    by (simp only: unsigned_push_bit_eq) (simp add: unsigned_ucast_eq push_bit_eq_mult take_bit_nat_eq_self unat_byte_less
      less_trans [OF unat_byte_less])
qed

lemma unat_triple: "unat (triple a b c) = unat a * 65536 + unat b * 256 + unat c"
proof -
  note bounds = unat_byte_less [of a] unat_byte_less [of b] unat_byte_less [of c]
  have hi: "unat (push_bit 16 (ucast a :: 32 word)) = unat a * 65536"
    using unat_push_byte [of 16 a] by simp
  have mi: "unat (push_bit 8 (ucast b :: 32 word)) = unat b * 256"
    using unat_push_byte [of 8 b] by simp
  have lo: "unat (ucast c :: 32 word) = unat c"
    using unat_push_byte [of 0 c] by simp
  have "push_bit 16 (ucast a :: 32 word) AND 0xFFFFFF = take_bit 24 (push_bit 16 (ucast a))"
    by (simp add: take_bit_eq_mask mask_numeral)
  then have "unat (push_bit 16 (ucast a :: 32 word) AND 0xFFFFFF) = unat a * 65536"
    using bounds by (simp add: unsigned_take_bit_eq hi take_bit_nat_eq_self del: push_bit_numeral)
  then show ?thesis
    using bounds by (simp add: triple_def unat_word_ariths mi lo)
qed

lemma div_parts:
  fixes a b c :: nat
  assumes "a < 256" "b < 256" "c < 256"
  defines "t \<equiv> a * 65536 + b * 256 + c"
  shows "t div 262144 mod 64 = a div 4"
    and "t div 4096 mod 64 = (a mod 4) * 16 + b div 16"
    and "t div 64 mod 64 = (b mod 16) * 4 + c div 64"
    and "t mod 64 = c mod 64"
proof -
  obtain m n where a: "a = 4 * m + n" "n < 4" by (metis mod_less_divisor mult_div_mod_eq zero_less_numeral)
  obtain q r where b: "b = 16 * q + r" "r < 16" by (metis mod_less_divisor mult_div_mod_eq zero_less_numeral)
  obtain p s where c: "c = 64 * p + s" "s < 64" by (metis mod_less_divisor mult_div_mod_eq zero_less_numeral)
  have bnd: "m < 64" "q < 16" "p < 4" using assms a b c by simp_all
  have t: "t = 262144 * m + 65536 * n + 4096 * q + 256 * r + 64 * p + s"
    by (simp add: t_def a b c)
  have mod64: "y < 64 \<Longrightarrow> (64 * x + y) mod 64 = y" for x y :: nat by simp
  have d1: "t div 262144 = 64 * 0 + m" using t bnd a b c by simp
  have d2: "t div 4096 = 64 * m + (16 * n + q)" using t bnd a b c by simp
  have d3: "t div 64 = 64 * (64 * m + 16 * n + q) + (4 * r + p)" using t bnd a b c by simp
  have d4: "t = 64 * (4096 * m + 1024 * n + 64 * q + 4 * r + p) + s" using t by simp
  show "t div 262144 mod 64 = a div 4"
    unfolding d1 by (subst mod64) (use bnd a in simp_all)
  show "t div 4096 mod 64 = (a mod 4) * 16 + b div 16"
    unfolding d2 by (subst mod64) (use bnd a b in simp_all)
  show "t div 64 mod 64 = (b mod 16) * 4 + c div 64"
    unfolding d3 by (subst mod64) (use bnd b c in simp_all)
  show "t mod 64 = c mod 64"
    unfolding d4 by (subst mod64) (use c in simp_all)
qed

lemma unat_drop_bit: "unat (drop_bit n (w :: 32 word)) = unat w div 2 ^ n"
  by (simp only: unat_drop_bit_eq drop_bit_eq_div [where 'a = nat])

lemma b64_char_values:
  assumes "t = triple a b c"
  shows "b64_value (b64_char (drop_bit 18 t)) = Some (unat a div 4)"
    and "b64_value (b64_char (drop_bit 12 t)) = Some ((unat a mod 4) * 16 + unat b div 16)"
    and "b64_value (b64_char (drop_bit 6 t)) = Some ((unat b mod 16) * 4 + unat c div 64)"
    and "b64_value (b64_char t) = Some (unat c mod 64)"
proof -
  have pow: "(2 :: nat) ^ 18 = 262144" "(2 :: nat) ^ 12 = 4096" "(2 :: nat) ^ 6 = 64"
    by simp_all
  show "b64_value (b64_char (drop_bit 18 t)) = Some (unat a div 4)"
    and "b64_value (b64_char (drop_bit 12 t)) = Some ((unat a mod 4) * 16 + unat b div 16)"
    and "b64_value (b64_char (drop_bit 6 t)) = Some ((unat b mod 16) * 4 + unat c div 64)"
    and "b64_value (b64_char t) = Some (unat c mod 64)"
    unfolding b64_value_char assms unat_drop_bit unat_triple pow
      div_parts [OF unat_byte_less unat_byte_less unat_byte_less] by (rule refl)+
qed

lemma byte_parts:
  fixes a b c :: nat
  assumes "a < 256" "b < 256" "c < 256"
  shows "(a div 4) * 4 + ((a mod 4) * 16 + b div 16) div 16 = a"
    and "(((a mod 4) * 16 + b div 16) mod 16) * 16 + ((b mod 16) * 4 + c div 64) div 4 = b"
    and "(((b mod 16) * 4 + c div 64) mod 4) * 64 + c mod 64 = c"
proof -
  have "b div 16 < 16" "c div 64 < 4" using assms by simp_all
  then show "(a div 4) * 4 + ((a mod 4) * 16 + b div 16) div 16 = a"
    and "(((a mod 4) * 16 + b div 16) mod 16) * 16 + ((b mod 16) * 4 + c div 64) div 4 = b"
    and "(((b mod 16) * 4 + c div 64) mod 4) * 64 + c mod 64 = c"
    by simp_all
qed

lemma b64_decode_bytob64: "b64_decode (bytob64 bs) = Some (map unat bs)"
proof (induction bs rule: bytob64.induct)
  case (2 a)
  show ?case
    using byte_parts(1) [OF unat_byte_less unat_byte_less unat_byte_less, of a 0]
    by (simp add: b64_char_values [OF refl])
next
  case (3 a b)
  show ?case
    using byte_parts(1) [OF unat_byte_less unat_byte_less unat_byte_less, of a b]
      byte_parts(2) [OF unat_byte_less unat_byte_less unat_byte_less, of a b 0]
    by (simp add: b64_char_values [OF refl] b64_char_neq_pad)
next
  case (4 a b c rest)
  show ?case
    using byte_parts(1) [OF unat_byte_less unat_byte_less unat_byte_less, of a b]
      byte_parts(2) [OF unat_byte_less unat_byte_less unat_byte_less, of a b c]
      byte_parts(3) [OF unat_byte_less unat_byte_less unat_byte_less, of b c]
    by (simp add: b64_char_values [OF refl] b64_char_neq_pad 4)
qed simp

lemma length_bytob64: "length (bytob64 bs) = 4 * ((length bs + 2) div 3)"
proof (induction bs rule: bytob64.induct)
  case (4 a b c rest)
  have "(length (a # b # c # rest) + 2) div 3 = Suc ((length rest + 2) div 3)" by simp
  with 4 show ?case by simp
qed simp_all

lemma b64_char_in: "b64_char w \<in> set BASE64_CHARS"
  by (simp add: b64_char_def unat_and_63)

lemma bytob64_alphabet: "ch \<in> set (bytob64 bs) \<Longrightarrow> ch \<in> set BASE64_CHARS \<or> ch = CHR ''=''"
  by (induction bs rule: bytob64.induct) (auto simp: b64_char_in)

end
