(* ===== verification/Http.thy ===== *)
theory Http
  imports Backend_Client Encodings
begin

text \<open>
  What every handler of the web frontend (\<open>frontend/src/http.cc\<close>) uses: the environment of a
  frontend process, reading a request, the responses, the session of a user and the connection
  to the user's storage server. A request's data is the association list of its parameters; a
  parameter that is read before it is set is the empty string (\<open>dat\<close>).
\<close>

section \<open>The environment\<close>

text \<open>
  What a handler calls outside the code: the services it connects to, the hash functions of
  OpenSSL (the bytes of \<open>sha256\<close>, and those of \<open>md5\<close> by their index), the files under the templates directory, the generator of the
  cookie, the mail exchangers of a domain and the clock (\<open>ctime\<close> and \<open>time\<close>).
\<close>

record 's env =
  call :: "'s service"
  bcoord :: string
  flb :: string
  sha256 :: "string \<Rightarrow> nat list"
  md5 :: "string \<Rightarrow> nat \<Rightarrow> nat"
  src_dir :: string
  file_content :: "string \<Rightarrow> string option"
  mt :: "nat \<Rightarrow> nat"
  smtp_connect :: "string \<Rightarrow> string option"
  mx_records :: "string \<Rightarrow> (int \<times> string) list option"
  ctime :: string
  unix_time :: int

definition hex2 :: "nat \<Rightarrow> string" where
  "hex2 b = [''0123456789abcdef'' ! (b div 16 mod 16), ''0123456789abcdef'' ! (b mod 16)]"

definition hash :: "'s env \<Rightarrow> string \<Rightarrow> string" where
  "hash E input = concat (map hex2 (take 32 (sha256 E input)))"

text \<open>
  The terminating zero byte of the last \<open>sprintf\<close> lands one byte past the array; the model goes on
  as the compiled code does.
\<close>

definition compute_hash_16 :: "'s env \<Rightarrow> string \<Rightarrow> nat \<Rightarrow> string" where
  "compute_hash_16 E data len = concat (map (\<lambda>p. hex2 (md5 E (take len data) p)) [0..<16])"

definition slurp :: "'s env \<Rightarrow> string \<Rightarrow> string" where
  "slurp E path = (case file_content E path of None \<Rightarrow> [] | Some out \<Rightarrow> out)"

section \<open>Requests\<close>

definition cut_at :: "char \<Rightarrow> string \<Rightarrow> string \<times> string" where
  "cut_at d s = (takeWhile (\<lambda>c. c \<noteq> d) s, drop 1 (dropWhile (\<lambda>c. c \<noteq> d) s))"

text \<open>Every line after the first is a header, the lines of the body too.\<close>

definition header_line :: "string \<Rightarrow> params \<Rightarrow> params" where
  "header_line line m =
     (case cut_at CHR '':'' line of (key, val) \<Rightarrow>
        if strip key = [] then m else map_put (strip key) (strip val) m)"

definition get_client_params :: "string \<Rightarrow> params" where
  "get_client_params request =
     (case cut_at CHR '' '' request of (meth, s1) \<Rightarrow>
      case cut_at CHR '' '' s1 of (path, s2) \<Rightarrow>
      case cut_at CHR 0x0A s2 of (vno, s3) \<Rightarrow>
        fold header_line (split s3 CHR 0x0A)
          (map_put ''vno'' (strip vno) (map_put ''path'' (strip path) (map_put ''method'' (strip meth) []))))"

text \<open>\<open>buf.find(CRLFCRLF, 0) + 4\<close>: without an empty line the body starts at 3.\<close>

definition body_start :: "string \<Rightarrow> nat" where
  "body_start buf = (case str_find buf (crlf @ crlf) of None \<Rightarrow> 3 | Some i \<Rightarrow> i + 4)"

definition body_of :: "string \<Rightarrow> params \<Rightarrow> exn + string" where
  "body_of buf data =
     ebind (stoi (dat data ''Content-Length'')) (\<lambda>n.
       substr buf (body_start buf) (if n < 0 then length buf else nat n))"

text \<open>Unsigned 64-bit arithmetic.\<close>

definition is_full_body :: "string \<Rightarrow> params \<Rightarrow> exn + bool" where
  "is_full_body buf data =
     ebind (stoi (dat data ''Content-Length'')) (\<lambda>n.
       Inr ((nat (n mod 2 ^ 64) + body_start buf) mod 2 ^ 64 \<le> length buf))"

definition path_only :: "string \<Rightarrow> exn + string" where
  "path_only path = (case split path CHR ''?'' of [] \<Rightarrow> Inl Undefined_behaviour | p # _ \<Rightarrow> Inr p)"

section \<open>Responses\<close>

definition status_text :: "int \<Rightarrow> string" where
  "status_text code =
     (if code = 200 then ''OK''
      else if code = 204 then ''No Content''
      else if code = 400 then ''Bad Request''
      else if code = 404 then ''Not Found''
      else if code = 500 then ''Internal Server Error''
      else if code = 409 then ''Conflict''
      else ''Unknown Status'')"

text \<open>Without a host the whole server exits.\<close>

definition create_http_response :: "int \<Rightarrow> string \<Rightarrow> string \<Rightarrow> exn + string" where
  "create_http_response code body host =
     (if host = [] then Inl Process_exit
      else Inr (''HTTP/1.1 '' @ to_string code @ '' '' @ status_text code @ crlf @
        ''Content-Type: text/plain'' @ crlf @
        ''Access-Control-Allow-Origin: '' @ host @ crlf @
        ''Access-Control-Allow-Methods: DELETE, POST, HEAD, GET, OPTIONS'' @ crlf @
        ''Access-Control-Allow-Headers: content-type, x-file-name, x-file-path, cookie'' @ crlf @
        ''Access-Control-Allow-Credentials: true'' @ crlf @
        ''Content-Length: '' @ to_string (int (length body)) @ crlf @ crlf @ body))"

definition empty_page :: string where
  "empty_page = ''Content-Type: text/html; charset=UTF-8'' @ crlf @ ''Content-Length: 0''"

definition login_failure :: "string \<Rightarrow> string" where
  "login_failure vno =
     vno @ '' 303 See Other'' @ crlf @ ''Location: /?success=1&login_failure=true'' @ crlf @ empty_page"

definition ADMIN_PASSWD :: string where
  "ADMIN_PASSWD = ''cis5050''"

definition redirect_admin :: "string \<Rightarrow> string" where
  "redirect_admin vno =
     vno @ '' 303 See Other'' @ crlf @ ''Location: /admin?password='' @ ADMIN_PASSWD @ crlf @ empty_page"

definition logout :: "string \<Rightarrow> string" where
  "logout vno =
     vno @ '' 303 See Other'' @ crlf @ ''Location: /'' @ crlf @
     ''Set-Cookie: uuid=uuid; Max-Age=-1'' @ crlf @
     ''Set-Cookie: cookie=cookie; Max-Age=-1'' @ crlf @
     ''Set-Cookie: name=User; Max-Age=-1'' @ crlf @ empty_page"

text \<open>\<open>params["success"]\<close> inserts an empty entry when there is none.\<close>

definition post_redirect :: "string \<Rightarrow> params \<Rightarrow> exn + string" where
  "post_redirect path params =
     (if map_of params ''login_failure'' = Some ''true'' then Inr ''/?success=2''
      else
        let asked = (path = ''/login'' \<or> path = ''/changepassword'');
            params' = (if asked \<and> map_of params ''success'' = None then map_put ''success'' [] params else params);
            success = dat params' ''success'';
            redirect =
              (if path = ''/signup'' then ''/''
               else if path = ''/'' then ''/home''
               else if path = ''/login'' then
                 (if success = ''0'' then ''/home'' else if success = ''1'' then ''/'' else [])
               else if path = ''/changepassword'' then (if success = ''3'' then ''/'' else ''/changepassword'')
               else [])
        in ebind (params_to_url params') (\<lambda>url. Inr (redirect @ url)))"

section \<open>Sessions\<close>

definition cookie_params :: "string \<Rightarrow> params" where
  "cookie_params cookie =
     fold (\<lambda>c m. case split c CHR ''='' of [k, v] \<Rightarrow> map_put (strip k) (strip v) m | _ \<Rightarrow> m)
       (split cookie CHR '';'') []"

definition auth_user :: "'s env \<Rightarrow> params \<Rightarrow> 's \<Rightarrow> exn + (string \<times> 's)" where
  "auth_user E data s =
     (case map_of data ''Cookie'' of
        None \<Rightarrow> Inr ([], s)
      | Some header \<Rightarrow>
          let params = cookie_params header in
          case (map_of params ''cookie'', map_of params ''uuid'') of
            (Some cookie, Some uuid) \<Rightarrow>
              ebind (bend_connect (call E) (bcoord E) uuid s) (\<lambda>(bend, s1).
                if bend = None then Inr ([], s1)
                else ebind (bend_GET (call E) bend uuid ''cookie'' s1) (\<lambda>(stored, s2).
                       Inr (if cookie = stored then uuid else [], s2)))
          | _ \<Rightarrow> Inr ([], s))"

text \<open>\<open>None\<close> is the descriptor -1.\<close>

definition get_table_fd :: "'s env \<Rightarrow> string \<Rightarrow> 's \<Rightarrow> exn + (string option \<times> 's)" where
  "get_table_fd E user s =
     ebind (call E coord_address (''HELO passwd '' @ user @ crlf) s) (\<lambda>(coor_message, s1).
       if coor_message = ''-ERR No available servers'' then Inr (None, s1)
       else ebind (substr coor_message 4 (length coor_message - 4)) (\<lambda>a. Inr (create_connect_socket a, s1)))"

text \<open>\<open>status.rfind(OK) == 0\<close>: the last occurrence is at the start.\<close>

definition only_at_start :: "string \<Rightarrow> string \<Rightarrow> bool" where
  "only_at_start s p = (str_rfind s p = Some 0)"

section \<open>A frontend and the service behind it\<close>

text \<open>
  The environment of a frontend whose coordinator and storage server keep the laws of
  \<open>kv_backend\<close>: every connection a handler makes is to the server at \<open>a\<close>.
\<close>

locale web_site = kv_backend "call E a" kv inv "call E (bcoord E)" a
  for E :: "'s env" and kv :: "'s \<Rightarrow> store" and inv :: "'s \<Rightarrow> bool" and a :: string +
  assumes coord_law: "bcoord E = coord_address"
begin

lemma address_parts:
  assumes "inv s"
  obtains ip port where "a = ip @ CHR '':'' # to_string port" and "inet_pton_ok ip" and "0 \<le> port" and "port < 2 ^ 16"
    and "\<forall>c \<in> set ip. isdigit c \<or> c = CHR ''.''"
proof -
  from addr_law [OF assms] obtain ip port where "a = ip @ '':'' @ to_string port" "inet_pton_ok ip"
    "0 \<le> port" "port < 2 ^ 16" by blast
  with that show thesis by (auto simp: inet_pton_ok_def list_all_iff)
qed

lemma table_socket:
  assumes "inv s"
  shows "create_connect_socket a = Some a"
proof -
  obtain ip port where a: "a = ip @ CHR '':'' # to_string port" and ok: "inet_pton_ok ip" "0 \<le> port" "port < 2 ^ 16"
    and ip: "\<forall>c \<in> set ip. isdigit c \<or> c = CHR ''.''" by (rule address_parts [OF assms])
  have "str_rfind a '':'' = Some (length ip)" by (simp add: a)
  moreover have "atoi (to_string port) = port"
    using ok by (intro atoi_to_string) simp_all
  ultimately have "IP_port a = (ip, port)"
    by (simp add: IP_port_def a substr_after_def)
  then show ?thesis using ok by (simp add: create_connect_socket_def a)
qed

lemma get_table_fd_ok:
  assumes "inv s" and "word u"
  shows "yields inv kv (get_table_fd E u s) (Some a) (kv s)"
  unfolding get_table_fd_def coord_law [symmetric]
proof (rule yields_bind [OF helo_law [OF assms]])
  fix s' assume "inv s'" "kv s' = kv s"
  then show "yields inv kv (case (''+OK '' @ a, s') of (coor_message, s1) \<Rightarrow>
      if coor_message = ''-ERR No available servers'' then Inr (None, s1)
      else ebind (substr coor_message 4 (length coor_message - 4)) (\<lambda>a. Inr (create_connect_socket a, s1)))
    (Some a) (kv s)"
    by (simp add: substr_def table_socket)
qed

lemma strip_address:
  assumes "inv s"
  shows "strip a = a"
proof -
  obtain ip port where a: "a = ip @ CHR '':'' # to_string port" and ok: "inet_pton_ok ip" "0 \<le> port" "port < 2 ^ 16"
    and ip: "\<forall>c \<in> set ip. isdigit c \<or> c = CHR ''.''" by (rule address_parts [OF assms])
  have "\<not> isspace c" if "c \<in> set a" for c
  proof -
    from that consider "isdigit c" | "c = CHR ''.''" | "c = CHR '':''" | "c = CHR ''-''"
      using ip to_string_chars by (auto simp: a)
    then show ?thesis by cases (simp add: isdigit_not_isspace, simp_all add: isspace_def)
  qed
  then show ?thesis by (simp add: strip_def)
qed

lemma bend_connect_ok:
  assumes "inv s" and "word u"
  shows "yields inv kv (bend_connect (call E) (bcoord E) u s) (Some a) (kv s)"
  unfolding bend_connect_def greet_bend_def
proof (rule yields_bind [OF helo_law [OF assms]])
  fix s' assume s': "inv s'" "kv s' = kv s"
  obtain ip port where a: "a = ip @ CHR '':'' # to_string port" and ok: "inet_pton_ok ip" "0 \<le> port" "port < 2 ^ 16"
    and ip: "\<forall>c \<in> set ip. isdigit c \<or> c = CHR ''.''" by (rule address_parts [OF assms(1)])
  have "\<not> isdigit CHR '':''" by (simp add: isdigit_def)
  then have "CHR '':'' \<notin> set ip" using ip by auto
  then have "str_find a '':'' = Some (length ip)" by (simp add: a)
  moreover have "stoi (to_string port) = Inr port" using ok by (intro stoi_to_string) simp_all
  moreover have "strip (''+OK '' @ a) = ''+OK'' @ a"
    using strip_address [OF assms(1)] by (simp add: strip_def isspace_def)
  ultimately show "yields inv kv (case (''+OK '' @ a, s') of (reply0, s') \<Rightarrow>
      let reply = strip reply0 in
      if \<not> starts_with reply ''+OK'' then Inr (None, s')
      else let addr = strip (drop 3 reply) in
        case str_find addr '':'' of
          None \<Rightarrow> Inl Process_exit
        | Some i \<Rightarrow> ebind (stoi (drop (i + 1) addr))
            (\<lambda>port. Inr (Some (take i addr @ '':'' @ to_string (port mod 2 ^ 16)), s')))
    (Some a) (kv s)"
    using s' ok strip_address [OF assms(1)] by (simp add: starts_with_def Let_def) (simp add: a)
qed

lemma GET_ok:
  assumes "inv s" and "word u" and "word k" and "u \<noteq> ''passwd''"
  shows "yields inv kv (bend_GET (call E) (Some a) u k s) (case kv s (u, k) of None \<Rightarrow> not_found | Some v \<Rightarrow> v) (kv s)"
  using get_law [OF assms] by (simp add: bend_GET_def bend_uk_def)

lemma PUT_ok:
  assumes "inv s" and "word u" and "word k" and "val_ok v"
  shows "yields inv kv (bend_PUT (call E) (Some a) u k v s) ''+OK PUT SUCCESSFUL.'' ((kv s)((u, k) \<mapsto> v))"
  using put_law [OF assms] by (simp add: bend_PUT_def bend_ukv_def)

lemma DELETE_ok:
  assumes "inv s" and "word u" and "word k"
  shows "yields inv kv (bend_DELETE (call E) (Some a) u k s)
    (if kv s (u, k) = None then not_found else ''+OK DELETE successful.'') ((kv s)((u, k) := None))"
  using delete_law [OF assms] by (simp add: bend_DELETE_def bend_uk_def)

text \<open>A request with the cookies of a stored session is that user's, and of no one otherwise.\<close>

lemma auth_user_ok:
  assumes "inv s" and "map_of data ''Cookie'' = Some header"
    and "map_of (cookie_params header) ''cookie'' = Some c" and "map_of (cookie_params header) ''uuid'' = Some u"
    and "word u" and "u \<noteq> ''passwd''"
  shows "yields inv kv (auth_user E data s)
    (if c = (case kv s (u, ''cookie'') of None \<Rightarrow> not_found | Some v \<Rightarrow> v) then u else []) (kv s)"
proof -
  have k: "word ''cookie''" by (simp add: word_def clean_text_def isspace_def starts_with_def contains_def str_find_def)
  let ?v = "case kv s (u, ''cookie'') of None \<Rightarrow> not_found | Some v \<Rightarrow> v"
  have "yields inv kv (ebind (bend_connect (call E) (bcoord E) u s) (\<lambda>(bend, s1).
      if bend = None then Inr ([], s1)
      else ebind (bend_GET (call E) bend u ''cookie'' s1) (\<lambda>(stored, s2). Inr (if c = stored then u else [], s2))))
    (if c = ?v then u else []) (kv s)"
  proof (rule yields_bind [OF bend_connect_ok [OF assms(1,5)]])
    fix s1 assume s1: "inv s1" "kv s1 = kv s"
    have "yields inv kv (ebind (bend_GET (call E) (Some a) u ''cookie'' s1)
        (\<lambda>(stored, s2). Inr (if c = stored then u else [], s2))) (if c = ?v then u else []) (kv s)"
    proof (rule yields_bind)
      show "yields inv kv (bend_GET (call E) (Some a) u ''cookie'' s1) ?v (kv s)"
        using GET_ok [OF s1(1) assms(5) k assms(6)] by (simp add: s1)
    qed simp
    then show "yields inv kv (case (Some a, s1) of (bend, s1) \<Rightarrow> if bend = None then Inr ([], s1)
        else ebind (bend_GET (call E) bend u ''cookie'' s1) (\<lambda>(stored, s2). Inr (if c = stored then u else [], s2)))
      (if c = ?v then u else []) (kv s)" by simp
  qed
  then show ?thesis using assms(2-4) by (simp add: auth_user_def Let_def)
qed

end

end
