(* ===== verification/Drive.thy ===== *)
theory Drive
  imports Http
begin

text \<open>
  PennDrive: the handlers of files and folders of \<open>frontend/src/http.cc\<close>. A folder is a row
  cell that holds the comma-separated full paths of its entries; a file is a cell that holds the
  bits of its bytes as text.
\<close>

text \<open>What a POST handler leaves to its caller: a response, or the parameters of a redirect.\<close>

datatype outcome = Reply string | Redirect params

definition reply :: "params \<Rightarrow> int \<Rightarrow> 's \<Rightarrow> exn + (outcome \<times> 's)" where
  "reply data code s = ebind (create_http_response code [] (dat data ''Host'')) (\<lambda>r. Inr (Reply r, s))"

definition respond :: "params \<Rightarrow> int \<Rightarrow> string \<Rightarrow> 's \<Rightarrow> exn + (string \<times> 's)" where
  "respond data code body s = ebind (create_http_response code body (dat data ''Host'')) (\<lambda>r. Inr (r, s))"

section \<open>The list of a folder\<close>

text \<open>
  \<open>idx = v.find(item); if (idx != 0) v.erase(idx - 1, ...) else if (idx == npos) ... \<close>: an item
  that is not in the list is erased at \<open>npos - 1\<close>, which raises.
\<close>

definition erase_entry :: "string \<Rightarrow> string \<Rightarrow> exn + string" where
  "erase_entry v item =
     (case str_find v item of
        None \<Rightarrow> Inl Out_of_range
      | Some 0 \<Rightarrow> Inr (drop (length item + 1) v)
      | Some (Suc i) \<Rightarrow> Inr (take i v @ drop (Suc i + length item) v))"

text \<open>The list with \<open>entry\<close> added; \<open>None\<close> when the text of \<open>entry\<close> already occurs in it.\<close>

definition add_entry :: "string \<Rightarrow> string \<Rightarrow> string option" where
  "add_entry fids entry =
     (if fids = not_found then Some entry
      else if contains fids entry then None
      else Some (fids @ '','' @ entry))"

section \<open>Upload, download, folders\<close>

definition upload_file :: "'s env \<Rightarrow> params \<Rightarrow> string \<Rightarrow> string \<Rightarrow> 's \<Rightarrow> exn + (outcome \<times> 's)" where
  "upload_file E data user body s =
     ebind (get_table_fd E user s) (\<lambda>(fd, s1).
       let parent_path = dat data ''X-File-Path'';
           file_path = parent_path @ dat data ''X-File-Name''
       in ebind (bend_GET (call E) fd user parent_path s1) (\<lambda>(fids, s2).
            case add_entry fids file_path of
              None \<Rightarrow> reply data 409 s2
            | Some fids' \<Rightarrow>
                ebind (bend_PUT (call E) fd user parent_path fids' s2) (\<lambda>(_, s3).
                ebind (bend_PUT (call E) fd user file_path (stobs body) s3) (\<lambda>(status, s4).
                  reply data (if only_at_start status ''+OK'' then 200 else 500) s4))))"

definition create_folder :: "'s env \<Rightarrow> params \<Rightarrow> string \<Rightarrow> string \<Rightarrow> 's \<Rightarrow> exn + (outcome \<times> 's)" where
  "create_folder E data user body s =
     ebind (get_table_fd E user s) (\<lambda>(fd, s1).
     ebind (parse_json_string body) (\<lambda>body_map.
       let name = dat body_map ''name''; parent_path = dat body_map ''parentPath''
       in ebind (bend_GET (call E) fd user parent_path s1) (\<lambda>(fids, s2).
            case add_entry fids name of
              None \<Rightarrow> reply data 409 s2
            | Some fids' \<Rightarrow>
                ebind (bend_PUT (call E) fd user parent_path fids' s2) (\<lambda>(_, s3).
                ebind (bend_PUT (call E) fd user name ''../'' s3) (\<lambda>(status, s4).
                  reply data (if only_at_start status ''+OK'' then 200 else 500) s4)))))"

definition CHUNK_THRESH_SIZE :: nat where "CHUNK_THRESH_SIZE = 1048576"
definition CHUNK_MAX_DOWNLOAD_SIZE :: nat where "CHUNK_MAX_DOWNLOAD_SIZE = 65536"

definition download_head :: "string \<Rightarrow> string" where
  "download_head file =
     ''HTTP/1.1 200 OK'' @ crlf @
     ''Access-Control-Allow-Origin: *'' @ crlf @
     ''Access-Control-Allow-Methods: DELETE, POST, GET, OPTIONS'' @ crlf @
     ''Access-Control-Allow-Headers: content-type, x-file-name, x-file-path'' @ crlf @
     ''Content-Type: application/octet-stream'' @ crlf @
     ''Content-Disposition: attachment; filename='' @ [CHR 0x22] @ file_name_from_path file @ [CHR 0x22] @ crlf"

definition download_response :: "string \<Rightarrow> string \<Rightarrow> exn + string" where
  "download_response file b64 =
     (if length b64 < CHUNK_THRESH_SIZE
      then Inr (download_head file @ ''Content-Length: '' @ to_string (int (length b64)) @ crlf @ crlf @ b64)
      else case write_to_chunk_transfer b64 CHUNK_MAX_DOWNLOAD_SIZE of
             None \<Rightarrow> Inl Diverges
           | Some chunks \<Rightarrow> Inr (download_head file @ ''Transfer-Encoding: chunked'' @ crlf @ crlf @ chunks))"

text \<open>\<open>data["path"].substr(data["path"].find('?') + 1)\<close>.\<close>

definition url_params :: "params \<Rightarrow> exn + params" where
  "url_params data = params_from_url (substr_after (dat data ''path'') (str_find (dat data ''path'') ''?''))"

definition download :: "'s env \<Rightarrow> params \<Rightarrow> string \<Rightarrow> 's \<Rightarrow> exn + (string \<times> 's)" where
  "download E data user s =
     ebind (get_table_fd E user s) (\<lambda>(fd, s1).
     ebind (url_params data) (\<lambda>params.
     ebind (bend_GET (call E) fd user (dat params ''file'') s1) (\<lambda>(file_binary, s2).
       if file_binary = not_found then respond data 404 [] s2
       else ebind (bstoby file_binary) (\<lambda>bytes.
            ebind (download_response (dat params ''file'') (bytob64 bytes)) (\<lambda>r. Inr (r, s2))))))"

definition files_body :: "string \<Rightarrow> string" where
  "files_body fids =
     butlast (''['' @ concat (map (\<lambda>f. ''{'' @ [CHR 0x22] @ ''name'' @ [CHR 0x22] @ '': '' @ [CHR 0x22] @
       file_name_from_path f @ [CHR 0x22] @ ''},'') (split fids CHR '',''))) @ '']''"

definition files_list :: "'s env \<Rightarrow> params \<Rightarrow> string \<Rightarrow> 's \<Rightarrow> exn + (string \<times> 's)" where
  "files_list E data user s =
     ebind (get_table_fd E user s) (\<lambda>(fd, s1).
     ebind (url_params data) (\<lambda>params.
     ebind (bend_GET (call E) fd user (dat params ''folder'') s1) (\<lambda>(fids, s2).
       if fids = not_found then respond data 404 [] s2
       else respond data 200 (files_body fids) s2)))"

section \<open>Delete, rename, move\<close>

text \<open>Erasing from a list and storing it back; an empty list is deleted.\<close>

definition put_or_delete :: "'s env \<Rightarrow> string option \<Rightarrow> string \<Rightarrow> string \<Rightarrow> string \<Rightarrow> 's \<Rightarrow> exn + (string \<times> 's)" where
  "put_or_delete E fd user key v s =
     (if v = [] then bend_DELETE (call E) fd user key s else bend_PUT (call E) fd user key v s)"

definition delete_status :: "string \<Rightarrow> int" where
  "delete_status status =
     (if status = not_found then 500 else if only_at_start status ''+OK'' then 200 else 404)"

definition delete_file :: "'s env \<Rightarrow> params \<Rightarrow> string \<Rightarrow> string \<Rightarrow> 's \<Rightarrow> exn + (string \<times> 's)" where
  "delete_file E data user body s =
     ebind (get_table_fd E user s) (\<lambda>(fd, s1).
     ebind (parse_json_string body) (\<lambda>params.
       let folder = dat params ''folder''; file = dat params ''file''
       in ebind (bend_GET (call E) fd user folder s1) (\<lambda>(v, s2).
          ebind (erase_entry v file) (\<lambda>v'.
          ebind (put_or_delete E fd user folder v' s2) (\<lambda>(_, s3).
          ebind (bend_DELETE (call E) fd user file s3) (\<lambda>(status, s4).
            respond data (delete_status status) [] s4))))))"

text \<open>
  Renaming a folder moves its files, not its subfolders. \<open>i.back()\<close> of an empty entry and the
  final \<open>pop_back\<close> of an empty string are undefined.
\<close>

definition move_one :: "'s env \<Rightarrow> string option \<Rightarrow> string \<Rightarrow> string \<Rightarrow> string \<Rightarrow> 's \<Rightarrow> exn + (string \<times> 's)" where
  "move_one E fd user i full_name s =
     ebind (bend_GET (call E) fd user i s) (\<lambda>(file_data, s1).
     ebind (bend_DELETE (call E) fd user i s1) (\<lambda>(_, s2).
     ebind (bend_PUT (call E) fd user full_name file_data s2) (\<lambda>(_, s3). Inr (full_name, s3))))"

text \<open>\<open>target i\<close> is the new full name of the file \<open>i\<close>.\<close>

primrec rename_entries ::
  "'s env \<Rightarrow> string option \<Rightarrow> string \<Rightarrow> (string \<Rightarrow> string) \<Rightarrow> string list \<Rightarrow> 's \<Rightarrow> exn + (string \<times> 's)" where
  "rename_entries E fd user target [] s = Inr ([], s)"
| "rename_entries E fd user target (i # is) s =
     ebind (if i = ''../'' then Inr (i, s)
            else if i = [] then Inl Undefined_behaviour
            else if last i \<noteq> CHR ''/'' then move_one E fd user i (target i) s
            else Inr ([], s)) (\<lambda>(name, s1).
     ebind (rename_entries E fd user target is s1) (\<lambda>(names, s2).
       Inr (name @ '','' @ names, s2)))"

definition rename_all ::
  "'s env \<Rightarrow> string option \<Rightarrow> string \<Rightarrow> (string \<Rightarrow> string) \<Rightarrow> string \<Rightarrow> 's \<Rightarrow> exn + (string \<times> 's)" where
  "rename_all E fd user target file_data s =
     ebind (rename_entries E fd user target (split file_data CHR '','') s) (\<lambda>(names, s').
       if names = [] then Inl Undefined_behaviour else Inr (butlast names, s'))"

definition renameFolder ::
  "'s env \<Rightarrow> string option \<Rightarrow> string \<Rightarrow> string \<Rightarrow> string \<Rightarrow> string \<Rightarrow> 's \<Rightarrow> exn + (string \<times> 's)" where
  "renameFolder E fd user file_data new_file_name parent_path =
     rename_all E fd user
       (\<lambda>i. parent_path @ file_name_from_path new_file_name @ file_name_from_path i) file_data"

definition renameMovedFolder ::
  "'s env \<Rightarrow> string option \<Rightarrow> string \<Rightarrow> string \<Rightarrow> string \<Rightarrow> string \<Rightarrow> 's \<Rightarrow> exn + (string \<times> 's)" where
  "renameMovedFolder E fd user file_data file_name new_path =
     rename_all E fd user (\<lambda>i. new_path @ file_name) file_data"

text \<open>\<open>delete_status.rfind(ERR) == 0\<close>, then the data is stored under its new name.\<close>

definition replace_cell ::
  "'s env \<Rightarrow> params \<Rightarrow> string option \<Rightarrow> string \<Rightarrow> string \<Rightarrow> string \<Rightarrow> string \<Rightarrow> 's \<Rightarrow> exn + (outcome \<times> 's)" where
  "replace_cell E data fd user old_key new_key v s =
     ebind (bend_DELETE (call E) fd user old_key s) (\<lambda>(delete_st, s1).
       if only_at_start delete_st ''-ERR'' then reply data 500 s1
       else ebind (bend_PUT (call E) fd user new_key v s1) (\<lambda>(put_st, s2).
              reply data (if only_at_start put_st ''+OK'' then 200 else 500) s2))"

definition rename_file :: "'s env \<Rightarrow> params \<Rightarrow> string \<Rightarrow> string \<Rightarrow> 's \<Rightarrow> exn + (outcome \<times> 's)" where
  "rename_file E data user body s =
     ebind (get_table_fd E user s) (\<lambda>(fd, s1).
     ebind (parse_json_string body) (\<lambda>body_map.
       let parent_path = dat body_map ''parentPath'';
           old_file_name = parent_path @ dat body_map ''oldFileName'';
           new_file_name = parent_path @ dat body_map ''newFileName''
       in ebind (bend_GET (call E) fd user parent_path s1) (\<lambda>(fids, s2).
            if contains fids new_file_name then reply data 409 s2
            else if \<not> contains fids old_file_name then reply data 404 s2
            else ebind (bend_PUT (call E) fd user parent_path (replace fids old_file_name new_file_name) s2) (\<lambda>(_, s3).
                 ebind (bend_GET (call E) fd user old_file_name s3) (\<lambda>(file_data, s4).
                   if old_file_name = [] then Inl Undefined_behaviour
                   else if last old_file_name = CHR ''/'' then
                     ebind (renameFolder E fd user file_data new_file_name parent_path s4) (\<lambda>(new_file_data, s5).
                       replace_cell E data fd user old_file_name new_file_name new_file_data s5)
                   else replace_cell E data fd user old_file_name new_file_name file_data s4)))))"

text \<open>
  \<open>/move-file\<close> searches the target folder for the old full path, not the new one, and stores the
  old contents of a moved folder: \<open>new_file_data\<close> is computed and dropped.
\<close>

definition move_file :: "'s env \<Rightarrow> params \<Rightarrow> string \<Rightarrow> string \<Rightarrow> 's \<Rightarrow> exn + (outcome \<times> 's)" where
  "move_file E data user body s =
     ebind (get_table_fd E user s) (\<lambda>(fd, s1).
     ebind (parse_json_string body) (\<lambda>body_map.
       let full_path = dat body_map ''fullPath''; file_name = dat body_map ''fileName'';
           old_path = dat body_map ''oldPath''; new_path = dat body_map ''newPath''
       in ebind (bend_GET (call E) fd user old_path s1) (\<lambda>(old_fids, s2).
          ebind (erase_entry old_fids full_path) (\<lambda>old_fids'.
          ebind (bend_PUT (call E) fd user old_path old_fids' s2) (\<lambda>(_, s3).
          ebind (bend_GET (call E) fd user new_path s3) (\<lambda>(new_fids, s4).
            if contains new_fids full_path then reply data 409 s4
            else
              ebind (bend_PUT (call E) fd user new_path (new_fids @ '','' @ new_path @ file_name) s4) (\<lambda>(_, s5).
              ebind (bend_GET (call E) fd user full_path s5) (\<lambda>(file_data, s6).
                if file_name = [] then Inl Undefined_behaviour
                else
                  ebind (if last file_name = CHR ''/''
                         then renameMovedFolder E fd user file_data file_name new_path s6
                         else Inr ([], s6)) (\<lambda>(_, s7).
                    replace_cell E data fd user full_path (new_path @ file_name) file_data s7)))))))))"

section \<open>What the handlers do to the stored map\<close>

lemmas word_eval = word_def val_ok_def clean_text_def isspace_def starts_with_def contains_def str_find_def

lemma stobs_val_ok:
  assumes "s \<noteq> []"
  shows "val_ok (stobs s)"
proof -
  have ne: "stobs s \<noteq> []" using assms length_stobs [of s] by auto
  have "last (stobs s) = CHR ''0'' \<or> last (stobs s) = CHR ''1''"
    using last_in_set [OF ne] stobs_binary by blast
  then have "\<not> isspace (last (stobs s))" by (elim disjE) (simp_all add: isspace_def)
  moreover have no: "CHR 0x0D \<notin> set (stobs s)" "CHR 0x00 \<notin> set (stobs s)"
    "CHR ''T'' \<notin> set (stobs s)" "CHR ''R'' \<notin> set (stobs s)"
    by (auto dest: stobs_binary)
  moreover have "\<not> contains (stobs s) ''TSEQNUM''"
    by (rule not_contains_char [OF _ no(3)]) simp
  moreover have "\<not> contains (stobs s) ''REPLICA''"
    by (rule not_contains_char [OF _ no(4)]) simp
  ultimately show ?thesis using ne unfolding val_ok_def clean_text_def by blast
qed

text \<open>A list of words stays a value that the storage servers take when a word is added.\<close>

lemma val_ok_listed:
  assumes "clean_text l" and "word w"
  shows "val_ok (l @ '','' @ w)" and "val_ok w"
proof -
  have w: "w \<noteq> []" "clean_text w" "\<not> isspace (last w)" using assms(2) last_in_set unfolding word_def by blast+
  then show "val_ok w" unfolding val_ok_def by simp
  have "clean_text (l @ '','' @ w)"
    using assms(1) w(2) contains_separated [of "CHR '',''" "''TSEQNUM''" l w]
      contains_separated [of "CHR '',''" "''REPLICA''" l w]
    unfolding clean_text_def by simp
  with w show "val_ok (l @ '','' @ w)" unfolding val_ok_def by simp
qed

lemma add_entry_ok: "add_entry fids entry = Some l \<Longrightarrow> clean_text fids \<Longrightarrow> word entry \<Longrightarrow> val_ok l"
  using val_ok_listed by (auto simp: add_entry_def split: if_splits)

text \<open>The name of a mail, 32 hexadecimal digits, is a word that holds no separator.\<close>

lemma set_hex2: "set (hex2 b) \<subseteq> set ''0123456789abcdef''"
proof -
  have "''0123456789abcdef'' ! (k mod 16) \<in> set ''0123456789abcdef''" for k by (rule nth_mem) simp
  then show ?thesis unfolding hex2_def by simp
qed

lemma set_compute_hash_16: "set (compute_hash_16 E d n) \<subseteq> set ''0123456789abcdef''"
  unfolding compute_hash_16_def set_concat using set_hex2 by fastforce

lemma length_compute_hash_16: "length (compute_hash_16 E d n) = 32"
  by (simp add: compute_hash_16_def hex2_def length_concat comp_def sum_list_triv)

lemma word_compute_hash_16: "word (compute_hash_16 E d n)"
proof -
  let ?h = "compute_hash_16 E d n"
  have other: "c \<notin> set ?h" if "c \<notin> set ''0123456789abcdef''" for c using set_compute_hash_16 that by blast
  have "\<not> contains ?h ''TSEQNUM''" "\<not> contains ?h ''REPLICA''"
    by (rule not_contains_char [of "CHR ''T''"], simp, rule other, simp)
      (rule not_contains_char [of "CHR ''R''"], simp, rule other, simp)
  moreover have "CHR 0x0D \<notin> set ?h" "CHR 0x00 \<notin> set ?h" by (rule other, simp)+
  moreover have "\<not> isspace c" if "c \<in> set ?h" for c
    using set_compute_hash_16 [of E d n] that by (auto simp: isspace_def)
  moreover have "\<not> starts_with ?h ''REQUEST''"
    using other [of "CHR ''R''"] by (cases ?h) (auto simp: starts_with_def)
  moreover have "?h \<noteq> []" using length_compute_hash_16 [of E d n] by auto
  ultimately show ?thesis unfolding word_def clean_text_def by blast
qed

definition listed :: "store \<Rightarrow> string \<Rightarrow> string \<Rightarrow> string" where
  "listed m user k = (case m (user, k) of None \<Rightarrow> not_found | Some v \<Rightarrow> v)"

lemma reply_ok: "dat data ''Host'' \<noteq> [] \<Longrightarrow> \<exists>r. create_http_response code [] (dat data ''Host'') = Inr r \<and>
   reply data code s = Inr (Reply r, s)"
  by (simp add: reply_def create_http_response_def)

lemma put_answer [simp]: "only_at_start ''+OK PUT SUCCESSFUL.'' ''+OK''"
  by (simp add: only_at_start_def str_rfind_def)

lemma word_eid_vector [simp]: "word ''eid_vector''"
  by (simp add: word_def clean_text_def isspace_def starts_with_def contains_def str_find_def)

context web_site
begin

lemma upload_ok:
  assumes "inv s" and "word user" and "user \<noteq> ''passwd''" and "word parent" and "word (parent @ name)"
    and "dat data ''X-File-Path'' = parent" and "dat data ''X-File-Name'' = name"
    and "add_entry (listed (kv s) user parent) (parent @ name) = Some fids"
    and "clean_text (listed (kv s) user parent)" and "body \<noteq> []"
    and "create_http_response 200 [] (dat data ''Host'') = Inr r"
  shows "yields inv kv (upload_file E data user body s) (Reply r)
    ((kv s)((user, parent) \<mapsto> fids, (user, parent @ name) \<mapsto> stobs body))"
proof -
  from get_table_fd_ok [OF assms(1,2)] obtain s1 where
    1: "get_table_fd E user s = Inr (Some a, s1)" "inv s1" "kv s1 = kv s" by (rule yieldsE)
  from GET_ok [OF 1(2) assms(2,4,3)] obtain s2 where
    2: "bend_GET (call E) (Some a) user parent s1 = Inr (listed (kv s) user parent, s2)" "inv s2" "kv s2 = kv s"
    unfolding 1(3) listed_def by (rule yieldsE)
  from PUT_ok [OF 2(2) assms(2,4) add_entry_ok [OF assms(8,9,5)]] obtain s3 where
    3: "bend_PUT (call E) (Some a) user parent fids s2 = Inr (''+OK PUT SUCCESSFUL.'', s3)" "inv s3"
      "kv s3 = (kv s)((user, parent) \<mapsto> fids)"
    unfolding 2(3) by (rule yieldsE)
  from PUT_ok [OF 3(2) assms(2,5) stobs_val_ok [OF assms(10)]] obtain s4 where
    4: "bend_PUT (call E) (Some a) user (parent @ name) (stobs body) s3 = Inr (''+OK PUT SUCCESSFUL.'', s4)" "inv s4"
      "kv s4 = (kv s)((user, parent) \<mapsto> fids, (user, parent @ name) \<mapsto> stobs body)"
    unfolding 3(3) by (rule yieldsE)
  show ?thesis
    using 4(2,3) by (simp add: upload_file_def assms(6,7,8,11) 1(1) 2(1) 3(1) 4(1) Let_def reply_def)
qed

lemma download_ok:
  assumes "inv s" and "word user" and "user \<noteq> ''passwd''" and "word file"
    and "url_params data = Inr params" and "dat params ''file'' = file"
    and "kv s (user, file) = Some (stobs body)" and "download_response file (bytob64 (map of_char body)) = Inr r"
  shows "yields inv kv (download E data user s) r (kv s)"
proof -
  from get_table_fd_ok [OF assms(1,2)] obtain s1 where
    1: "get_table_fd E user s = Inr (Some a, s1)" "inv s1" "kv s1 = kv s" by (rule yieldsE)
  from GET_ok [OF 1(2) assms(2,4,3)] obtain s2 where
    2: "bend_GET (call E) (Some a) user file s1 = Inr (stobs body, s2)" "inv s2" "kv s2 = kv s"
    unfolding 1(3) assms(7) option.case by (rule yieldsE)
  have "stobs body \<noteq> not_found"
  proof
    assume "stobs body = not_found"
    then have "CHR ''-'' \<in> set (stobs body)" by (simp add: not_found_def)
    with stobs_binary [of "CHR ''-''" body] show False by auto
  qed
  with 2(2,3) show ?thesis
    by (simp add: download_def assms(5,6,8) 1(1) 2(1) bstoby_stobs_bytes)
qed

lemma delete_unlisted:
  assumes "inv s" and "word user" and "user \<noteq> ''passwd''" and "word folder"
    and "parse_json_string body = Inr params" and "dat params ''folder'' = folder"
    and "\<not> contains (listed (kv s) user folder) (dat params ''file'')"
  shows "delete_file E data user body s = Inl Out_of_range"
proof -
  from get_table_fd_ok [OF assms(1,2)] obtain s1 where
    1: "get_table_fd E user s = Inr (Some a, s1)" "inv s1" "kv s1 = kv s" by (rule yieldsE)
  from GET_ok [OF 1(2) assms(2,4,3)] obtain s2 where
    2: "bend_GET (call E) (Some a) user folder s1 = Inr (listed (kv s) user folder, s2)"
    unfolding 1(3) listed_def by (rule yieldsE)
  show ?thesis
    using assms(7) by (simp add: delete_file_def assms(5,6) 1(1) 2 Let_def erase_entry_def contains_def)
qed

text \<open>A renamed file has its contents under the new name only, and its entry is replaced.\<close>

lemma rename_ok:
  assumes "inv s" and "word user" and "user \<noteq> ''passwd''" and "word parent" and "word old" and "word new"
    and "parse_json_string body = Inr m" and "dat m ''parentPath'' = parent"
    and "old = parent @ dat m ''oldFileName''" and "new = parent @ dat m ''newFileName''"
    and "kv s (user, parent) = Some fids" and "contains fids old" and "\<not> contains fids new"
    and "val_ok (replace fids old new)" and "kv s (user, old) = Some v" and "val_ok v"
    and "last old \<noteq> CHR ''/''" and "old \<noteq> parent" and "new \<noteq> old"
    and "create_http_response 200 [] (dat data ''Host'') = Inr r"
  shows "yields inv kv (rename_file E data user body s) (Reply r)
    ((kv s)((user, parent) \<mapsto> replace fids old new, (user, old) := None, (user, new) \<mapsto> v))"
proof -
  let ?list = "replace fids old new"
  from get_table_fd_ok [OF assms(1,2)] obtain s1 where
    1: "get_table_fd E user s = Inr (Some a, s1)" "inv s1" "kv s1 = kv s" by (rule yieldsE)
  from GET_ok [OF 1(2) assms(2,4,3)] obtain s2 where
    2: "bend_GET (call E) (Some a) user parent s1 = Inr (fids, s2)" "inv s2" "kv s2 = kv s"
    unfolding 1(3) assms(11) option.case by (rule yieldsE)
  from PUT_ok [OF 2(2) assms(2,4,14)] obtain s3 where
    3: "bend_PUT (call E) (Some a) user parent ?list s2 = Inr (''+OK PUT SUCCESSFUL.'', s3)" "inv s3"
      "kv s3 = (kv s)((user, parent) \<mapsto> ?list)"
    unfolding 2(3) by (rule yieldsE)
  have v: "kv s3 (user, old) = Some v" using assms(15,18) by (simp add: 3(3))
  from GET_ok [OF 3(2) assms(2,5,3)] obtain s4 where
    4: "bend_GET (call E) (Some a) user old s3 = Inr (v, s4)" "inv s4" "kv s4 = kv s3"
    unfolding v option.case by (rule yieldsE)
  from DELETE_ok [OF 4(2) assms(2,5)] obtain s5 where
    5: "bend_DELETE (call E) (Some a) user old s4 = Inr (''+OK DELETE successful.'', s5)" "inv s5"
      "kv s5 = (kv s3)((user, old) := None)"
    unfolding 4(3) v by (auto elim: yieldsE)
  from PUT_ok [OF 5(2) assms(2,6,16)] obtain s6 where
    6: "bend_PUT (call E) (Some a) user new v s5 = Inr (''+OK PUT SUCCESSFUL.'', s6)" "inv s6"
      "kv s6 = (kv s5)((user, new) \<mapsto> v)"
    by (rule yieldsE)
  have "old \<noteq> []" using assms(5) by (simp add: word_def)
  moreover have "\<not> only_at_start ''+OK DELETE successful.'' ''-ERR''"
    by (simp add: only_at_start_def str_rfind_def)
  ultimately show ?thesis
    using 6(2,3) assms(12,13,17)
    by (simp add: rename_file_def replace_cell_def assms(7,8,20) assms(9,10) [symmetric] 1(1) 2(1) 3(1) 4(1) 5(1) 6(1)
        3(3) 5(3) Let_def reply_def)
qed

end

end
