(* ===== verification/Accounts.thy ===== *)
theory Accounts
  imports Drive
begin

text \<open>
  Accounts: the handlers of \<open>/signup\<close>, \<open>/login\<close> and \<open>/changepassword\<close> of
  \<open>frontend/src/http.cc\<close>. An account is a row with a cell \<open>password\<close> (the hash) and a cell
  \<open>cookie\<close> (the session).
\<close>

definition hash_password :: "'s env \<Rightarrow> params \<Rightarrow> params" where
  "hash_password E params =
     (case map_of params ''password'' of None \<Rightarrow> params | Some p \<Rightarrow> map_put ''password'' (hash E p) params)"

text \<open>The result is \<open>False\<close> when a cell could not be stored; the rest is not tried.\<close>

primrec put_fields :: "'s env \<Rightarrow> string option \<Rightarrow> string \<Rightarrow> params \<Rightarrow> 's \<Rightarrow> exn + (bool \<times> 's)" where
  "put_fields E fd email [] s = Inr (True, s)"
| "put_fields E fd email (p # ps) s =
     (if fst p = ''email'' then put_fields E fd email ps s
      else ebind (bend_PUT (call E) fd email (fst p) (snd p) s) (\<lambda>(answer, s1).
             if contains answer ''OK'' then put_fields E fd email ps s1 else Inr (False, s1)))"

definition signup_failed :: params where
  "signup_failed = [(''login_failure'', ''true''), (''success'', ''2'')]"

definition signup :: "'s env \<Rightarrow> string \<Rightarrow> 's \<Rightarrow> exn + (outcome \<times> 's)" where
  "signup E body s =
     ebind (params_from_url (url_decode body)) (\<lambda>params0.
       let params = hash_password E params0; email = dat params ''email''
       in ebind (bend_connect (call E) (bcoord E) email s) (\<lambda>(bend, s1).
            if bend = None then Inr (Redirect signup_failed, s1)
            else ebind (bend_GET (call E) bend email ''password'' s1) (\<lambda>(existing, s2).
              if \<not> starts_with existing ''-ERR'' then Inr (Redirect signup_failed, s2)
              else ebind (put_fields E bend email params s2) (\<lambda>(stored, s3).
                Inr (Redirect [(''success'', if stored then ''0'' else ''2'')], s3)))))"

definition session_cookie :: "string \<Rightarrow> string \<Rightarrow> string \<Rightarrow> string" where
  "session_cookie cke email name =
     ''cookie='' @ cke @ ''; SameSite=None; Secure;'' @ crlf @
     ''Set-Cookie: uuid='' @ email @ ''; SameSite=None; Secure;'' @ crlf @
     ''Set-Cookie: name='' @ name @ ''; SameSite=None; Secure;''"

text \<open>\<open>/login\<close> goes on with the descriptor -1: the first command then ends the process.\<close>

definition login :: "'s env \<Rightarrow> string \<Rightarrow> 's \<Rightarrow> exn + (outcome \<times> 's)" where
  "login E body s =
     ebind (params_from_url (url_decode body)) (\<lambda>params0.
       let params = hash_password E params0; email = dat params ''email''
       in ebind (bend_connect (call E) (bcoord E) email s) (\<lambda>(bend, s1).
          ebind (bend_GET (call E) bend email ''password'' s1) (\<lambda>(password, s2).
            if dat params ''password'' \<noteq> password then Inr (Redirect [(''success'', ''1'')], s2)
            else
              let cke = generate_cookie (mt E)
              in ebind (bend_GET (call E) bend email ''name'' s2) (\<lambda>(name, s3).
                 ebind (bend_PUT (call E) bend email ''cookie'' cke s3) (\<lambda>(answer, s4).
                   Inr (Redirect
                     (if contains answer ''OK''
                      then [(''Set-Cookie'', session_cookie cke email name), (''success'', ''0'')]
                      else [(''success'', ''0'')]), s4))))))"

text \<open>The stored password is searched for the old one, so a missing old password is hashed too.\<close>

definition change_password :: "'s env \<Rightarrow> params \<Rightarrow> string \<Rightarrow> string \<Rightarrow> 's \<Rightarrow> exn + (outcome \<times> 's)" where
  "change_password E data user body s =
     ebind (params_from_url (url_decode body)) (\<lambda>params.
       case map_of params ''password'' of
         None \<Rightarrow> Inr (Reply (login_failure (dat data ''vno'')), s)
       | Some p \<Rightarrow>
           let old_password = hash E (dat params ''old-password''); password = hash E p
           in ebind (bend_connect (call E) (bcoord E) user s) (\<lambda>(bend, s1).
                if bend = None then Inr (Redirect [(''success'', ''1'')], s1)
                else ebind (bend_GET (call E) bend user ''password'' s1) (\<lambda>(stored, s2).
                  if \<not> contains stored old_password then Inr (Redirect [(''success'', ''2'')], s2)
                  else ebind (bend_PUT (call E) bend user ''password'' password s2) (\<lambda>(answer, s3).
                    Inr (Redirect [(''success'', if contains answer ''OK'' then ''3'' else ''1'')], s3)))))"

section \<open>What the handlers do to the stored map\<close>

text \<open>The cells a new account gets: every field of the form but the address.\<close>

primrec account_cells :: "string \<Rightarrow> params \<Rightarrow> store \<Rightarrow> store" where
  "account_cells email [] m = m"
| "account_cells email (p # ps) m =
     account_cells email ps (if fst p = ''email'' then m else m((email, fst p) \<mapsto> snd p))"

lemma account_cells_get:
  "distinct (map fst ps) \<Longrightarrow> map_of ps k = Some v \<Longrightarrow> k \<noteq> ''email'' \<Longrightarrow> account_cells email ps m (email, k) = Some v"
proof (induction ps arbitrary: m)
  case (Cons p ps)
  have other: "k \<notin> fst ` set qs \<Longrightarrow> account_cells email qs m' (email, k) = m' (email, k)" for qs m'
    by (induction qs arbitrary: m') auto
  show ?case
  proof (cases "fst p = k")
    case True
    with Cons.prems have "v = snd p" "k \<notin> fst ` set ps" by auto
    with True Cons.prems(3) show ?thesis by (simp add: other)
  next
    case False
    with Cons.prems have "distinct (map fst ps)" "map_of ps k = Some v" by (cases p; simp)+
    from Cons.IH [OF this Cons.prems(3)] show ?thesis by simp
  qed
qed simp

definition storable :: "params \<Rightarrow> bool" where
  "storable ps = (\<forall>(k, v) \<in> set ps. k \<noteq> ''email'' \<longrightarrow> word k \<and> val_ok v)"

lemma word_literals [simp]: "word ''password''" "word ''cookie''" "word ''name''"
  by (simp_all add: word_eval)

context web_site
begin

lemma put_fields_ok:
  assumes "inv s" and "word email" and "storable ps"
  shows "yields inv kv (put_fields E (Some a) email ps s) True (account_cells email ps (kv s))"
  using assms(1,3)
proof (induction ps arbitrary: s)
  case (Cons p ps)
  have st: "storable ps" using Cons.prems(2) by (simp add: storable_def)
  show ?case
  proof (cases "fst p = ''email''")
    case True
    with Cons.IH [OF Cons.prems(1) st] show ?thesis by simp
  next
    case False
    with Cons.prems(2) have "word (fst p)" "val_ok (snd p)" by (auto simp: storable_def)
    from PUT_ok [OF Cons.prems(1) assms(2) this] obtain s1 where
      "bend_PUT (call E) (Some a) email (fst p) (snd p) s = Inr (''+OK PUT SUCCESSFUL.'', s1)" "inv s1"
      "kv s1 = (kv s)((email, fst p) \<mapsto> snd p)" by (rule yieldsE)
    moreover have "contains ''+OK PUT SUCCESSFUL.'' ''OK''" by (simp add: contains_def str_find_def)
    ultimately show ?thesis using Cons.IH [of s1, OF _ st] False by (simp add: fun_upd_def)
  qed
qed simp

lemma signup_ok:
  assumes "inv s" and "word email" and "email \<noteq> ''passwd''"
    and "params_from_url (url_decode body) = Inr ps" and "dat (hash_password E ps) ''email'' = email"
    and "storable (hash_password E ps)" and "kv s (email, ''password'') = None"
  shows "yields inv kv (signup E body s) (Redirect [(''success'', ''0'')])
    (account_cells email (hash_password E ps) (kv s))"
proof -
  from bend_connect_ok [OF assms(1,2)] obtain s1 where
    1: "bend_connect (call E) (bcoord E) email s = Inr (Some a, s1)" "inv s1" "kv s1 = kv s" by (rule yieldsE)
  from GET_ok [OF 1(2) assms(2) word_literals(1) assms(3)] obtain s2 where
    2: "bend_GET (call E) (Some a) email ''password'' s1 = Inr (not_found, s2)" "inv s2" "kv s2 = kv s"
    unfolding 1(3) assms(7) option.case by (rule yieldsE)
  from put_fields_ok [OF 2(2) assms(2,6)] obtain s3 where
    3: "put_fields E (Some a) email (hash_password E ps) s2 = Inr (True, s3)" "inv s3"
      "kv s3 = account_cells email (hash_password E ps) (kv s)"
    unfolding 2(3) by (rule yieldsE)
  have "starts_with not_found ''-ERR''" by (simp add: not_found_def starts_with_def)
  with 3(2,3) show ?thesis
    by (simp add: signup_def assms(4,5) 1(1) 2(1) 3(1) Let_def)
qed

text \<open>An account that exists is left as it is.\<close>

lemma signup_existing:
  assumes "inv s" and "word email" and "email \<noteq> ''passwd''"
    and "params_from_url (url_decode body) = Inr ps" and "dat (hash_password E ps) ''email'' = email"
    and "kv s (email, ''password'') = Some h" and "\<not> starts_with h ''-ERR''"
  shows "yields inv kv (signup E body s) (Redirect signup_failed) (kv s)"
proof -
  from bend_connect_ok [OF assms(1,2)] obtain s1 where
    1: "bend_connect (call E) (bcoord E) email s = Inr (Some a, s1)" "inv s1" "kv s1 = kv s" by (rule yieldsE)
  from GET_ok [OF 1(2) assms(2) word_literals(1) assms(3)] obtain s2 where
    2: "bend_GET (call E) (Some a) email ''password'' s1 = Inr (h, s2)" "inv s2" "kv s2 = kv s"
    unfolding 1(3) assms(6) option.case by (rule yieldsE)
  from 2(2,3) show ?thesis
    by (simp add: signup_def assms(4,5,7) 1(1) 2(1) Let_def)
qed

lemma login_reads:
  assumes "inv s" and "word email" and "email \<noteq> ''passwd''"
  obtains s1 s2 where "bend_connect (call E) (bcoord E) email s = Inr (Some a, s1)" and "inv s1" and "kv s1 = kv s"
    and "bend_GET (call E) (Some a) email ''password'' s1 = Inr (listed (kv s) email ''password'', s2)"
    and "inv s2" and "kv s2 = kv s"
proof -
  from bend_connect_ok [OF assms(1,2)] obtain s1 where
    1: "bend_connect (call E) (bcoord E) email s = Inr (Some a, s1)" "inv s1" "kv s1 = kv s" by (rule yieldsE)
  from GET_ok [OF 1(2) assms(2) word_literals(1) assms(3)] obtain s2 where
    2: "bend_GET (call E) (Some a) email ''password'' s1 = Inr (listed (kv s) email ''password'', s2)" "inv s2" "kv s2 = kv s"
    unfolding 1(3) listed_def by (rule yieldsE)
  from 1 2 show thesis by (rule that)
qed

lemma login_ok:
  assumes "inv s" and "word email" and "email \<noteq> ''passwd''"
    and "params_from_url (url_decode body) = Inr ps" and "dat (hash_password E ps) ''email'' = email"
    and "kv s (email, ''password'') = Some (dat (hash_password E ps) ''password'')"
    and "val_ok (generate_cookie (mt E))"
  shows "yields inv kv (login E body s)
    (Redirect [(''Set-Cookie'', session_cookie (generate_cookie (mt E)) email (listed (kv s) email ''name'')), (''success'', ''0'')])
    ((kv s)((email, ''cookie'') \<mapsto> generate_cookie (mt E)))"
proof -
  obtain s1 s2 where 1: "bend_connect (call E) (bcoord E) email s = Inr (Some a, s1)"
    and 2: "bend_GET (call E) (Some a) email ''password'' s1 = Inr (listed (kv s) email ''password'', s2)"
      "inv s2" "kv s2 = kv s"
    by (rule login_reads [OF assms(1-3)])
  from GET_ok [OF 2(2) assms(2) word_literals(3) assms(3)] obtain s3 where
    3: "bend_GET (call E) (Some a) email ''name'' s2 = Inr (listed (kv s) email ''name'', s3)" "inv s3" "kv s3 = kv s"
    unfolding 2(3) listed_def by (rule yieldsE)
  from PUT_ok [OF 3(2) assms(2) word_literals(2) assms(7)] obtain s4 where
    4: "bend_PUT (call E) (Some a) email ''cookie'' (generate_cookie (mt E)) s3 = Inr (''+OK PUT SUCCESSFUL.'', s4)"
      "inv s4" "kv s4 = (kv s)((email, ''cookie'') \<mapsto> generate_cookie (mt E))"
    unfolding 3(3) by (rule yieldsE)
  have "contains ''+OK PUT SUCCESSFUL.'' ''OK''" by (simp add: contains_def str_find_def)
  moreover have "listed (kv s) email ''password'' = dat (hash_password E ps) ''password''"
    by (simp add: listed_def assms(6))
  ultimately show ?thesis
    using 4(2,3) by (simp add: login_def assms(4,5) 1 2(1) 3(1) 4(1) Let_def)
qed

lemma login_wrong:
  assumes "inv s" and "word email" and "email \<noteq> ''passwd''"
    and "params_from_url (url_decode body) = Inr ps" and "dat (hash_password E ps) ''email'' = email"
    and "listed (kv s) email ''password'' \<noteq> dat (hash_password E ps) ''password''"
  shows "yields inv kv (login E body s) (Redirect [(''success'', ''1'')]) (kv s)"
proof -
  obtain s1 s2 where 1: "bend_connect (call E) (bcoord E) email s = Inr (Some a, s1)"
    and 2: "bend_GET (call E) (Some a) email ''password'' s1 = Inr (listed (kv s) email ''password'', s2)"
      "inv s2" "kv s2 = kv s"
    by (rule login_reads [OF assms(1-3)])
  from 2(2,3) assms(6) show ?thesis
    by (auto simp: login_def assms(4,5) 1 2(1) Let_def)
qed

end

section \<open>Session cookies\<close>

definition session_header :: "string \<Rightarrow> string \<Rightarrow> string" where
  "session_header cke email = ''cookie='' @ cke @ '';uuid='' @ email"

lemma cookie_params_session:
  assumes "cke \<noteq> []" and "email \<noteq> []" and "CHR '';'' \<notin> set cke \<union> set email" and "CHR ''='' \<notin> set cke \<union> set email"
    and "\<forall>c \<in> set cke \<union> set email. \<not> isspace c"
  shows "map_of (cookie_params (session_header cke email)) ''cookie'' = Some cke"
    and "map_of (cookie_params (session_header cke email)) ''uuid'' = Some email"
proof -
  have "split (session_header cke email) CHR '';'' = [''cookie='' @ cke, ''uuid='' @ email]"
    using assms split_append_delim [of "CHR '';''" "''cookie='' @ cke" "''uuid='' @ email"]
    by (simp add: session_header_def split_no_delim)
  moreover have "split (''cookie='' @ cke) CHR ''='' = [''cookie'', cke]" "split (''uuid='' @ email) CHR ''='' = [''uuid'', email]"
    using assms split_append_delim [of "CHR ''=''" "''cookie''" cke] split_append_delim [of "CHR ''=''" "''uuid''" email]
    by (simp_all add: split_no_delim)
  moreover have "strip cke = cke" "strip email = email" "strip ''cookie'' = ''cookie''" "strip ''uuid'' = ''uuid''"
    using assms(5) by (auto simp: strip_def isspace_def)
  ultimately show "map_of (cookie_params (session_header cke email)) ''cookie'' = Some cke"
    "map_of (cookie_params (session_header cke email)) ''uuid'' = Some email"
    by (simp_all add: cookie_params_def)
qed

lemma cookie_value_stripped:
  assumes "map_of (cookie_params header) k = Some v"
  shows "CHR '' '' \<notin> set v"
proof -
  let ?f = "\<lambda>c m. case split c CHR ''='' of [k, v] \<Rightarrow> map_put (strip k) (strip v) m | _ \<Rightarrow> m"
  have "CHR '' '' \<notin> set v" if "\<forall>k v. map_of m k = Some v \<longrightarrow> CHR '' '' \<notin> set v" "map_of (fold ?f cs m) k = Some v" for cs m
    using that
  proof (induction cs arbitrary: m)
    case (Cons c cs)
    have "\<forall>k v. map_of (?f c m) k = Some v \<longrightarrow> CHR '' '' \<notin> set v"
      using Cons.prems(1) strip_no_space [of "CHR '' ''"] by (auto simp: isspace_def split: list.split if_splits)
    from Cons.IH [OF this] Cons.prems(2) show ?case by simp
  qed simp
  from this [of "[]"] assms show ?thesis by (simp add: cookie_params_def)
qed

context web_site
begin

text \<open>Whoever is taken for a user has shown the cookie stored for that user.\<close>

lemma auth_user_sound:
  assumes "inv s" and "map_of data ''Cookie'' = Some header" and "map_of (cookie_params header) ''uuid'' = Some v"
    and "word v" and "v \<noteq> ''passwd''" and "auth_user E data s = Inr (u, s')" and "u \<noteq> []"
  shows "u = v \<and> kv s (u, ''cookie'') \<noteq> None \<and> kv s (u, ''cookie'') = map_of (cookie_params header) ''cookie''"
proof (cases "map_of (cookie_params header) ''cookie''")
  case None
  then show ?thesis using assms(2,6,7) by (simp add: auth_user_def Let_def)
next
  case (Some c)
  let ?w = "case kv s (v, ''cookie'') of None \<Rightarrow> not_found | Some w \<Rightarrow> w"
  from auth_user_ok [OF assms(1,2) Some assms(3-5)] assms(6)
  have "u = (if c = ?w then v else [])" by (auto elim: yieldsE)
  with assms(7) have "u = v" "c = ?w" by (auto split: if_splits)
  moreover have "CHR '' '' \<notin> set c" by (rule cookie_value_stripped [OF Some])
  then have "c \<noteq> not_found" by (auto simp: not_found_def)
  ultimately show ?thesis using Some by (cases "kv s (v, ''cookie'')") auto
qed

end

end
