(* ===== verification/Web_Mail.thy ===== *)
theory Web_Mail
  imports Drive "HOL-Library.Product_Lexorder"
begin

text \<open>
  PennMail in the web frontend (\<open>frontend/src/http.cc\<close>): the list of a user's mails, deleting a
  mail and sending one, through the mail server or to a mail exchanger outside. The cell
  \<open>eid_vector\<close> of a user lists the hashes of the mails, each a cell that holds the mail as bits.
\<close>

section \<open>Reading\<close>

definition stol :: "string \<Rightarrow> exn + int" where
  "stol s =
     (case strtol s of
        None \<Rightarrow> Inl Invalid_argument
      | Some v \<Rightarrow> if - (2 ^ 63) \<le> v \<and> v < 2 ^ 63 then Inr v else Inl Out_of_range)"

text \<open>The mails \<open>ids\<close>, each followed by a comma; \<open>None\<close> when one of them is not stored.\<close>

primrec read_emails :: "'s env \<Rightarrow> string option \<Rightarrow> string \<Rightarrow> string list \<Rightarrow> 's \<Rightarrow> exn + (string option \<times> 's)" where
  "read_emails E fd user [] s = Inr (Some [], s)"
| "read_emails E fd user (i # is) s =
     ebind (bend_GET (call E) fd user i s) (\<lambda>(cur_email, s1).
       if cur_email = not_found then Inr (None, s1)
       else ebind (bstoby cur_email) (\<lambda>bytes.
            ebind (read_emails E fd user is s1) (\<lambda>(mails, s2).
              Inr (map_option (\<lambda>m. map (\<lambda>b. char_of (unat b)) bytes @ '','' @ m) mails, s2))))"

text \<open>\<open>std::min(size, offset + limit)\<close> in unsigned 64-bit arithmetic.\<close>

definition page_end :: "nat \<Rightarrow> nat \<Rightarrow> int \<Rightarrow> nat" where
  "page_end sz offset limit = min sz (nat ((int offset + limit) mod 2 ^ 64))"

definition email_list :: "'s env \<Rightarrow> params \<Rightarrow> string \<Rightarrow> 's \<Rightarrow> exn + (string \<times> 's)" where
  "email_list E data user s =
     ebind (get_table_fd E user s) (\<lambda>(fd, s1).
     ebind (bend_GET (call E) fd user ''eid_vector'' s1) (\<lambda>(eids, s2).
       if eids = not_found \<or> eids = [] then respond data 404 [] s2
       else
         ebind (url_params data) (\<lambda>params.
         ebind (stol (dat params ''offset'')) (\<lambda>off.
         ebind (stoi (dat params ''limit'')) (\<lambda>limit.
           let offset = nat (off mod 2 ^ 64);
               eid_vector = rev (split eids CHR '','');
               sz = length eid_vector
           in if sz < offset then respond data 400 [] s2
              else
                ebind (read_emails E fd user (drop offset (take (page_end sz offset limit) eid_vector)) s2)
                  (\<lambda>(mails, s3).
                    case mails of
                      None \<Rightarrow> respond data 500 [] s3
                    | Some m \<Rightarrow> respond data 200 (butlast (''['' @ m) @ '']'') s3))))))"

section \<open>Deleting\<close>

text \<open>
  The array for the text has no room for its terminating zero byte, which is written one byte
  past it; the model goes on as the compiled code does.
\<close>

definition email_hash :: "'s env \<Rightarrow> params \<Rightarrow> string" where
  "email_hash E params =
     (let email_data = c_string (dat params ''sender'') @ ''|'' @ c_string (dat params ''subject'') @ ''|'' @
        c_string (dat params ''timestamp'')
      in compute_hash_16 E email_data (length email_data))"

definition delete_email :: "'s env \<Rightarrow> params \<Rightarrow> string \<Rightarrow> string \<Rightarrow> 's \<Rightarrow> exn + (string \<times> 's)" where
  "delete_email E data user body s =
     ebind (get_table_fd E user s) (\<lambda>(fd, s1).
     ebind (parse_json_string body) (\<lambda>params.
       let eid = email_hash E params
       in ebind (bend_GET (call E) fd user ''eid_vector'' s1) (\<lambda>(v, s2).
          ebind (erase_entry v eid) (\<lambda>v'.
          ebind (put_or_delete E fd user ''eid_vector'' v' s2) (\<lambda>(_, s3).
          ebind (bend_DELETE (call E) fd user eid s3) (\<lambda>(status, s4).
            respond data (delete_status status) [] s4))))))"

section \<open>Sending\<close>

text \<open>The dialogue with a mail server: each line is sent and its answer read.\<close>

primrec smtp_dialogue :: "'s env \<Rightarrow> string \<Rightarrow> string list \<Rightarrow> string \<Rightarrow> 's \<Rightarrow> exn + (string \<times> 's)" where
  "smtp_dialogue E server [] answer s = Inr (answer, s)"
| "smtp_dialogue E server (l # ls) answer s =
     ebind (call E server l s) (\<lambda>(answer', s'). smtp_dialogue E server ls answer' s')"

definition domain_of :: "string \<Rightarrow> string" where
  "domain_of recipient = substr_after recipient (str_find recipient ''@'')"

definition external_lines :: "'s env \<Rightarrow> string \<Rightarrow> params \<Rightarrow> string list" where
  "external_lines E user mail =
     (let recipient = dat mail ''recipient''; t = to_string (unix_time E) in
      [''EHLO '' @ domain_of recipient @ crlf,
       ''MAIL FROM:<'' @ user @ ''>'' @ crlf,
       ''RCPT TO:<'' @ recipient @ ''>'' @ crlf,
       ''DATA'' @ crlf,
       ''From: <'' @ user @ ''>'' @ crlf @
       ''To: <'' @ recipient @ ''>'' @ crlf @
       ''Subject: '' @ dat mail ''subject'' @ crlf @
       ''Date: '' @ ctime E @
       ''Message-ID: <'' @ t @ ''.'' @ t @ ''@penncloud.com>'' @ crlf @
       crlf @ crlf @ c_string (dat mail ''message'') @ crlf @ ''.'' @ crlf])"

definition send_external :: "'s env \<Rightarrow> params \<Rightarrow> string \<Rightarrow> params \<Rightarrow> 's \<Rightarrow> exn + (outcome \<times> 's)" where
  "send_external E data user mail s =
     (case mx_records E (domain_of (dat mail ''recipient'')) of
        None \<Rightarrow> reply data 404 s
      | Some [] \<Rightarrow> reply data 404 s
      | Some (r # rs) \<Rightarrow>
          (case smtp_connect E (snd (foldl min r rs)) of
             None \<Rightarrow> reply data 500 s
           | Some server \<Rightarrow>
               ebind (smtp_dialogue E server (external_lines E user mail) [] s) (\<lambda>(status, s').
                 reply data (if only_at_start status ''250'' then 200 else 500) s')))"

text \<open>\<open>snprintf\<close> into 128 bytes cuts a line to 127, its line end too.\<close>

definition request_buf :: "string \<Rightarrow> string" where
  "request_buf l = take 127 l"

definition internal_lines :: "string \<Rightarrow> params \<Rightarrow> string list" where
  "internal_lines user mail =
     (let recipient = dat mail ''recipient'' in
      [c_string (''HELO '' @ recipient @ crlf),
       request_buf (''MAIL FROM:<'' @ c_string user @ ''>'' @ crlf),
       request_buf (''TITLE '' @ c_string (dat mail ''subject'') @ crlf),
       request_buf (''RCPT TO:<'' @ c_string recipient @ ''>'' @ crlf),
       ''DATA'' @ crlf,
       c_string (dat mail ''message'') @ crlf @ ''.'' @ crlf])"

definition mail_server :: string where
  "mail_server = ''127.0.0.1:2500''"

text \<open>An answer that is neither OK nor an error falls through to an empty redirect.\<close>

definition send_internal :: "'s env \<Rightarrow> params \<Rightarrow> string \<Rightarrow> params \<Rightarrow> 's \<Rightarrow> exn + (outcome \<times> 's)" where
  "send_internal E data user mail s =
     (case smtp_connect E mail_server of
        None \<Rightarrow> reply data 500 s
      | Some server \<Rightarrow>
          ebind (smtp_dialogue E server (internal_lines user mail) [] s) (\<lambda>(status, s').
            if only_at_start status ''+OK'' then reply data 200 s'
            else if only_at_start status ''-ERR'' then reply data 500 s'
            else Inr (Redirect [], s')))"

definition send_email :: "'s env \<Rightarrow> params \<Rightarrow> string \<Rightarrow> string \<Rightarrow> 's \<Rightarrow> exn + (outcome \<times> 's)" where
  "send_email E data user body s =
     ebind (parse_json_string body) (\<lambda>body_map.
       if domain_of (dat body_map ''recipient'') \<noteq> ''penncloud.com''
       then send_external E data user body_map s
       else send_internal E data user body_map s)"

section \<open>What the list of mails shows\<close>

lemma bytes_to_text: "map (\<lambda>b. char_of (unat b)) (map of_char m :: byte list) = m"
  by (simp add: comp_def byte_of_char)

lemma stobs_found: "stobs m \<noteq> not_found"
proof
  assume "stobs m = not_found"
  then have "CHR ''-'' \<in> set (stobs m)" by (simp add: not_found_def)
  with stobs_binary [of "CHR ''-''" m] show False by auto
qed

context web_site
begin

text \<open>The first page of one mail shows the mail that came last.\<close>

lemma email_list_last:
  assumes "inv s" and "word user" and "user \<noteq> ''passwd''" and "word eid"
    and "kv s (user, ''eid_vector'') = Some v" and "v \<noteq> not_found" and "split v CHR '','' = olds @ [eid]"
    and "kv s (user, eid) = Some (stobs m)"
    and "url_params data = Inr params" and "dat params ''offset'' = ''0''" and "dat params ''limit'' = ''1''"
    and "create_http_response 200 (''['' @ m @ '']'') (dat data ''Host'') = Inr r"
  shows "yields inv kv (email_list E data user s) r (kv s)"
proof -
  from get_table_fd_ok [OF assms(1,2)] obtain s1 where
    1: "get_table_fd E user s = Inr (Some a, s1)" "inv s1" "kv s1 = kv s" by (rule yieldsE)
  from GET_ok [OF 1(2) assms(2) word_eid_vector assms(3)] obtain s2 where
    2: "bend_GET (call E) (Some a) user ''eid_vector'' s1 = Inr (v, s2)" "inv s2" "kv s2 = kv s"
    unfolding 1(3) assms(5) option.case by (rule yieldsE)
  have mail: "kv s2 (user, eid) = Some (stobs m)" by (simp add: 2(3) assms(8))
  from GET_ok [OF 2(2) assms(2,4,3)] obtain s3 where
    3: "bend_GET (call E) (Some a) user eid s2 = Inr (stobs m, s3)" "inv s3" "kv s3 = kv s"
    by (auto simp: 2(3) assms(8) elim: yieldsE)
  have "stol ''0'' = Inr 0" "stoi ''1'' = Inr 1"
    by (simp_all add: stol_def stoi_def strtol_def isspace_def isdigit_def digit_val_def Let_def)
  moreover have "v \<noteq> []" using assms(7) by auto
  moreover have "read_emails E (Some a) user [eid] s2 = Inr (Some (m @ '',''), s3)"
    using 3(1) by (simp add: stobs_found bstoby_stobs_bytes bytes_to_text [simplified])
  moreover have "drop 0 (take (page_end (length (rev (olds @ [eid]))) 0 1) (rev (olds @ [eid]))) = [eid]"
    by (simp add: page_end_def)
  ultimately show ?thesis
    using 3(2,3) assms(6,7,12)
    by (simp add: email_list_def 1(1) 2(1) assms(9-11) Let_def respond_def butlast_append)
qed

end

end
