(* ===== verification/Web_Server.thy ===== *)
theory Web_Server
  imports Accounts Web_Mail
begin

text \<open>
  The web server (\<open>frontend/src/http.cc\<close>): the pages and the administration console, the
  handlers of each method with their routing, and the loop of one connection.
\<close>

section \<open>Administration\<close>

text \<open>
  \<open>while (tmp.front() != '?') tmp.erase(0, 1)\<close> reads past the end when there is no question
  mark. The decoded text is then cut into parameters.
\<close>

definition admin_params :: "string \<Rightarrow> exn + params" where
  "admin_params path =
     (case str_find path ''?'' of
        None \<Rightarrow> Inl Undefined_behaviour
      | Some i \<Rightarrow> params_from_url (url_decode (drop i path)))"

definition is_admin :: "params \<Rightarrow> bool" where
  "is_admin params = (map_of params ''password'' = Some ADMIN_PASSWD)"

text \<open>
  The servers of a status line are \<open>name-state\<close>; \<open>part\<close> takes the name or the state at the last
  dash. The first word is \<open>+OK\<close>.
\<close>

definition quoted_list :: "(string \<Rightarrow> nat \<Rightarrow> string) \<Rightarrow> string list \<Rightarrow> string" where
  "quoted_list part servers =
     concat (map (\<lambda>i.
       case str_rfind (servers ! i) ''-'' of
         None \<Rightarrow> []
       | Some d \<Rightarrow> [CHR 0x22] @ part (servers ! i) d @ [CHR 0x22] @
           (if i < length servers - 1 then '', '' else [])) [1..<length servers])"

definition server_states :: "string list \<Rightarrow> string" where
  "server_states = quoted_list (\<lambda>w d. drop (d + 1) w)"

definition server_names :: "string list \<Rightarrow> string" where
  "server_names = quoted_list (\<lambda>w d. take d w)"

definition fend_status :: "'s env \<Rightarrow> 's \<Rightarrow> exn + (string \<times> 's)" where
  "fend_status E s = call E (flb E) (''GET passwd null null'' @ crlf) s"

text \<open>What the console shows: the texts for the placeholders of a page.\<close>

record console =
  bservs :: string
  bstats :: string
  fservs :: string
  fstats :: string
  bend_content :: string
  bend_node :: string

definition no_console :: console where
  "no_console = \<lparr>bservs = [], bstats = [], fservs = [], fstats = [], bend_content = [], bend_node = []\<rparr>"

section \<open>Pages\<close>

definition fill_page :: "console \<Rightarrow> string \<Rightarrow> string" where
  "fill_page con html =
     (if contains html ([CHR 0x27] @ ''<|BNODES|>'' @ [CHR 0x27]) \<and>
         contains html ([CHR 0x27] @ ''<|BSTATUS|>'' @ [CHR 0x27]) \<and>
         contains html ([CHR 0x27] @ ''<|FNODES|>'' @ [CHR 0x27]) \<and>
         contains html ([CHR 0x27] @ ''<|FSTATUS|>'' @ [CHR 0x27]) \<and>
         contains html ''<|PASSWORD|>'' \<and> bservs con \<noteq> [] \<and> bstats con \<noteq> []
      then replace (replace (replace (replace (replace html
             ([CHR 0x27] @ ''<|BNODES|>'' @ [CHR 0x27]) (bservs con))
             ([CHR 0x27] @ ''<|BSTATUS|>'' @ [CHR 0x27]) (bstats con))
             ([CHR 0x27] @ ''<|FNODES|>'' @ [CHR 0x27]) (fservs con))
             ([CHR 0x27] @ ''<|FSTATUS|>'' @ [CHR 0x27]) (fstats con))
             ''<|PASSWORD|>'' ADMIN_PASSWD
      else if contains html ''<|BNODE|>'' \<and> contains html ''<|PASSWORD|>'' \<and> bend_node con \<noteq> []
      then replace (replace (replace html ''<|BCONTENT|>'' (bend_content con))
             ''<|BNODE|>'' (bend_node con)) ''<|PASSWORD|>'' ADMIN_PASSWD
      else html)"

definition page_file :: "'s env \<Rightarrow> string \<Rightarrow> string" where
  "page_file E path =
     (let stemp = src_dir E @ ''templates'' @ path @ (if path = ''/'' then ''index'' else [])
      in if has_suffix stemp ''.html'' then stemp else stemp @ ''.html'')"

definition keeps_alive :: "params \<Rightarrow> bool" where
  "keeps_alive data = (map_of data ''Connection'' = Some ''keep-alive'')"

definition allow_origin :: "params \<Rightarrow> string" where
  "allow_origin data =
     (case map_of data ''Host'' of None \<Rightarrow> [] | Some h \<Rightarrow> ''Access-Control-Allow-Origin: '' @ h @ crlf)"

text \<open>The result has the value given to \<open>do_close_connection\<close>.\<close>

definition page_response :: "params \<Rightarrow> bool \<Rightarrow> string \<Rightarrow> string \<times> bool" where
  "page_response data head html =
     (dat data ''vno'' @ (if html \<noteq> [] then '' 200 OK'' else '' 404 Not Found'') @ crlf @
      ''Content-type: text/html'' @ crlf @ allow_origin data @
      ''Access-Control-Allow-Credentials: true'' @ crlf @
      (if keeps_alive data then ''Connection: keep-alive'' else ''Connection: close'') @ crlf @
      ''Content-length: '' @ to_string (int (length html)) @ crlf @ crlf @
      (if head then [] else html),
      keeps_alive data)"

section \<open>GET\<close>

text \<open>\<open>None\<close> in the result: the flag \<open>do_close_connection\<close> is not written.\<close>

definition early :: "exn + (string \<times> 's) \<Rightarrow> exn + ((string \<times> bool option) \<times> 's)" where
  "early r = ebind r (\<lambda>(response, s). Inr ((response, None), s))"

definition render_page ::
  "'s env \<Rightarrow> params \<Rightarrow> bool \<Rightarrow> console \<Rightarrow> 's \<Rightarrow> exn + ((string \<times> bool option) \<times> 's)" where
  "render_page E data head con s =
     ebind (path_only (dat data ''path'')) (\<lambda>path.
       case page_response data head (fill_page con (slurp E (page_file E path))) of
         (response, close) \<Rightarrow> Inr ((response, Some close), s))"

definition username :: "'s env \<Rightarrow> params \<Rightarrow> string \<Rightarrow> 's \<Rightarrow> exn + (string \<times> 's)" where
  "username E data user s =
     (if user = [] then respond data 404 [] s
      else ebind (get_table_fd E user s) (\<lambda>(fd, s1).
           ebind (bend_GET (call E) fd user ''name'' s1) (\<lambda>(name, s2).
             if name = [] \<or> name = not_found then respond data 500 [] s2
             else respond data 200
               (''{'' @ [CHR 0x22] @ ''username'' @ [CHR 0x22] @ '':'' @ [CHR 0x22] @ name @ [CHR 0x22] @ ''}'') s2)))"

definition admin_content ::
  "'s env \<Rightarrow> params \<Rightarrow> bool \<Rightarrow> 's \<Rightarrow> exn + ((string \<times> bool option) \<times> 's)" where
  "admin_content E data head s =
     ebind (admin_params (dat data ''path'')) (\<lambda>aparams.
       if \<not> is_admin aparams then early (Inr (login_failure (dat data ''vno''), s))
       else case map_of aparams ''node'' of
              None \<Rightarrow> early (Inr (redirect_admin (dat data ''vno''), s))
            | Some node \<Rightarrow>
                ebind (bend_listcontent (call E) node s) (\<lambda>(html, s1).
                  render_page E data head (no_console\<lparr>bend_content := html, bend_node := node\<rparr>) s1))"

definition admin :: "'s env \<Rightarrow> params \<Rightarrow> bool \<Rightarrow> 's \<Rightarrow> exn + ((string \<times> bool option) \<times> 's)" where
  "admin E data head s =
     ebind (if contains (dat data ''path'') ''?'' then admin_params (dat data ''path'')
            else params_from_url (url_decode (dat data ''path''))) (\<lambda>aparams.
       if \<not> is_admin aparams then early (Inr (login_failure (dat data ''vno''), s))
       else ebind (bend_status (call E) (bcoord E) s) (\<lambda>(bstatus, s1).
            ebind (fend_status E s1) (\<lambda>(fstatus, s2).
              if \<not> contains bstatus ''OK'' \<or> \<not> contains fstatus ''OK'' then Inl Process_exit
              else
                let bservers = split bstatus CHR '' ''; fservers = split fstatus CHR '' ''
                in render_page E data head
                     (no_console\<lparr>bservs := server_names bservers, bstats := server_states bservers,
                        fservs := server_names fservers, fstats := server_states fservers\<rparr>) s2)))"

definition admin_command ::
  "(string \<Rightarrow> 's \<Rightarrow> exn + (string \<times> 's)) \<Rightarrow> params \<Rightarrow> 's \<Rightarrow> exn + (string \<times> 's)" where
  "admin_command command data s =
     ebind (admin_params (dat data ''path'')) (\<lambda>aparams.
       if \<not> is_admin aparams then Inr (login_failure (dat data ''vno''), s)
       else case map_of aparams ''node'' of
              None \<Rightarrow> Inr (redirect_admin (dat data ''vno''), s)
            | Some node \<Rightarrow> ebind (command node s) (\<lambda>(_, s1). Inr (redirect_admin (dat data ''vno''), s1)))"

text \<open>\<open>if_user\<close>: a page that only a user with a session sees.\<close>

definition if_user :: "params \<Rightarrow> string \<Rightarrow> exn + (string \<times> 's) \<Rightarrow> 's \<Rightarrow> exn + (string \<times> 's)" where
  "if_user data user r s = (if user = [] then Inr (login_failure (dat data ''vno''), s) else r)"

definition handle_GET :: "'s env \<Rightarrow> params \<Rightarrow> bool \<Rightarrow> 's \<Rightarrow> exn + ((string \<times> bool option) \<times> 's)" where
  "handle_GET E data head s0 =
     ebind (auth_user E data s0) (\<lambda>(user, s).
       if dat data ''path'' = ''/username'' then early (username E data user s)
       else ebind (path_only (dat data ''path'')) (\<lambda>path.
         if contains path ''/download'' then early (if_user data user (download E data user s) s)
         else if contains path ''/files-list'' then early (if_user data user (files_list E data user s) s)
         else if contains path ''/email-list'' then early (email_list E data user s)
         else if contains path ''/logout'' then early (Inr (logout (dat data ''vno''), s))
         else if contains path ''/home'' \<or> contains path ''/changepassword'' then
           (if user = [] then early (Inr (login_failure (dat data ''vno''), s))
            else render_page E data head no_console s)
         else if contains path ''/admincontent'' then admin_content E data head s
         else if contains path ''/admin'' then admin E data head s
         else if contains path ''/shutdown'' then
           early (admin_command (bend_shutdown (call E) (bcoord E)) data s)
         else if contains path ''/restart'' then
           early (admin_command (bend_restart (call E) (bcoord E)) data s)
         else render_page E data head no_console s))"

section \<open>POST\<close>

text \<open>\<open>regex_replace\<close> of \<open>.html\<close> (the dot is any character but a line end) and of \<open>index\<close>.\<close>

fun drop_html :: "string \<Rightarrow> string" where
  "drop_html [] = []"
| "drop_html (c # s) =
     (if c \<noteq> CHR 0x0A \<and> c \<noteq> CHR 0x0D \<and> prefix ''html'' s then drop_html (drop 4 s) else c # drop_html s)"

fun drop_index :: "string \<Rightarrow> string" where
  "drop_index [] = []"
| "drop_index (c # s) = (if prefix ''index'' (c # s) then drop_index (drop 4 s) else c # drop_index s)"

definition clean_path :: "string \<Rightarrow> string" where
  "clean_path path = drop_index (drop_html path)"

definition post_page :: "params \<Rightarrow> string \<Rightarrow> params \<Rightarrow> exn + string" where
  "post_page data path params =
     (let cookie = (case map_of params ''Set-Cookie'' of None \<Rightarrow> [] | Some v \<Rightarrow> ''Set-Cookie: '' @ v @ crlf)
      in ebind (post_redirect (clean_path path) (AList.delete ''Set-Cookie'' params)) (\<lambda>location.
           Inr (dat data ''vno'' @ '' 303 See Other'' @ crlf @ cookie @ ''Location: '' @ location @ crlf @
             ''Content-Type: text/html; charset=UTF-8'' @ crlf @ ''Content-Length: 0'' @ crlf @
             allow_origin data @ ''Access-Control-Allow-Credentials: true'')))"

definition post_action :: "'s env \<Rightarrow> params \<Rightarrow> string \<Rightarrow> string \<Rightarrow> string \<Rightarrow> 's \<Rightarrow> exn + (outcome \<times> 's)" where
  "post_action E data path user body s =
     (let guarded = (\<lambda>r. if user = [] then Inr (Reply (login_failure (dat data ''vno'')), s) else r) in
      if path = ''/changepassword'' then guarded (change_password E data user body s)
      else if path = ''/move-file'' then guarded (move_file E data user body s)
      else if path = ''/rename-file'' then guarded (rename_file E data user body s)
      else if path = ''/create-folder'' then guarded (create_folder E data user body s)
      else if path = ''/upload-file'' then guarded (upload_file E data user body s)
      else if path = ''/send-email'' then guarded (send_email E data user body s)
      else if path = ''/signup'' then signup E body s
      else if path = ''/login'' then login E body s
      else Inr (Redirect [], s))"

definition handle_POST :: "'s env \<Rightarrow> string \<Rightarrow> params \<Rightarrow> 's \<Rightarrow> exn + (string \<times> 's)" where
  "handle_POST E buf data s =
     ebind (auth_user E data s) (\<lambda>(user, s1).
     ebind (body_of buf data) (\<lambda>body.
       let path = clean_path (dat data ''path'')
       in ebind (post_action E data path user body s1) (\<lambda>(result, s2).
            case result of
              Reply r \<Rightarrow> Inr (r, s2)
            | Redirect params \<Rightarrow> ebind (post_page data path params) (\<lambda>r. Inr (r, s2)))))"

section \<open>The other methods\<close>

definition handle_DELETE :: "'s env \<Rightarrow> string \<Rightarrow> params \<Rightarrow> 's \<Rightarrow> exn + (string \<times> 's)" where
  "handle_DELETE E buf data s =
     ebind (auth_user E data s) (\<lambda>(user, s1).
     ebind (body_of buf data) (\<lambda>body.
     ebind (path_only (dat data ''path'')) (\<lambda>path.
       if contains path ''/delete-file'' then if_user data user (delete_file E data user body s1) s1
       else if contains (dat data ''path'') ''/delete-email'' then if_user data user (delete_email E data user body s1) s1
       else Inl Process_exit)))"

definition handle_OPTIONS :: "string \<Rightarrow> exn + string" where
  "handle_OPTIONS host = create_http_response 200 [] host"

text \<open>\<open>return NULL\<close> where a string is expected.\<close>

definition handle_ERR :: "exn + string" where
  "handle_ERR = Inl Undefined_behaviour"

section \<open>A connection\<close>

text \<open>
  One round of the loop: \<open>read\<close> gave \<open>chunk\<close>; \<open>None\<close> is the end of the stream or an error,
  after which the loop goes on. The result has the response, if there was one, and whether the
  loop ends. \<open>do_close\<close> keeps its value from one request to the next.
\<close>

record client =
  buf :: string
  reqdata :: params
  do_close :: bool

definition new_client :: client where
  "new_client = \<lparr>buf = [], reqdata = [], do_close = False\<rparr>"

definition answer_request ::
  "'s env \<Rightarrow> string \<Rightarrow> params \<Rightarrow> 's \<Rightarrow> exn + ((string \<times> bool option) option \<times> 's)" where
  "answer_request E b data s =
     (let whole = (\<lambda>h. ebind (is_full_body b data) (\<lambda>full.
            if full then ebind (h b data s) (\<lambda>(r, s'). Inr (Some (r, None), s')) else Inr (None, s)));
          page = (\<lambda>head. ebind (handle_GET E data head s) (\<lambda>(r, s'). Inr (Some r, s')))
      in if starts_with b ''GET '' then page False
         else if starts_with b ''HEAD '' then page True
         else if starts_with b ''POST '' then whole (handle_POST E)
         else if starts_with b ''DELETE'' then whole (handle_DELETE E)
         else if starts_with b ''OPTIONS ''
         then ebind (handle_OPTIONS (dat data ''Host'')) (\<lambda>r. Inr (Some (r, None), s))
         else ebind handle_ERR (\<lambda>r. Inr (Some (r, None), s)))"

definition handle_http_client ::
  "'s env \<Rightarrow> string list \<Rightarrow> string option \<Rightarrow> client \<Rightarrow> 's \<Rightarrow> exn + ((string option \<times> client) \<times> 's)" where
  "handle_http_client E lines chunk c s =
     (case chunk of
        None \<Rightarrow> Inr ((None, c), s)
      | Some r \<Rightarrow>
          let b = buf c @ r;
              data = (if reqdata c = [] then get_client_params b else reqdata c);
              chunked = (map_option (map to_lower) (map_of data ''Transfer-Encoding'') = Some ''chunked'')
          in ebind (if chunked then read_from_chunk_transfer b lines else Inr ()) (\<lambda>_.
             ebind (answer_request E b data s) (\<lambda>(result, s').
               case result of
                 None \<Rightarrow> Inr ((None, c\<lparr>buf := b, reqdata := data\<rparr>), s')
               | Some (response, close) \<Rightarrow>
                   Inr ((Some (c_string (response @ crlf @ crlf)),
                         \<lparr>buf = [], reqdata = [], do_close = (case close of None \<Rightarrow> do_close c | Some v \<Rightarrow> v)\<rparr>), s'))))"

section \<open>A connection and its reads\<close>

text \<open>The loop over the reads of a connection, with the responses it sends.\<close>

primrec run_client ::
  "'s env \<Rightarrow> string list \<Rightarrow> string option list \<Rightarrow> client \<Rightarrow> 's \<Rightarrow> exn + ((string list \<times> client) \<times> 's)" where
  "run_client E lines [] c s = Inr (([], c), s)"
| "run_client E lines (r # rs) c s =
     ebind (handle_http_client E lines r c s) (\<lambda>((response, c'), s').
       case response of
         None \<Rightarrow> run_client E lines rs c' s'
       | Some text \<Rightarrow>
           if do_close c' then Inr (([text], c'), s')
           else ebind (run_client E lines rs c' s') (\<lambda>((texts, c''), s''). Inr ((text # texts, c''), s'')))"

lemma str_find_append: "str_find p d = Some i \<Longrightarrow> str_find (p @ x) d = Some i"
proof -
  assume "str_find p d = Some i"
  then have i: "i \<le> length p" "prefix d (drop i p)" "\<forall>m < i. \<not> prefix d (drop m p)"
    by (simp_all add: str_find_eq_Some_iff)
  have "\<not> prefix d (drop m (p @ x))" if "m < i" for m
  proof
    assume "prefix d (drop m (p @ x))"
    moreover have "length d < length (drop m p)"
      using prefix_length_le [OF i(2)] i(1) that by simp
    ultimately have "prefix d (drop m p)" using i(1) that by (auto simp: prefix_append)
    with i(3) that show False by blast
  qed
  with i show ?thesis by (auto simp: str_find_eq_Some_iff)
qed

definition chunked_request :: "params \<Rightarrow> bool" where
  "chunked_request data = (map_option (map to_lower) (map_of data ''Transfer-Encoding'') = Some ''chunked'')"

lemma is_full_body_iff:
  assumes "stoi (dat data ''Content-Length'') = Inr n" and "0 \<le> n" and "body_start b + nat n < 2 ^ 64"
  shows "is_full_body b data = Inr (body_start b + nat n \<le> length b)"
proof -
  have "nat n < 2 ^ 64" using assms(3) by (rule le_less_trans [rotated]) simp
  then have "n < 2 ^ 64" by (simp add: nat_less_iff assms(2))
  then have "nat (n mod 2 ^ 64) = nat n" using assms(2) by simp
  then show ?thesis using assms by (simp add: is_full_body_def add.commute)
qed

lemma answer_post:
  assumes "starts_with b ''POST ''" and "is_full_body b data = Inr full"
  shows "answer_request E b data s =
    (if full then ebind (handle_POST E b data s) (\<lambda>(r, s'). Inr (Some (r, None), s')) else Inr (None, s))"
proof -
  obtain t where b: "b = ''POST '' @ t" using assms(1) by (auto simp: starts_with_def prefix_def)
  have "\<not> starts_with b ''GET ''" "\<not> starts_with b ''HEAD ''" by (simp_all add: b starts_with_def)
  with assms show ?thesis by (simp add: answer_request_def Let_def)
qed

lemma post_answer:
  assumes "starts_with p ''POST ''" and "str_find p (crlf @ crlf) \<noteq> None"
    and "stoi (dat data ''Content-Length'') = Inr n" and "0 \<le> n" and "length whole < 2 ^ 64"
    and "length whole = body_start p + nat n" and "prefix p b"
  shows "answer_request E b data s =
    (if length whole \<le> length b then ebind (handle_POST E b data s) (\<lambda>(r, s'). Inr (Some (r, None), s'))
     else Inr (None, s))"
proof (rule answer_post)
  have start: "body_start b = body_start p"
    using assms(2,7) str_find_append by (force simp: body_start_def prefix_def)
  show "is_full_body b data = Inr (length whole \<le> length b)"
    using is_full_body_iff [OF assms(3,4), of b] assms(5,6) start by simp
  show "starts_with b ''POST ''"
    using assms(1,7) unfolding starts_with_def by (rule prefix_order.trans)
qed

lemma get_client_params_neq_Nil: "get_client_params b \<noteq> []"
proof -
  have put: "map_put k v m \<noteq> []" for k v :: string and m by (cases m) auto
  have "fold header_line ls m \<noteq> []" if "m \<noteq> []" for ls m
    using that by (induction ls arbitrary: m) (auto simp: header_line_def put split: prod.split)
  then show ?thesis by (simp add: get_client_params_def put split: prod.split)
qed

definition client_data :: "client \<Rightarrow> string \<Rightarrow> params" where
  "client_data c r = (if reqdata c = [] then get_client_params (buf c @ r) else reqdata c)"

lemma client_step:
  assumes "\<not> chunked_request (client_data c r)" and "\<not> do_close c"
  shows "handle_http_client E lines (Some r) c s =
    ebind (answer_request E (buf c @ r) (client_data c r) s) (\<lambda>(result, s').
      case result of
        None \<Rightarrow> Inr ((None, \<lparr>buf = buf c @ r, reqdata = client_data c r, do_close = False\<rparr>), s')
      | Some (response, close) \<Rightarrow> Inr ((Some (c_string (response @ crlf @ crlf)),
          \<lparr>buf = [], reqdata = [], do_close = (case close of None \<Rightarrow> False | Some v \<Rightarrow> v)\<rparr>), s'))"
proof -
  have data: "(if reqdata c = [] then get_client_params (buf c @ r) else reqdata c) = client_data c r"
    by (simp add: client_data_def)
  have no: "(map_option (map to_lower) (map_of (client_data c r) ''Transfer-Encoding'') = Some ''chunked'') = False"
    using assms(1) by (simp add: chunked_request_def)
  have c: "c\<lparr>buf := x, reqdata := y\<rparr> = \<lparr>buf = x, reqdata = y, do_close = False\<rparr>" for x y
    using assms(2) by (cases c) simp
  show ?thesis
    unfolding handle_http_client_def option.case Let_def data no if_False ebind_Inr
    using assms(2) by (intro arg_cong2 [where f = ebind, OF refl]) (auto simp: c split: option.split)
qed

lemma post_rest:
  assumes "starts_with p ''POST ''" and "str_find p (crlf @ crlf) \<noteq> None"
    and "\<not> chunked_request data" and "data \<noteq> []"
    and "stoi (dat data ''Content-Length'') = Inr n" and "0 \<le> n" and "length whole < 2 ^ 64"
    and "length whole = body_start p + nat n"
    and "\<not> do_close c" and "buf c @ concat (r # rs) = whole" and "prefix p (buf c @ r)" and "[] \<notin> set rs"
    and "client_data c r = data"
  shows "run_client E lines (map Some (r # rs)) c s =
    ebind (handle_POST E whole data s) (\<lambda>(r, s'). Inr (([c_string (r @ crlf @ crlf)], new_client), s'))"
  using assms(9-13)
proof (induction rs arbitrary: c r)
  case Nil
  note ans = post_answer [OF assms(1,2,5-8) Nil.prems(3)]
  have whole: "buf c @ r = whole" using Nil.prems(2) by simp
  show ?case
    using Nil.prems(1,5) assms(3) ans [of E s]
    by (cases "handle_POST E whole data s") (auto simp: client_step whole new_client_def)
next
  case (Cons r' rs)
  note ans = post_answer [OF assms(1,2,5-8) Cons.prems(3)]
  have "r' \<noteq> []" using Cons.prems(4) by auto
  then have short: "\<not> length whole \<le> length (buf c @ r)" unfolding Cons.prems(2) [symmetric] by simp
  let ?c = "\<lparr>buf = buf c @ r, reqdata = data, do_close = False\<rparr>"
  have "run_client E lines (map Some (r # r' # rs)) c s = run_client E lines (map Some (r' # rs)) ?c s"
    using Cons.prems(1,5) assms(3) ans [of E s] short by (simp add: client_step)
  also have "\<dots> = ebind (handle_POST E whole data s) (\<lambda>(r, s'). Inr (([c_string (r @ crlf @ crlf)], new_client), s'))"
    by (rule Cons.IH) (use Cons.prems assms(4) prefix_prefix [OF Cons.prems(3), of r'] in
        \<open>simp_all add: client_data_def\<close>)
  finally show ?case .
qed

section \<open>Lemmas: the headers that matter\<close>

text \<open>
  What a POST request reads of its headers. The request's data holds more: every line of the
  text, those of the body included, sets a parameter.
\<close>

definition post_headers :: "string list" where
  "post_headers = [''path'', ''vno'', ''Host'', ''Cookie'', ''Content-Length'', ''Transfer-Encoding'',
     ''X-File-Path'', ''X-File-Name'']"

lemma handle_POST_headers:
  assumes "\<forall>k \<in> set post_headers. map_of d k = map_of d' k"
  shows "handle_POST E b d s = handle_POST E b d' s"
proof -
  have m: "map_of d ''Host'' = map_of d' ''Host''" "map_of d ''Cookie'' = map_of d' ''Cookie''"
    and dat: "dat d ''path'' = dat d' ''path''" "dat d ''vno'' = dat d' ''vno''" "dat d ''Host'' = dat d' ''Host''"
    "dat d ''Content-Length'' = dat d' ''Content-Length''" "dat d ''X-File-Path'' = dat d' ''X-File-Path''"
    "dat d ''X-File-Name'' = dat d' ''X-File-Name''"
    using assms by (simp_all add: post_headers_def dat_def)
  have r: "reply d c x = reply d' c x" for c and x :: 'a by (simp only: reply_def dat)
  have a: "auth_user E d x = auth_user E d' x" for x by (simp only: auth_user_def m)
  have b: "body_of b d = body_of b d'" by (simp only: body_of_def dat)
  have c: "replace_cell E d f u k k' v x = replace_cell E d' f u k k' v x" for f u k k' v x
    by (simp only: replace_cell_def r)
  have files: "change_password E d u y x = change_password E d' u y x" "move_file E d u y x = move_file E d' u y x"
    "rename_file E d u y x = rename_file E d' u y x" "create_folder E d u y x = create_folder E d' u y x"
    "upload_file E d u y x = upload_file E d' u y x" for u y x
    by (simp_all only: change_password_def move_file_def rename_file_def create_folder_def upload_file_def dat r c)
  have mail: "send_email E d u y x = send_email E d' u y x" for u y x
    by (simp only: send_email_def send_external_def send_internal_def r)
  have page: "post_page d q ps = post_page d' q ps" for q ps
    by (simp only: post_page_def allow_origin_def dat m)
  show ?thesis by (simp only: handle_POST_def post_action_def a b dat files mail page)
qed

end
