(* ===== verification/Smtp.thy ===== *)
theory Smtp
  imports Drive
begin

text \<open>
  The mail server (\<open>frontend/smtp_server.cc\<close>): one connection as a state machine over the bytes
  it reads, with its fixed buffers and the recipients it allocates, and the delivery of a mail
  into the mailboxes of the recipients.
\<close>

section \<open>Commands\<close>

datatype instruction =
    HELO_INT | MAIL_FROM | RCPT_TO | DATA | QUIT | RSET | NOOP | UNKNOWN_COMMAND | TITLE

text \<open>\<open>strncasecmp\<close> of the first bytes with a keyword.\<close>

definition is_keyword :: "string \<Rightarrow> string \<Rightarrow> bool" where
  "is_keyword kw line = (map to_lower (take (length kw) line) = map to_lower kw)"

definition identify_instruction :: "string \<Rightarrow> instruction" where
  "identify_instruction line =
     (let n = length line in
      if n = 4 \<and> is_keyword ''QUIT'' line then QUIT
      else if n = 4 \<and> is_keyword ''DATA'' line then DATA
      else if n = 4 \<and> is_keyword ''RSET'' line then RSET
      else if n = 4 \<and> is_keyword ''NOOP'' line then NOOP
      else if 5 < n \<and> is_keyword ''HELO '' line then HELO_INT
      else if 5 < n \<and> is_keyword ''TITLE '' line then TITLE
      else if 8 < n \<and> is_keyword ''RCPT TO:'' line then RCPT_TO
      else if 10 < n \<and> is_keyword ''MAIL FROM:'' line then MAIL_FROM
      else UNKNOWN_COMMAND)"

text \<open>A byte before the first \<open>@\<close> and one after it.\<close>

definition verify_domain :: "string \<Rightarrow> bool" where
  "verify_domain domain =
     (case str_find domain ''@'' of None \<Rightarrow> False | Some i \<Rightarrow> i \<noteq> 0 \<and> length domain - i \<noteq> 1)"

section \<open>A session\<close>

text \<open>
  \<open>NEW\<close>, \<open>READY\<close>, \<open>TRANSACTION\<close> and the state in which mail text is read. A recipient is a
  pointer to allocated memory; \<open>Freed\<close> is one whose memory was freed: the pointer is kept.
\<close>

datatype smtp_state = NEW | READY | TRANSACTION | DATA_STATE

datatype slot = Held string | Freed

record session =
  my_name :: string
  mail_from_buffer :: string
  rcpt_to_buffer :: "slot list"
  rcpt_to_buffer_idx :: nat
  data_buffer :: string
  title :: string
  state :: smtp_state
  read_buffer :: string
  close_connection :: bool
  written :: "string list"

definition new_session :: session where
  "new_session = \<lparr>my_name = [], mail_from_buffer = [], rcpt_to_buffer = [], rcpt_to_buffer_idx = 0,
     data_buffer = [], title = [], state = NEW, read_buffer = [], close_connection = False,
     written = [''220 localhost Simple Mail Transfer Service Ready'' @ crlf]\<rparr>"

definition smtp_reply :: "string \<Rightarrow> session \<Rightarrow> session" where
  "smtp_reply msg s = s\<lparr>written := written s @ [msg @ crlf]\<rparr>"

text \<open>Every pointer of the array that is not null is freed, whether it was freed before or not.\<close>

definition free_recipients :: "session \<Rightarrow> exn + session" where
  "free_recipients s =
     (if Freed \<in> set (rcpt_to_buffer s) then Inl Undefined_behaviour
      else Inr (s\<lparr>rcpt_to_buffer := map (\<lambda>_. Freed) (rcpt_to_buffer s)\<rparr>))"

definition reset_session :: "session \<Rightarrow> exn + session" where
  "reset_session s =
     free_recipients (s\<lparr>state := READY, rcpt_to_buffer_idx := 0, my_name := [], mail_from_buffer := [],
       data_buffer := []\<rparr>)"

section \<open>Commands in their states\<close>

definition bad_command :: "instruction \<Rightarrow> session \<Rightarrow> session" where
  "bad_command i s =
     (if i \<noteq> UNKNOWN_COMMAND then smtp_reply ''503 Bad sequence of commands'' s
      else smtp_reply ''500 Syntax error, command unrecognized'' s)"

text \<open>
  The text after the opening bracket at \<open>k\<close>, up to the closing one or the end of the line; it is
  copied into 129 bytes with its terminating zero.
\<close>

definition bracketed :: "nat \<Rightarrow> string \<Rightarrow> exn + string" where
  "bracketed k line =
     (let t = takeWhile (\<lambda>c. c \<noteq> CHR ''>'') (drop (k + 1) line)
      in if 129 \<le> length t then Inl Undefined_behaviour else Inr (c_string t))"

definition bracket_error :: string where
  "bracket_error = ''500 Syntax error, spaces between : and < or domain not bound in <>''"

text \<open>The name has 129 bytes; a zero is written two bytes after its end.\<close>

definition command_new :: "instruction \<Rightarrow> string \<Rightarrow> session \<Rightarrow> exn + session" where
  "command_new i line s =
     (if i \<noteq> HELO_INT then Inr (bad_command i s)
      else if 129 \<le> length line + 2 then Inl Undefined_behaviour
      else Inr (smtp_reply ''250 localhost'' (s\<lparr>my_name := c_string (drop 5 line), state := READY\<rparr>)))"

definition mail_from :: "string \<Rightarrow> session \<Rightarrow> exn + session" where
  "mail_from line s =
     (if line ! 10 \<noteq> CHR ''<'' then Inr (smtp_reply bracket_error s)
      else ebind (bracketed 10 line) (\<lambda>a.
             if \<not> verify_domain a
             then Inr (smtp_reply ''500 Syntax error, domain must follow the format *@*'' s)
             else Inr (smtp_reply ''250 OK'' (s\<lparr>mail_from_buffer := a, state := TRANSACTION\<rparr>))))"

definition set_slot :: "nat \<Rightarrow> slot \<Rightarrow> slot list \<Rightarrow> slot list" where
  "set_slot i x xs = (if i < length xs then xs[i := x] else xs @ [x])"

text \<open>
  The array of recipients has 100 places. The copy is allocated without a byte for its zero: the
  zero is written past its memory for every recipient, which the allocator's padding takes up or
  not; the model goes on as if it did.
\<close>

definition rcpt_to :: "string \<Rightarrow> session \<Rightarrow> exn + session" where
  "rcpt_to line s =
     (if line ! 8 \<noteq> CHR ''<'' then Inr (smtp_reply bracket_error s)
      else ebind (bracketed 8 line) (\<lambda>a.
             if \<not> verify_domain a
             then Inr (smtp_reply ''550 Requested action not taken: domain syntax incorrect'' s)
             else if 100 \<le> rcpt_to_buffer_idx s then Inl Undefined_behaviour
             else Inr (smtp_reply ''250 OK''
               (s\<lparr>rcpt_to_buffer := set_slot (rcpt_to_buffer_idx s) (Held a) (rcpt_to_buffer s),
                  rcpt_to_buffer_idx := rcpt_to_buffer_idx s + 1\<rparr>))))"

definition reset :: "session \<Rightarrow> exn + session" where
  "reset s = ebind (reset_session s) (\<lambda>s'. Inr (smtp_reply ''250 OK'' s'))"

definition quit :: "session \<Rightarrow> session" where
  "quit s = smtp_reply ''221 <localhost> Service closing transmission channel'' (s\<lparr>close_connection := True\<rparr>)"

definition command_ready :: "instruction \<Rightarrow> string \<Rightarrow> session \<Rightarrow> exn + session" where
  "command_ready i line s =
     (case i of
        MAIL_FROM \<Rightarrow> mail_from line s
      | RSET \<Rightarrow> reset s
      | QUIT \<Rightarrow> Inr (quit s)
      | NOOP \<Rightarrow> Inr (smtp_reply ''250 OK'' s)
      | _ \<Rightarrow> Inr (bad_command i s))"

text \<open>\<open>title.substr(6)\<close>: a line of six bytes has an empty title.\<close>

definition command_transaction :: "instruction \<Rightarrow> string \<Rightarrow> session \<Rightarrow> exn + session" where
  "command_transaction i line s =
     (case i of
        RCPT_TO \<Rightarrow> rcpt_to line s
      | TITLE \<Rightarrow>
          ebind (substr (c_string line) 6 (length line)) (\<lambda>t. Inr (smtp_reply ''250 OK'' (s\<lparr>title := t\<rparr>)))
      | DATA \<Rightarrow>
          Inr (if rcpt_to_buffer_idx s < 1
               then smtp_reply ''503 Bad sequence of commands, please specify at least 1 recipient'' s
               else smtp_reply ''354 Start mail input, end with <CRLF>.<CRLF>'' (s\<lparr>state := DATA_STATE\<rparr>))
      | RSET \<Rightarrow> reset s
      | QUIT \<Rightarrow> Inr (quit s)
      | NOOP \<Rightarrow> Inr (smtp_reply ''250 OK'' s)
      | _ \<Rightarrow> Inr (bad_command i s))"

text \<open>A line that follows \<open>DATA\<close> in the same read is dropped.\<close>

definition smtp_command :: "string \<Rightarrow> session \<Rightarrow> exn + session" where
  "smtp_command line s =
     (let i = identify_instruction line in
      case state s of
        NEW \<Rightarrow> command_new i line s
      | READY \<Rightarrow> command_ready i line s
      | TRANSACTION \<Rightarrow> command_transaction i line s
      | DATA_STATE \<Rightarrow> Inr s)"

text \<open>The complete lines of the buffer, and what is left.\<close>

function smtp_lines :: "string \<Rightarrow> session \<Rightarrow> exn + (string \<times> session)" where
  "smtp_lines b s =
     (case str_find b crlf of
        None \<Rightarrow> Inr (b, s)
      | Some i \<Rightarrow> ebind (smtp_command (take i b) s) (smtp_lines (drop (i + 2) b)))"
  by pat_completeness auto
termination
  by (relation "measure (\<lambda>(b, s). length b)") (auto dest: find_crlf_pos)

declare smtp_lines.simps [simp del]

section \<open>Delivery\<close>

text \<open>
  A mail without a title comes from another server: its subject is the text after the first
  \<open>Subject: \<close>; without one the search's null pointer is read, and without a line end after it
  the bytes past the text.
\<close>

definition mail_title :: "session \<Rightarrow> string \<Rightarrow> exn + string" where
  "mail_title s text =
     (if title s \<noteq> [] then Inr (title s)
      else case str_find (c_string text) ''Subject: '' of
             None \<Rightarrow> Inl Undefined_behaviour
           | Some k \<Rightarrow>
               if CHR 0x0D \<notin> set (drop (k + 9) text) then Inl Undefined_behaviour
               else Inr (takeWhile (\<lambda>c. c \<noteq> CHR 0x0D) (drop (k + 9) text)))"

definition mail_body :: "bool \<Rightarrow> string \<Rightarrow> exn + string" where
  "mail_body external text =
     (let d = c_string text in
      if \<not> external then Inr (if length d < 5 then d else take (length d - 5) d)
      else
        let start = (case str_find d (crlf @ crlf) of None \<Rightarrow> 3 | Some i \<Rightarrow> i + 4)
        in ebind (substr d start (length d)) (\<lambda>t.
             if length t < 5 then Inl Undefined_behaviour else Inr (take (length t - 5) t)))"

text \<open>\<open>ctime\<close> ends in a line end, which is cut off.\<close>

definition mail_id :: "'s env \<Rightarrow> string \<Rightarrow> string \<Rightarrow> string" where
  "mail_id E sender subject =
     (let email_data = sender @ ''|'' @ c_string subject @ ''|'' @ butlast (ctime E)
      in compute_hash_16 E email_data (length email_data))"

text \<open>The order of the fields is that of an unordered map, which the standard leaves open.\<close>

definition mail_json :: "'s env \<Rightarrow> string \<Rightarrow> string \<Rightarrow> string \<Rightarrow> string" where
  "mail_json E sender subject message =
     map_to_json [(''sender'', sender), (''subject'', subject), (''timestamp'', butlast (ctime E)),
       (''message'', message)]"

definition deliver_one ::
  "'s env \<Rightarrow> string option \<Rightarrow> bool \<Rightarrow> string \<Rightarrow> string \<Rightarrow> string \<Rightarrow> slot \<Rightarrow> 's \<Rightarrow> exn + (string \<times> 's)" where
  "deliver_one E fd external sender subject text rcpt s =
     (case rcpt of
        Freed \<Rightarrow> Inl Undefined_behaviour
      | Held recipient \<Rightarrow>
          let eid = mail_id E sender subject
          in ebind (bend_GET (call E) fd recipient ''eid_vector'' s) (\<lambda>(eids, s1).
             ebind (bend_PUT (call E) fd recipient ''eid_vector''
               (if eids = not_found then eid else eids @ '','' @ eid) s1) (\<lambda>(_, s2).
             ebind (mail_body external text) (\<lambda>message.
             ebind (bend_PUT (call E) fd recipient eid (stobs (mail_json E sender subject message)) s2) (\<lambda>(status, s3).
               Inr (if only_at_start status ''+OK''
                    then (if external then ''250 OK'' else ''+OK '' @ recipient)
                    else (if external then ''550 Requested action not taken: mailbox unavailable''
                          else ''-ERR '' @ recipient), s3))))))"

primrec deliver_all ::
  "'s env \<Rightarrow> string option \<Rightarrow> bool \<Rightarrow> string \<Rightarrow> string \<Rightarrow> string \<Rightarrow> slot list \<Rightarrow> session \<Rightarrow> 's \<Rightarrow>
     exn + (session \<times> 's)" where
  "deliver_all E fd external sender subject text [] sess s = Inr (sess, s)"
| "deliver_all E fd external sender subject text (r # rs) sess s =
     ebind (deliver_one E fd external sender subject text r s) (\<lambda>(msg, s1).
       deliver_all E fd external sender subject text rs (smtp_reply msg sess) s1)"

text \<open>
  The storage server asked is the one of the name given with \<open>HELO\<close>, for all recipients. The
  title of the mail stays set for the next one.
\<close>

definition send_mail :: "'s env \<Rightarrow> session \<Rightarrow> string \<Rightarrow> 's \<Rightarrow> exn + (session \<times> 's)" where
  "send_mail E sess text s =
     ebind (mail_title sess text) (\<lambda>subject.
     ebind (call E coord_address (''HELO passwd '' @ my_name sess @ crlf) s) (\<lambda>(coor_message, s1).
     ebind (substr coor_message 4 (length coor_message - 4)) (\<lambda>a.
     ebind (deliver_all E (create_connect_socket a) (title sess = []) (mail_from_buffer sess) subject text
       (take (rcpt_to_buffer_idx sess) (rcpt_to_buffer sess)) (sess\<lparr>title := subject\<rparr>) s1) (\<lambda>(sess1, s2).
     ebind (reset_session sess1) (\<lambda>sess2. Inr (smtp_reply ''250 OK'' sess2, s2))))))"

section \<open>Reading\<close>

definition end_of_mail :: string where
  "end_of_mail = crlf @ ''.'' @ crlf"

text \<open>
  The search begins at the bytes just read, with two bytes before them: an end that was cut
  after its dot is not found.
\<close>

definition received_dot :: "nat \<Rightarrow> string \<Rightarrow> bool" where
  "received_dot idx text =
     list_ex (\<lambda>i. 2 \<le> i \<and> take 5 (drop (i - 2) text) = end_of_mail) [idx..<length text - 2]"

text \<open>
  The buffers have 2000 bytes; the text of a mail that ends needs one more for the zero behind it,
  where its length is taken.
\<close>

definition read_data :: "'s env \<Rightarrow> string \<Rightarrow> session \<Rightarrow> 's \<Rightarrow> exn + (session \<times> 's)" where
  "read_data E chunk sess s =
     (let text = data_buffer sess @ chunk in
      if 2000 < length text then Inl Undefined_behaviour
      else if received_dot (length (data_buffer sess)) text
      then (if length text = 2000 then Inl Undefined_behaviour else send_mail E sess text s)
      else Inr (sess\<lparr>data_buffer := text\<rparr>, s))"

definition read_commands :: "string \<Rightarrow> session \<Rightarrow> exn + session" where
  "read_commands chunk sess =
     (let b = read_buffer sess @ chunk in
      if 2000 < length b then Inl Undefined_behaviour
      else ebind (smtp_lines b sess) (\<lambda>(rest, sess'). Inr (sess'\<lparr>read_buffer := rest\<rparr>)))"

definition worker_read :: "'s env \<Rightarrow> string \<Rightarrow> session \<Rightarrow> 's \<Rightarrow> exn + (session \<times> 's)" where
  "worker_read E chunk sess s =
     (if state sess = DATA_STATE then read_data E chunk sess s
      else ebind (read_commands chunk sess) (\<lambda>sess'. Inr (sess', s)))"

text \<open>The reads of a connection, one after the other.\<close>

primrec worker_reads :: "'s env \<Rightarrow> string list \<Rightarrow> session \<Rightarrow> 's \<Rightarrow> exn + (session \<times> 's)" where
  "worker_reads E [] sess s = Inr (sess, s)"
| "worker_reads E (chunk # chunks) sess s =
     ebind (worker_read E chunk sess s) (\<lambda>(sess1, s1). worker_reads E chunks sess1 s1)"

text \<open>A session and the site behind it, as reads follow each other; other clients change the site.\<close>

inductive smtp_reach :: "'s env \<Rightarrow> session \<Rightarrow> bool" for E where
  connected: "smtp_reach E new_session"
| read: "smtp_reach E sess \<Longrightarrow> \<not> close_connection sess \<Longrightarrow> worker_read E chunk sess s = Inr (sess', s') \<Longrightarrow>
    smtp_reach E sess'"


section \<open>Lemmas: the states\<close>

text \<open>
  From \<open>MAIL FROM\<close> on the sender is an address, mail text is only read for at least one
  recipient, there are at most 100, and every recipient that counts is allocated and an address.
\<close>

definition recipients_ok :: "session \<Rightarrow> bool" where
  "recipients_ok s =
     (rcpt_to_buffer_idx s \<le> length (rcpt_to_buffer s) \<and> length (rcpt_to_buffer s) \<le> 100 \<and>
      (\<forall>i < rcpt_to_buffer_idx s. \<exists>r. rcpt_to_buffer s ! i = Held r \<and> verify_domain r))"

definition session_ok :: "session \<Rightarrow> bool" where
  "session_ok s =
     (recipients_ok s \<and>
      (state s = TRANSACTION \<or> state s = DATA_STATE \<longrightarrow> verify_domain (mail_from_buffer s)) \<and>
      (state s = DATA_STATE \<longrightarrow> 0 < rcpt_to_buffer_idx s) \<and>
      (state s = NEW \<or> state s = READY \<longrightarrow> rcpt_to_buffer_idx s = 0))"

lemma smtp_reply_fields [simp]:
  "my_name (smtp_reply m s) = my_name s" "mail_from_buffer (smtp_reply m s) = mail_from_buffer s"
  "rcpt_to_buffer (smtp_reply m s) = rcpt_to_buffer s" "rcpt_to_buffer_idx (smtp_reply m s) = rcpt_to_buffer_idx s"
  "data_buffer (smtp_reply m s) = data_buffer s" "title (smtp_reply m s) = title s" "state (smtp_reply m s) = state s"
  "read_buffer (smtp_reply m s) = read_buffer s" "close_connection (smtp_reply m s) = close_connection s"
  by (simp_all add: smtp_reply_def)

lemma recipients_ok_reply [simp]: "recipients_ok (smtp_reply m s) = recipients_ok s"
  by (simp add: recipients_ok_def)

lemma session_ok_reply [simp]: "session_ok (smtp_reply m s) = session_ok s"
  by (simp add: session_ok_def)

lemma bad_command_ok: "session_ok s \<Longrightarrow> session_ok (bad_command i s)"
  by (simp add: bad_command_def)

lemma reset_session_ok:
  assumes "reset_session s = Inr s'" and "session_ok s"
  shows "session_ok s' \<and> state s' = READY"
proof -
  have s': "s' = s\<lparr>state := READY, rcpt_to_buffer_idx := 0, my_name := [], mail_from_buffer := [],
      data_buffer := [], rcpt_to_buffer := map (\<lambda>_. Freed) (rcpt_to_buffer s)\<rparr>"
    using assms(1) by (cases "Freed \<in> set (rcpt_to_buffer s)") (simp_all add: reset_session_def free_recipients_def)
  show ?thesis using assms(2) unfolding s' by (simp add: session_ok_def recipients_ok_def)
qed

lemma reset_ok: "reset s = Inr s' \<Longrightarrow> session_ok s \<Longrightarrow> session_ok s'"
  by (auto simp: reset_def dest: reset_session_ok elim!: ebind_InrE)

lemma quit_ok: "session_ok s \<Longrightarrow> session_ok (quit s)"
  by (simp add: quit_def) (simp add: session_ok_def recipients_ok_def)

lemma mail_from_cases:
  assumes "mail_from line s = Inr s'"
  obtains m where "s' = smtp_reply m s"
  | m a where "verify_domain a" and "s' = smtp_reply m (s\<lparr>mail_from_buffer := a, state := TRANSACTION\<rparr>)"
proof (cases "line ! 10 \<noteq> CHR ''<''")
  case True
  with assms have "s' = smtp_reply bracket_error s" by (simp add: mail_from_def)
  then show thesis by (rule that(1))
next
  case False
  with assms obtain a where "(if \<not> verify_domain a
      then Inr (smtp_reply ''500 Syntax error, domain must follow the format *@*'' s)
      else Inr (smtp_reply ''250 OK'' (s\<lparr>mail_from_buffer := a, state := TRANSACTION\<rparr>))) = (Inr s' :: exn + session)"
    unfolding mail_from_def by (auto elim: ebind_InrE)
  then show thesis by (cases "verify_domain a") (auto intro: that)
qed

lemma mail_from_ok:
  assumes "mail_from line s = Inr s'" and "session_ok s" and "state s = READY"
  shows "session_ok s'"
  using assms(1)
proof (cases rule: mail_from_cases)
  case 2
  with assms(2,3) show ?thesis by (simp add: session_ok_def recipients_ok_def)
qed (use assms(2) in simp)

lemma set_slot_nth: "k \<le> length xs \<Longrightarrow> i \<le> k \<Longrightarrow> set_slot k x xs ! i = (if i = k then x else xs ! i)"
  by (auto simp: set_slot_def nth_append)

lemma length_set_slot: "k \<le> length xs \<Longrightarrow> length (set_slot k x xs) = max (length xs) (Suc k)"
  by (auto simp: set_slot_def)

lemma recipients_ok_add:
  assumes "recipients_ok s" and "verify_domain a" and "rcpt_to_buffer_idx s < 100"
  shows "recipients_ok (s\<lparr>rcpt_to_buffer := set_slot (rcpt_to_buffer_idx s) (Held a) (rcpt_to_buffer s),
      rcpt_to_buffer_idx := rcpt_to_buffer_idx s + 1\<rparr>)"
proof -
  let ?k = "rcpt_to_buffer_idx s" and ?xs = "rcpt_to_buffer s"
  have k: "?k \<le> length ?xs" "length ?xs \<le> 100" and old: "\<forall>i < ?k. \<exists>r. ?xs ! i = Held r \<and> verify_domain r"
    using assms(1) by (simp_all add: recipients_ok_def)
  have "\<exists>r. set_slot ?k (Held a) ?xs ! i = Held r \<and> verify_domain r" if "i < Suc ?k" for i
    using that old assms(2) k(1) by (cases "i = ?k") (simp_all add: set_slot_nth)
  then show ?thesis using k assms(3) by (simp add: recipients_ok_def length_set_slot)
qed

lemma rcpt_to_cases:
  assumes "rcpt_to line s = Inr s'"
  obtains m where "s' = smtp_reply m s"
  | m a where "verify_domain a" and "rcpt_to_buffer_idx s < 100"
    and "s' = smtp_reply m (s\<lparr>rcpt_to_buffer := set_slot (rcpt_to_buffer_idx s) (Held a) (rcpt_to_buffer s),
      rcpt_to_buffer_idx := rcpt_to_buffer_idx s + 1\<rparr>)"
proof (cases "line ! 8 \<noteq> CHR ''<''")
  case True
  with assms have "s' = smtp_reply bracket_error s" by (simp add: rcpt_to_def)
  then show thesis by (rule that(1))
next
  case False
  with assms obtain a where "(if \<not> verify_domain a
      then Inr (smtp_reply ''550 Requested action not taken: domain syntax incorrect'' s)
      else if 100 \<le> rcpt_to_buffer_idx s then Inl Undefined_behaviour
      else Inr (smtp_reply ''250 OK''
               (s\<lparr>rcpt_to_buffer := set_slot (rcpt_to_buffer_idx s) (Held a) (rcpt_to_buffer s),
                  rcpt_to_buffer_idx := rcpt_to_buffer_idx s + 1\<rparr>))) = Inr s'"
    unfolding rcpt_to_def by (auto elim: ebind_InrE)
  then show thesis by (cases "verify_domain a") (auto intro: that split: if_splits)
qed

lemma rcpt_to_ok:
  assumes "rcpt_to line s = Inr s'" and "session_ok s" and "state s = TRANSACTION"
  shows "session_ok s'"
  using assms(1)
proof (cases rule: rcpt_to_cases)
  case (2 m a)
  from recipients_ok_add [OF _ 2(1,2)] assms(2,3) 2(3) show ?thesis
    by (simp add: session_ok_def)
qed (use assms(2) in simp)

lemma smtp_command_ok:
  assumes "smtp_command line s = Inr s'" and "session_ok s"
  shows "session_ok s'"
proof (cases "state s")
  case NEW
  with assms show ?thesis
    by (auto simp: smtp_command_def command_new_def Let_def intro: bad_command_ok split: if_splits)
      (simp add: session_ok_def recipients_ok_def)
next
  case READY
  with assms show ?thesis
    by (auto simp: smtp_command_def command_ready_def Let_def split: instruction.splits
        intro: bad_command_ok quit_ok reset_ok mail_from_ok)
next
  case TRANSACTION
  have title: "session_ok (s\<lparr>title := t\<rparr>)" for t using assms(2) by (simp add: session_ok_def recipients_ok_def)
  have data: "session_ok (s\<lparr>state := DATA_STATE\<rparr>)" if "0 < rcpt_to_buffer_idx s"
    using assms(2) TRANSACTION that by (simp add: session_ok_def recipients_ok_def)
  from TRANSACTION assms title data show ?thesis
    by (auto simp: smtp_command_def command_transaction_def Let_def split: instruction.splits if_splits
        elim!: ebind_InrE intro: bad_command_ok quit_ok reset_ok rcpt_to_ok)
next
  case DATA_STATE
  with assms show ?thesis by (simp add: smtp_command_def Let_def)
qed

lemma smtp_lines_ok: "smtp_lines b s = Inr (rest, s') \<Longrightarrow> session_ok s \<Longrightarrow> session_ok s'"
proof (induction b s rule: smtp_lines.induct)
  case (1 b s)
  show ?case
  proof (cases "str_find b crlf")
    case None
    with 1 show ?thesis by (simp add: smtp_lines.simps)
  next
    case (Some i)
    with 1(2) obtain s1 where s1: "smtp_command (take i b) s = Inr s1" "smtp_lines (drop (i + 2) b) s1 = Inr (rest, s')"
      by (auto simp: smtp_lines.simps [of b s] elim: ebind_InrE)
    from 1(1) [OF Some s1(2) smtp_command_ok [OF s1(1) 1(3)]] show ?thesis .
  qed
qed

lemma deliver_all_fields:
  "deliver_all E fd x sender subject text rs sess s = Inr (sess', s') \<Longrightarrow> session_ok sess \<Longrightarrow> session_ok sess'"
  by (induction rs arbitrary: sess s) (auto elim!: ebind_InrE)

lemma send_mail_ok:
  assumes "send_mail E sess text s = Inr (sess', s')" and "session_ok sess"
  shows "session_ok sess'"
proof -
  have "session_ok (sess\<lparr>title := t\<rparr>)" for t using assms(2) by (simp add: session_ok_def recipients_ok_def)
  with assms(1) show ?thesis
    by (auto simp: send_mail_def elim!: ebind_InrE dest!: deliver_all_fields reset_session_ok)
qed

lemma worker_read_ok:
  assumes "worker_read E chunk sess s = Inr (sess', s')" and "session_ok sess"
  shows "session_ok sess'"
proof (cases "state sess = DATA_STATE")
  case True
  with assms show ?thesis
    by (auto simp: worker_read_def read_data_def Let_def split: if_splits intro: send_mail_ok)
      (simp add: session_ok_def recipients_ok_def)
next
  case False
  with assms obtain rest sess1 where r: "smtp_lines (read_buffer sess @ chunk) sess = Inr (rest, sess1)"
    "sess' = sess1\<lparr>read_buffer := rest\<rparr>"
    by (auto simp: worker_read_def read_commands_def Let_def elim!: ebind_InrE split: if_splits)
  from smtp_lines_ok [OF r(1) assms(2)] r(2) show ?thesis by (auto simp: session_ok_def recipients_ok_def)
qed

lemma smtp_reach_ok: "smtp_reach E sess \<Longrightarrow> session_ok sess"
proof (induction rule: smtp_reach.induct)
  case connected
  show ?case by (simp add: new_session_def session_ok_def recipients_ok_def)
next
  case read
  then show ?case by (auto intro: worker_read_ok)
qed


section \<open>Lemmas: the name of the client\<close>

text \<open>
  The name given with \<open>HELO\<close> is cleared by a reset and by the delivery of a mail; \<open>HELO\<close> is only
  accepted before. \<open>smtp_step\<close> is one read of the session, whatever the site's state.
\<close>

definition name_lost :: "session \<Rightarrow> bool" where
  "name_lost s = (my_name s = [] \<and> state s \<noteq> NEW)"

definition smtp_step :: "'s env \<Rightarrow> session \<Rightarrow> session \<Rightarrow> bool" where
  "smtp_step E a b = (\<exists>chunk s s'. worker_read E chunk a s = Inr (b, s'))"

lemma name_lost_reply [simp]: "name_lost (smtp_reply m s) = name_lost s"
  by (simp add: name_lost_def)

lemma reset_session_name_lost: "reset_session s = Inr s' \<Longrightarrow> name_lost s'"
  by (auto simp: reset_session_def free_recipients_def name_lost_def split: if_splits)

lemma smtp_command_name_lost:
  assumes "smtp_command line s = Inr s'" and "name_lost s"
  shows "name_lost s'"
proof -
  have upd: "name_lost (s\<lparr>title := t\<rparr>)" "name_lost (s\<lparr>state := DATA_STATE\<rparr>)" "name_lost (quit s)" "name_lost (bad_command i s)"
    for t i using assms(2) by (simp_all add: name_lost_def quit_def bad_command_def)
  have mail: "name_lost s1" if "mail_from line s = Inr s1" for s1
    using that by (cases rule: mail_from_cases) (use assms(2) in \<open>simp_all add: name_lost_def\<close>)
  have rcpt: "name_lost s1" if "rcpt_to line s = Inr s1" for s1
    using that by (cases rule: rcpt_to_cases) (use assms(2) in \<open>simp_all add: name_lost_def\<close>)
  have reset: "name_lost s1" if "reset s = Inr s1" for s1
    using that reset_session_name_lost by (auto simp: reset_def elim!: ebind_InrE)
  show ?thesis
  proof (cases "state s")
    case NEW
    with assms(2) show ?thesis by (simp add: name_lost_def)
  next
    case READY
    with assms mail reset upd show ?thesis
      by (auto simp: smtp_command_def command_ready_def Let_def split: instruction.splits)
  next
    case TRANSACTION
    with assms rcpt reset upd show ?thesis
      by (auto simp: smtp_command_def command_transaction_def Let_def split: instruction.splits if_splits elim!: ebind_InrE)
  next
    case DATA_STATE
    with assms show ?thesis by (simp add: smtp_command_def Let_def)
  qed
qed

lemma smtp_lines_name_lost: "smtp_lines b s = Inr (rest, s') \<Longrightarrow> name_lost s \<Longrightarrow> name_lost s'"
proof (induction b s rule: smtp_lines.induct)
  case (1 b s)
  show ?case
  proof (cases "str_find b crlf")
    case None
    with 1 show ?thesis by (simp add: smtp_lines.simps)
  next
    case (Some i)
    with 1(2) obtain s1 where s1: "smtp_command (take i b) s = Inr s1" "smtp_lines (drop (i + 2) b) s1 = Inr (rest, s')"
      by (auto simp: smtp_lines.simps [of b s] elim: ebind_InrE)
    from 1(1) [OF Some s1(2) smtp_command_name_lost [OF s1(1) 1(3)]] show ?thesis .
  qed
qed

lemma send_mail_name_lost: "send_mail E sess text s = Inr (sess', s') \<Longrightarrow> name_lost sess'"
  by (auto simp: send_mail_def elim!: ebind_InrE dest: reset_session_name_lost)

text \<open>The session after a mail that had a title: everything but the title is cleared.\<close>

lemma worker_read_delivered:
  assumes "worker_read E chunk sess s = Inr (sess', s')" and "state sess = DATA_STATE" and "state sess' = READY"
    and "title sess \<noteq> []"
  shows "sess' = sess\<lparr>state := READY, rcpt_to_buffer_idx := 0, my_name := [], mail_from_buffer := [],
    data_buffer := [], rcpt_to_buffer := map (\<lambda>_. Freed) (rcpt_to_buffer sess), written := written sess'\<rparr>"
proof -
  have deliver: "sess1 = sess2\<lparr>written := written sess1\<rparr>" if "deliver_all E fd x a b c rs sess2 r = Inr (sess1, r')"
    for fd x a b c rs sess1 sess2 r r'
    using that by (induction rs arbitrary: sess2 r) (fastforce simp: smtp_reply_def elim!: ebind_InrE)+
  obtain body where "send_mail E sess body s = Inr (sess', s')"
    using assms(1-3) by (auto simp: worker_read_def read_data_def Let_def split: if_splits)
  then obtain fd x r r' sess1 sess2 where
    d: "deliver_all E fd x (mail_from_buffer sess) (title sess) body
          (take (rcpt_to_buffer_idx sess) (rcpt_to_buffer sess)) (sess\<lparr>title := title sess\<rparr>) r = Inr (sess1, r')"
      "reset_session sess1 = Inr sess2" "sess' = smtp_reply ''250 OK'' sess2"
    using assms(4) by (auto simp: send_mail_def mail_title_def elim!: ebind_InrE)
  from deliver [OF d(1)] obtain w where "sess1 = sess\<lparr>written := w\<rparr>" by auto
  with d(2,3) show ?thesis
    by (auto simp: reset_session_def free_recipients_def smtp_reply_def split: if_splits)
qed

lemma worker_read_name_lost:
  assumes "worker_read E chunk sess s = Inr (sess', s')"
    and "name_lost sess \<or> state sess = DATA_STATE \<and> state sess' \<noteq> DATA_STATE"
  shows "name_lost sess'"
proof (cases "state sess = DATA_STATE")
  case True
  then show ?thesis
    using assms by (auto simp: worker_read_def read_data_def Let_def split: if_splits intro: send_mail_name_lost)
      (simp add: name_lost_def)
next
  case False
  with assms obtain rest sess1 where "smtp_lines (read_buffer sess @ chunk) sess = Inr (rest, sess1)"
      "sess' = sess1\<lparr>read_buffer := rest\<rparr>" "name_lost sess"
    by (auto simp: worker_read_def read_commands_def Let_def elim!: ebind_InrE split: if_splits)
  with smtp_lines_name_lost show ?thesis by (auto simp: name_lost_def)
qed

lemma smtp_steps_name_lost: "(smtp_step E)\<^sup>*\<^sup>* a b \<Longrightarrow> name_lost a \<Longrightarrow> name_lost b"
  by (induction rule: rtranclp_induct) (auto simp: smtp_step_def intro: worker_read_name_lost)

inductive_simps smtp_reach_start: "smtp_reach E new_session"

section \<open>Lemmas: delivery\<close>

lemma map_to_json_neq_Nil [simp]: "map_to_json m \<noteq> []"
  by (cases m) simp_all

lemma received_dot_end: "idx \<le> length text + 2 \<Longrightarrow> received_dot idx (text @ end_of_mail)"
proof -
  assume "idx \<le> length text + 2"
  moreover have "take 5 (drop (length text + 2 - 2) (text @ end_of_mail)) = end_of_mail" by (simp add: end_of_mail_def)
  ultimately show ?thesis by (simp add: received_dot_def list_ex_iff end_of_mail_def)
qed

lemma received_dotD: "received_dot idx text \<Longrightarrow> contains text end_of_mail"
proof -
  assume "received_dot idx text"
  then obtain i where "take 5 (drop (i - 2) text) = end_of_mail" by (auto simp: received_dot_def list_ex_iff)
  then have "text = take (i - 2) text @ end_of_mail @ drop 5 (drop (i - 2) text)"
    by (metis append_take_drop_id)
  then show ?thesis unfolding contains_iff sublist_def by blast
qed

lemma data_pieces:
  assumes "state sess = DATA_STATE" and "\<not> contains (data_buffer sess @ concat ps) end_of_mail"
    and "length (data_buffer sess @ concat ps) \<le> 2000"
  shows "worker_reads E ps sess s = Inr (sess\<lparr>data_buffer := data_buffer sess @ concat ps\<rparr>, s)"
  using assms
proof (induction ps arbitrary: sess)
  case (Cons p ps)
  let ?text = "data_buffer sess @ p"
  have "\<not> contains ?text end_of_mail"
    using Cons.prems(2) unfolding contains_iff sublist_def by (metis append.assoc concat.simps(2))
  then have "\<not> received_dot (length (data_buffer sess)) ?text" using received_dotD by blast
  then have "worker_read E p sess s = Inr (sess\<lparr>data_buffer := ?text\<rparr>, s)"
    using Cons.prems(1,3) by (simp add: worker_read_def read_data_def Let_def)
  with Cons.IH [of "sess\<lparr>data_buffer := ?text\<rparr>"] Cons.prems show ?case by simp
qed simp

lemma worker_reads_append:
  "worker_reads E (ps @ qs) sess s = ebind (worker_reads E ps sess s) (\<lambda>(sess1, s1). worker_reads E qs sess1 s1)"
proof (induction ps arbitrary: sess s)
  case (Cons p ps)
  show ?case by (cases "worker_read E p sess s") (auto simp: Cons.IH split: prod.splits)
qed simp

lemma mail_body_end: "CHR 0x00 \<notin> set text \<Longrightarrow> mail_body False (text @ end_of_mail) = Inr text"
  by (simp add: mail_body_def c_string_def takeWhile_append2 end_of_mail_def Let_def)

definition add_mail :: "string \<Rightarrow> string \<Rightarrow> string" where
  "add_mail eids eid = (if eids = not_found then eid else eids @ '','' @ eid)"

lemma split_add_mail:
  assumes "CHR '','' \<notin> set eid" and "eid \<noteq> []"
  shows "\<exists>olds. split (add_mail eids eid) CHR '','' = olds @ [eid]"
  using assms split_acc_last [OF assms, of "[]" eids] split_no_delim [OF assms(1)]
  by (auto simp: add_mail_def split_def)

lemma mail_id_ok:
  shows mail_id_word: "word (mail_id E sender subject)"
    and mail_id_no_comma: "CHR '','' \<notin> set (mail_id E sender subject)"
    and mail_id_not_vector: "mail_id E sender subject \<noteq> ''eid_vector''"
proof -
  obtain d n where d: "mail_id E sender subject = compute_hash_16 E d n" by (simp add: mail_id_def Let_def)
  show "word (mail_id E sender subject)" unfolding d by (rule word_compute_hash_16)
  show "CHR '','' \<notin> set (mail_id E sender subject)" using set_compute_hash_16 [of E d n] unfolding d by auto
  show "mail_id E sender subject \<noteq> ''eid_vector''"
    using length_compute_hash_16 [of E d n] unfolding d by auto
qed

lemma mail_id_neq_Nil: "mail_id E sender subject \<noteq> []"
  using mail_id_word unfolding word_def by blast

lemma mail_id_not_found: "mail_id E sender subject \<noteq> not_found"
proof
  assume "mail_id E sender subject = not_found"
  then have "CHR '' '' \<in> set (mail_id E sender subject)" by (simp add: not_found_def)
  moreover have "\<forall>c \<in> set (mail_id E sender subject). \<not> isspace c"
    using mail_id_word unfolding word_def by blast
  ultimately show False by (auto simp: isspace_def)
qed

text \<open>The list of mails stays a value that the storage servers take.\<close>

lemma add_mail_ok:
  assumes "clean_text eids" and "word eid"
  shows "val_ok (add_mail eids eid)"
  using val_ok_listed [OF assms] by (simp add: add_mail_def)

lemma add_mail_not_found: "eid \<noteq> not_found \<Longrightarrow> add_mail eids eid \<noteq> not_found"
proof
  assume "eid \<noteq> not_found" "add_mail eids eid = not_found"
  then have "eids @ '','' @ eid = not_found" by (simp add: add_mail_def split: if_splits)
  moreover have "CHR '','' \<in> set (eids @ '','' @ eid)" by simp
  ultimately have "CHR '','' \<in> set not_found" by simp
  then show False by (simp add: not_found_def)
qed

context web_site
begin

lemma deliver_one_ok:
  assumes "inv s" and "word u" and "u \<noteq> ''passwd''" and "clean_text (listed (kv s) u ''eid_vector'')"
    and "CHR 0x00 \<notin> set text"
  shows "yields inv kv (deliver_one E (Some a) False sender subject (text @ end_of_mail) (Held u) s) (''+OK '' @ u)
    ((kv s)((u, ''eid_vector'') \<mapsto> add_mail (listed (kv s) u ''eid_vector'') (mail_id E sender subject),
            (u, mail_id E sender subject) \<mapsto> stobs (mail_json E sender subject text)))"
proof -
  let ?id = "mail_id E sender subject" and ?ids = "listed (kv s) u ''eid_vector''"
  from GET_ok [OF assms(1,2) word_eid_vector assms(3)] obtain s1 where
    1: "bend_GET (call E) (Some a) u ''eid_vector'' s = Inr (?ids, s1)" "inv s1" "kv s1 = kv s"
    unfolding listed_def by (rule yieldsE)
  from PUT_ok [OF 1(2) assms(2) word_eid_vector add_mail_ok [OF assms(4) mail_id_word]] obtain s2 where
    2: "bend_PUT (call E) (Some a) u ''eid_vector'' (add_mail ?ids ?id) s1 = Inr (''+OK PUT SUCCESSFUL.'', s2)" "inv s2"
      "kv s2 = (kv s)((u, ''eid_vector'') \<mapsto> add_mail ?ids ?id)"
    unfolding 1(3) by (rule yieldsE)
  have "mail_json E sender subject text \<noteq> []" unfolding mail_json_def by (rule map_to_json_neq_Nil)
  from PUT_ok [OF 2(2) assms(2) mail_id_word stobs_val_ok [OF this]] obtain s3 where
    3: "bend_PUT (call E) (Some a) u ?id (stobs (mail_json E sender subject text)) s2 = Inr (''+OK PUT SUCCESSFUL.'', s3)"
      "inv s3" "kv s3 = (kv s)((u, ''eid_vector'') \<mapsto> add_mail ?ids ?id,
        (u, ?id) \<mapsto> stobs (mail_json E sender subject text))"
    unfolding 2(3) by (rule yieldsE)
  show ?thesis
    using 3(2,3) by (simp add: deliver_one_def 1(1) 2(1) [unfolded add_mail_def] 3(1) mail_body_end [OF assms(5)] Let_def)
qed

text \<open>A mail to one recipient in a session that has a title, when the last of its reads arrives.\<close>

lemma send_mail_delivers:
  assumes "inv s" and "word (my_name sess)" and "title sess \<noteq> []"
    and "take (rcpt_to_buffer_idx sess) (rcpt_to_buffer sess) = [Held u]" and "Freed \<notin> set (rcpt_to_buffer sess)"
    and "word u" and "u \<noteq> ''passwd''" and "clean_text (listed (kv s) u ''eid_vector'')"
    and "CHR 0x00 \<notin> set text" and "state sess = DATA_STATE" and "data_buffer sess @ chunk = text @ end_of_mail"
    and "length (data_buffer sess) \<le> length text + 2" and "length text < 1995"
  obtains sess' s' where "worker_read E chunk sess s = Inr (sess', s')" and "inv s'"
    and "state sess' = READY" and "written sess' = written sess @ [''+OK '' @ u @ crlf, ''250 OK'' @ crlf]"
    and "kv s' = (kv s)((u, ''eid_vector'') \<mapsto> add_mail (listed (kv s) u ''eid_vector'') (mail_id E (mail_from_buffer sess) (title sess)),
      (u, mail_id E (mail_from_buffer sess) (title sess)) \<mapsto> stobs (mail_json E (mail_from_buffer sess) (title sess) text))"
proof -
  let ?from = "mail_from_buffer sess" and ?t = "title sess"
  from helo_law [OF assms(1,2)] obtain s1 where
    1: "call E coord_address (''HELO passwd '' @ my_name sess @ crlf) s = Inr (''+OK '' @ a, s1)" "inv s1" "kv s1 = kv s"
    unfolding coord_law by (rule yieldsE)
  from deliver_one_ok [OF 1(2) assms(6,7) _ assms(9), where sender = ?from and subject = ?t] assms(8) obtain s2 where
    2: "deliver_one E (Some a) False ?from ?t (text @ end_of_mail) (Held u) s1 = Inr (''+OK '' @ u, s2)" "inv s2"
      "kv s2 = (kv s)((u, ''eid_vector'') \<mapsto> add_mail (listed (kv s) u ''eid_vector'') (mail_id E ?from ?t),
        (u, mail_id E ?from ?t) \<mapsto> stobs (mail_json E ?from ?t text))"
    unfolding 1(3) by (auto elim: yieldsE)
  let ?sess1 = "smtp_reply (''+OK '' @ u) (sess\<lparr>title := ?t\<rparr>)"
  obtain sess2 where r: "reset_session ?sess1 = Inr sess2" "state sess2 = READY" "written sess2 = written ?sess1"
    using assms(5) by (simp add: reset_session_def free_recipients_def)
  have "send_mail E sess (text @ end_of_mail) s = Inr (smtp_reply ''250 OK'' sess2, s2)"
    using r(1) 1(1) by (simp add: send_mail_def mail_title_def assms(3,4) substr_def table_socket [OF 1(2)] 2(1))
  then have "worker_read E chunk sess s = Inr (smtp_reply ''250 OK'' sess2, s2)"
    using assms(10,13) received_dot_end [OF assms(12)]
    by (simp add: worker_read_def read_data_def Let_def assms(11)) (simp add: end_of_mail_def)
  moreover have "written (smtp_reply ''250 OK'' sess2) = written sess @ [''+OK '' @ u @ crlf, ''250 OK'' @ crlf]"
    using r(3) by (simp add: smtp_reply_def)
  ultimately show thesis using 2(2,3) r(2) by (intro that) simp_all
qed

end

section \<open>Properties\<close>

text \<open>
  C12: however the bytes of a client are cut into reads, the mail server never reads mail text
  without a valid sender and at least one recipient, and each of its at most 100 recipients is an
  allocated address, never one whose memory was freed. A run ends where a read, a name or the
  array of recipients overflows its buffer; that the copy of each recipient is written one byte
  past its memory is passed over.
\<close>

theorem smtp_session_safe:
  assumes "smtp_reach E sess"
  shows "session_ok sess"
  by (rule smtp_reach_ok [OF assms])

text \<open>
  once a recipient was named, two resets in a row free its memory twice: the pointers are
  not cleared when they are freed.
\<close>

theorem second_reset_frees_twice:
  assumes "state s = READY \<or> state s = TRANSACTION" and "rcpt_to_buffer s \<noteq> []"
  shows "efold smtp_command [''RSET'', ''RSET''] s = Inl Undefined_behaviour"
proof -
  have i: "identify_instruction ''RSET'' = RSET" by code_simp
  have reset: "smtp_command ''RSET'' x = reset x" if "state x = READY \<or> state x = TRANSACTION" for x
    using that by (auto simp: smtp_command_def i command_ready_def command_transaction_def)
  show ?thesis
  proof (cases "Freed \<in> set (rcpt_to_buffer s)")
    case True
    then show ?thesis using assms(1) by (simp add: reset reset_def reset_session_def free_recipients_def)
  next
    case False
    let ?s1 = "smtp_reply ''250 OK'' (s\<lparr>state := READY, rcpt_to_buffer_idx := 0, my_name := [], mail_from_buffer := [],
      data_buffer := [], rcpt_to_buffer := map (\<lambda>_. Freed) (rcpt_to_buffer s)\<rparr>)"
    have "smtp_command ''RSET'' s = Inr ?s1"
      using False assms(1) by (simp add: reset reset_def reset_session_def free_recipients_def)
    moreover have "smtp_command ''RSET'' ?s1 = Inl Undefined_behaviour"
      using assms(2) by (simp add: reset reset_def reset_session_def free_recipients_def image_constant_conv)
    ultimately show ?thesis by simp
  qed
qed

section \<open>Witnesses\<close>

definition smtp_greeting :: string where
  "smtp_greeting = ''HELO bob'' @ crlf @ ''MAIL FROM:<a@b>'' @ crlf @ ''TITLE hi'' @ crlf @ ''RCPT TO:<c@d>'' @ crlf"

definition smtp_addressed :: session where
  "smtp_addressed = \<lparr>my_name = ''bob'', mail_from_buffer = ''a@b'', rcpt_to_buffer = [Held ''c@d''],
     rcpt_to_buffer_idx = 1, data_buffer = [], title = [], state = TRANSACTION, read_buffer = [],
     close_connection = False, written = [''220 localhost Simple Mail Transfer Service Ready'' @ crlf,
       ''250 localhost'' @ crlf, ''250 OK'' @ crlf, ''250 OK'' @ crlf, ''250 OK'' @ crlf]\<rparr>"

lemma addressed_run: "read_commands smtp_greeting new_session = Inr (smtp_addressed\<lparr>title := ''hi''\<rparr>)"
  by code_simp

lemma addressed_reach: "smtp_reach E (smtp_addressed\<lparr>title := ''hi''\<rparr>)"
proof (rule smtp_reach.read [OF smtp_reach.connected])
  show "worker_read E smtp_greeting new_session s = Inr (smtp_addressed\<lparr>title := ''hi''\<rparr>, s)" for s
    by (simp add: worker_read_def addressed_run) (simp add: new_session_def)
qed (simp add: new_session_def)

theorem smtp_session_safe_witness:
  "session_ok (smtp_addressed\<lparr>title := ''hi''\<rparr>) \<and> verify_domain ''a@b''"
  using smtp_session_safe [OF addressed_reach] by (simp add: session_ok_def smtp_addressed_def)

theorem second_reset_frees_twice_witness:
  "efold smtp_command [''RSET'', ''RSET''] (smtp_addressed\<lparr>title := ''hi''\<rparr>) = Inl Undefined_behaviour"
  by (rule second_reset_frees_twice) (simp_all add: smtp_addressed_def)

end
