(* ===== verification/Site.thy ===== *)
theory Site
  imports Deployment Web_Server Smtp
begin

text \<open>
  The whole site: the web frontend on top of the coordinator and a storage server
  (\<open>Deployment\<close>). The laws the handlers rely on hold for these parts, so the properties of the
  handlers are properties of the site.
\<close>

definition site_env :: "(coord \<times> node) env \<Rightarrow> nat \<Rightarrow> nat list \<Rightarrow> (string \<Rightarrow> nat) \<Rightarrow> int \<Rightarrow> (coord \<times> node) env" where
  "site_env B r rs H f = B\<lparr>call := deployed (r # rs) H f, bcoord := coord_address\<rparr>"

interpretation web: web_site "site_env B r rs H f" deployed_kv "deployed_inv sc" "address sc (sc_listen sc)"
  for B r rs H f sc
  by (simp add: web_site_def web_site_axioms_def site_env_def site.kv_backend_axioms)

section \<open>Files\<close>

lemma download_response_total: "\<exists>r. download_response file b64 = Inr r"
  using write_chunks_unchunk [of CHUNK_MAX_DOWNLOAD_SIZE b64]
  by (auto simp: download_response_def write_to_chunk_transfer_def CHUNK_MAX_DOWNLOAD_SIZE_def)

text \<open>
  C7: a file that was uploaded is downloaded: the reply carries the base64 text of exactly the
  bytes of the uploaded body, whatever they are, and the folder lists the file.
\<close>

theorem upload_then_download:
  assumes "deployed_inv sc s" and "word user" and "user \<noteq> ''passwd''" and "word parent" and "word (parent @ name)"
    and "dat data ''X-File-Path'' = parent" and "dat data ''X-File-Name'' = name" and "dat data ''Host'' \<noteq> []"
    and "add_entry (listed (deployed_kv s) user parent) (parent @ name) = Some fids" and "clean_text (listed (deployed_kv s) user parent)"
    and "name \<noteq> []" and "body \<noteq> []"
    and "url_params data' = Inr params" and "dat params ''file'' = parent @ name"
  shows "\<exists>ok s1 r s2. upload_file (site_env B n ns H f) data user body s = Inr (Reply ok, s1)
     \<and> listed (deployed_kv s1) user parent = fids
     \<and> download (site_env B n ns H f) data' user s1 = Inr (r, s2)
     \<and> download_response (parent @ name) (bytob64 (map of_char body)) = Inr r
     \<and> b64_decode (bytob64 (map of_char body :: byte list)) = Some (map of_char body)"
proof -
  obtain ok where ok: "create_http_response 200 [] (dat data ''Host'') = Inr ok"
    using assms(8) by (simp add: create_http_response_def)
  from web.upload_ok [OF assms(1-7,9,10,12) ok, of B n ns H f] obtain s1 where
    1: "upload_file (site_env B n ns H f) data user body s = Inr (Reply ok, s1)" "deployed_inv sc s1"
      "deployed_kv s1 = (deployed_kv s)((user, parent) \<mapsto> fids, (user, parent @ name) \<mapsto> stobs body)"
    by (rule yieldsE)
  obtain r where r: "download_response (parent @ name) (bytob64 (map of_char body)) = Inr r"
    using download_response_total by blast
  have "deployed_kv s1 (user, parent @ name) = Some (stobs body)" by (simp add: 1(3))
  from web.download_ok [OF 1(2) assms(2,3,5,13,14) this r, of B n ns H f] obtain s2 where
    2: "download (site_env B n ns H f) data' user s1 = Inr (r, s2)" by (rule yieldsE)
  have "listed (deployed_kv s1) user parent = fids" using assms(11) by (simp add: listed_def 1(3))
  with 1(1) 2 r show ?thesis by (auto simp: b64_decode_bytob64 byte_of_char)
qed


text \<open>A small site: one storage server, empty, and an environment.\<close>

definition sample_server :: server_config where
  "sample_server = \<lparr>sc_partition = 1, sc_ip = ''127.0.0.1'', sc_heartbeat = 5002, sc_comm = 5003,
     sc_listen = 5004, sc_last = ''5005''\<rparr>"

definition sample_site :: "coord \<times> node" where
  "sample_site =
     (initial_coord\<lparr>partition_count := 1, alive_servers := [(1, [full_id sample_server])]\<rparr>,
      lone_primary\<lparr>listen_address := address sample_server (sc_listen sample_server)\<rparr>)"

definition sample_env :: "(coord \<times> node) env" where
  "sample_env = \<lparr>call = (\<lambda>_ _ _. Inl Process_exit), bcoord = coord_address, flb = [], sha256 = (\<lambda>p. [length p]),
     md5 = (\<lambda>s _. length s), src_dir = ''/srv/'', file_content = (\<lambda>_. None),
     mt = (\<lambda>_. 0), smtp_connect = (\<lambda>_. None), mx_records = (\<lambda>_. None), ctime = ''now'', unix_time = 0\<rparr>"

lemma sample_store: "deployed_kv sample_site = Map.empty"
  unfolding lone_store [symmetric]
  by (simp add: sample_site_def deployed_kv_def) (simp add: store_of_def lookup_def)

lemma sample_inv: "deployed_inv sample_server sample_site"
proof -
  let ?n = "lone_primary\<lparr>listen_address := address sample_server (sc_listen sample_server)\<rparr>"
  have "serves_alone ?n"
    using lone_primary_serves by (simp add: serves_alone_def lock_inv_def lookup_def)
  moreover have "store_of ?n = Map.empty"
    using sample_store by (simp add: sample_site_def deployed_kv_def)
  moreover have "address sample_server (sc_listen sample_server) \<noteq> coord_address"
    by (simp add: sample_server_def address_def coord_address_def to_string_def nat_digits.simps)
  ultimately show ?thesis
    by (simp add: deployed_inv_def sample_site_def table_inv_def alive_at_def paused_at_def set_at_def initial_coord_def)
      (simp add: sample_server_def config_ok_def fits_int_def inet_pton_ok_def ipv4_octet_def split_def isdigit_def
        digit_val_def)
qed

definition upload_data :: params where
  "upload_data = [(''Host'', ''h''), (''X-File-Name'', ''a.txt''), (''X-File-Path'', ''/'')]"

theorem upload_then_download_witness:
  "\<exists>ok s1 r s2. upload_file (site_env sample_env 0 [] (\<lambda>_. 0) 9) upload_data ''bob'' ''Hi!'' sample_site = Inr (Reply ok, s1)
     \<and> download (site_env sample_env 0 [] (\<lambda>_. 0) 9) [(''path'', ''/download?file=/a.txt'')] ''bob'' s1 = Inr (r, s2)
     \<and> download_response ''/a.txt'' ''SGkh'' = Inr r"
proof -
  have "bytob64 (map of_char ''Hi!'') = ''SGkh''" by code_simp
  moreover have "\<exists>ok s1 r s2. upload_file (site_env sample_env 0 [] (\<lambda>_. 0) 9) upload_data ''bob'' ''Hi!'' sample_site = Inr (Reply ok, s1)
     \<and> listed (deployed_kv s1) ''bob'' ''/'' = ''/a.txt''
     \<and> download (site_env sample_env 0 [] (\<lambda>_. 0) 9) [(''path'', ''/download?file=/a.txt'')] ''bob'' s1 = Inr (r, s2)
     \<and> download_response (''/'' @ ''a.txt'') (bytob64 (map of_char ''Hi!'')) = Inr r
     \<and> b64_decode (bytob64 (map of_char ''Hi!'' :: byte list)) = Some (map of_char ''Hi!'')"
    by (rule upload_then_download [OF sample_inv, where params = "[(''file'', ''/a.txt'')]"])
      (simp_all add: word_eval sample_store listed_def add_entry_def not_found_def upload_data_def dat_def
        url_params_def params_from_url_def param_of_def substr_after_def split_def)
  ultimately show ?thesis by auto
qed

text \<open>The first occurrence is in the entry itself when no entry before it contains the text.\<close>

lemma not_prefix_entries:
  assumes "d \<notin> set p" and "\<forall>x \<in> set xs. \<not> contains x p" and "m < length (concat (map (\<lambda>x. x @ [d]) xs))"
  shows "\<not> prefix p (drop m (concat (map (\<lambda>x. x @ [d]) xs) @ t))"
  using assms(2,3)
proof (induction xs arbitrary: m)
  case (Cons x xs)
  let ?rest = "concat (map (\<lambda>x. x @ [d]) xs) @ t"
  show ?case
  proof (cases "m \<le> length x")
    case True
    have "\<not> prefix p (drop m x @ d # ?rest)"
    proof
      assume p: "prefix p (drop m x @ d # ?rest)"
      have "prefix p (drop m x)"
        using p assms(1) by (auto simp: prefix_append prefix_Cons)
      then have "contains x p" unfolding contains_iff sublist_def by (metis append_take_drop_id prefixE)
      with Cons.prems(1) show False by simp
    qed
    then show ?thesis using True by simp
  next
    case False
    then obtain k where k: "m = length x + 1 + k" by (metis add.commute less_eqE not_less_eq_eq plus_1_eq_Suc)
    then show ?thesis using Cons.IH [of k] Cons.prems by simp
  qed
qed simp

lemma replace_entry:
  assumes "d \<notin> set old" and "\<forall>x \<in> set xs. \<not> contains x old"
  shows "replace (join d (xs @ old # ys)) old new = join d (xs @ new # ys)"
proof -
  let ?P = "concat (map (\<lambda>x. x @ [d]) xs)" and ?Q = "if ys = [] then [] else d # join d ys"
  have join: "join d (xs @ e # ys) = ?P @ e @ ?Q" for e by (induction xs) simp_all
  have "str_find (?P @ old @ ?Q) old = Some (length ?P)"
    using not_prefix_entries [OF assms, of _ "old @ ?Q"] by (simp add: str_find_eq_Some_iff)
  then show ?thesis unfolding join by (simp add: replace_def)
qed

text \<open>
  C14: renaming a file of a folder's list to a name that does not occur in the list moves its
  contents to the new name and replaces the first occurrence of the old name in the text of the
  folder's list; nothing else changes. That is the file's entry when no entry before it contains the
  name; otherwise an entry of another file is changed.
\<close>

theorem rename_moves_contents:
  assumes "deployed_inv sc s" and "word user" and "user \<noteq> ''passwd''" and "word parent" and "word old" and "word new"
    and "parse_json_string body = Inr m" and "dat m ''parentPath'' = parent"
    and "old = parent @ dat m ''oldFileName''" and "new = parent @ dat m ''newFileName''"
    and "deployed_kv s (user, parent) = Some fids" and "contains fids old" and "\<not> contains fids new"
    and "val_ok (replace fids old new)" and "deployed_kv s (user, old) = Some v" and "val_ok v"
    and "last old \<noteq> CHR ''/''" and "old \<noteq> parent" and "new \<noteq> old" and "dat data ''Host'' \<noteq> []"
  shows "\<exists>r s'. rename_file (site_env B n ns H f) data user body s = Inr (Reply r, s')
     \<and> create_http_response 200 [] (dat data ''Host'') = Inr r
     \<and> deployed_kv s' = (deployed_kv s)((user, parent) \<mapsto> replace fids old new, (user, old) := None, (user, new) \<mapsto> v)
     \<and> (\<forall>xs ys. fids = join CHR '','' (xs @ old # ys) \<and> CHR '','' \<notin> set old \<and> (\<forall>x \<in> set xs. \<not> contains x old)
          \<longrightarrow> replace fids old new = join CHR '','' (xs @ new # ys))"
proof -
  obtain r where r: "create_http_response 200 [] (dat data ''Host'') = Inr r"
    using assms(20) by (simp add: create_http_response_def)
  from web.rename_ok [OF assms(1-19) r, of B n ns H f] r obtain s' where
    "rename_file (site_env B n ns H f) data user body s = Inr (Reply r, s')"
    "deployed_kv s' = (deployed_kv s)((user, parent) \<mapsto> replace fids old new, (user, old) := None, (user, new) \<mapsto> v)"
    by (auto elim: yieldsE)
  then show ?thesis using r replace_entry by blast
qed

text \<open>
  a request to delete a file that the folder does not list raises in \<open>erase\<close> (at \<open>npos - 1\<close>):
  the frontend process ends, and the test for this case behind it is never reached.
\<close>

theorem delete_unlisted_ends_frontend:
  assumes "deployed_inv sc s" and "word user" and "user \<noteq> ''passwd''" and "word folder"
    and "parse_json_string body = Inr params" and "dat params ''folder'' = folder"
    and "\<not> contains (listed (deployed_kv s) user folder) (dat params ''file'')"
  shows "delete_file (site_env B n ns H f) data user body s = Inl Out_of_range"
  by (rule web.delete_unlisted [OF assms])

section \<open>Accounts\<close>

text \<open>
  C8: who signs up, then logs in with the same password, has a session: the frontend answers
  with the cookie, and a request that shows it is taken for that user.
\<close>

theorem signup_login_session:
  assumes "deployed_inv sc s" and "word email" and "email \<noteq> ''passwd''"
    and "params_from_url (url_decode form) = Inr ps" and "dat ps ''email'' = email"
    and "storable (hash_password (site_env B n ns H f) ps)" and "distinct (map fst (hash_password (site_env B n ns H f) ps))"
    and "map_of ps ''password'' = Some pw" and "deployed_kv s (email, ''password'') = None"
    and "params_from_url (url_decode form') = Inr ps'" and "dat ps' ''email'' = email"
    and "map_of ps' ''password'' = Some pw"
    and "val_ok (generate_cookie (mt B))" and "map_of data ''Cookie'' = Some header"
    and "map_of (cookie_params header) ''cookie'' = Some (generate_cookie (mt B))"
    and "map_of (cookie_params header) ''uuid'' = Some email"
  shows "\<exists>s1 name s2 s3. signup (site_env B n ns H f) form s = Inr (Redirect [(''success'', ''0'')], s1)
     \<and> login (site_env B n ns H f) form' s1 =
         Inr (Redirect [(''Set-Cookie'', session_cookie (generate_cookie (mt B)) email name), (''success'', ''0'')], s2)
     \<and> auth_user (site_env B n ns H f) data s2 = Inr (email, s3)"
proof -
  let ?E = "site_env B n ns H f" and ?c = "generate_cookie (mt B)"
  have mt: "mt ?E = mt B" by (simp add: site_env_def)
  have email: "dat (hash_password ?E ps) ''email'' = email" "dat (hash_password ?E ps') ''email'' = email"
    using assms(5,11) by (auto simp: hash_password_def dat_def split: option.splits)
  from web.signup_ok [OF assms(1-4) email(1) assms(6,9)] obtain s1 where
    1: "signup ?E form s = Inr (Redirect [(''success'', ''0'')], s1)" "deployed_inv sc s1"
      "deployed_kv s1 = account_cells email (hash_password ?E ps) (deployed_kv s)" by (rule yieldsE)
  have "map_of (hash_password ?E ps) ''password'' = Some (hash ?E pw)"
    using assms(8) by (simp add: hash_password_def)
  then have "deployed_kv s1 (email, ''password'') = Some (hash ?E pw)"
    unfolding 1(3) by (rule account_cells_get [OF assms(7)]) simp
  moreover have "dat (hash_password ?E ps') ''password'' = hash ?E pw"
    using assms(12) by (simp add: hash_password_def dat_def)
  ultimately have pw: "deployed_kv s1 (email, ''password'') = Some (dat (hash_password ?E ps') ''password'')" by simp
  from web.login_ok [OF 1(2) assms(2,3,10) email(2) pw] assms(13) obtain s2 where
    2: "login ?E form' s1 = Inr (Redirect [(''Set-Cookie'', session_cookie ?c email (listed (deployed_kv s1) email ''name'')),
        (''success'', ''0'')], s2)" "deployed_inv sc s2" "deployed_kv s2 = (deployed_kv s1)((email, ''cookie'') \<mapsto> ?c)"
    unfolding mt by (auto elim: yieldsE)
  from web.auth_user_ok [OF 2(2) assms(14-16,2,3), of B n ns H f] obtain s3 where
    "auth_user ?E data s2 = Inr (email, s3)"
    by (auto simp: 2(3) elim: yieldsE)
  with 1(1) 2(1) show ?thesis by blast
qed

text \<open>A storage server that closes the connection is read as an empty value.\<close>

lemma closed_server_accepts_empty_cookie:
  assumes "bend_connect (call E) (bcoord E) ''bob'' s = Inr (Some a, s1)"
    and "call E a (uk_line ''bob'' ''cookie'' ''GET'') s1 = Inr ([], s2)"
    and "map_of data ''Cookie'' = Some ''cookie==;uuid=bob''"
  shows "auth_user E data s = Inr (''bob'', s2)"
proof -
  have "map_of (cookie_params ''cookie==;uuid=bob'') ''cookie'' = Some []"
    "map_of (cookie_params ''cookie==;uuid=bob'') ''uuid'' = Some ''bob''" by code_simp+
  then show ?thesis using assms by (simp add: auth_user_def bend_GET_def bend_uk_def)
qed

text \<open>
  C13: while the site's storage server answers, no one is taken for a user without the cookie the
  site has stored for that user. A server that closes the connection instead gives an empty text,
  and the test compares with that: the empty cookie then opens every account.
\<close>

theorem session_needs_stored_cookie:
  assumes "deployed_inv sc s" and "map_of data ''Cookie'' = Some header"
    and "map_of (cookie_params header) ''uuid'' = Some v" and "word v" and "v \<noteq> ''passwd''"
    and "auth_user (site_env B n ns H f) data s = Inr (u, s')" and "u \<noteq> []"
  shows "u = v \<and> deployed_kv s (u, ''cookie'') \<noteq> None
     \<and> deployed_kv s (u, ''cookie'') = map_of (cookie_params header) ''cookie''"
  by (rule web.auth_user_sound [OF assms])

section \<open>Witnesses\<close>

definition sample_web :: "(coord \<times> node) env" where
  "sample_web = site_env sample_env 0 [] (\<lambda>_. 0) 9"

definition rename_body :: string where
  "rename_body = map_to_json [(''newFileName'', ''b.txt''), (''oldFileName'', ''a.txt''), (''parentPath'', ''/'')]"

definition rename_map :: params where
  "rename_map = [(''newFileName'', ''b.txt''), (''oldFileName'', ''a.txt''), (''parentPath'', ''/'')]"

lemma rename_body_parsed: "parse_json_string rename_body = Inr rename_map"
  unfolding rename_body_def rename_map_def
  by (subst parse_map_to_json) (simp_all add: plain_def put_all_def)

lemma sample_words: "word ''bob''" "word ''/a.txt''" "word ''/b.txt''" "word ''/''" "val_ok ''/b.txt''" "val_ok ''/a.txt''"
  by (simp_all add: word_eval)

theorem rename_moves_contents_witness:
  "\<exists>res s1 r s2. upload_file sample_web upload_data ''bob'' ''Hi!'' sample_site = Inr (res, s1)
     \<and> rename_file sample_web upload_data ''bob'' rename_body s1 = Inr (Reply r, s2)
     \<and> deployed_kv s2 (''bob'', ''/b.txt'') = Some (stobs ''Hi!'')"
proof -
  obtain ok where ok: "create_http_response 200 [] (dat upload_data ''Host'') = Inr ok"
    by (simp add: create_http_response_def upload_data_def dat_def)
  have "yields (deployed_inv sample_server) deployed_kv (upload_file sample_web upload_data ''bob'' ''Hi!'' sample_site)
      (Reply ok) ((deployed_kv sample_site)((''bob'', ''/'') \<mapsto> ''/a.txt'', (''bob'', ''/'' @ ''a.txt'') \<mapsto> stobs ''Hi!''))"
    unfolding sample_web_def
    by (rule web.upload_ok [OF sample_inv _ _ _ _ _ _ _ _ _ ok])
      (simp_all add: word_eval sample_store listed_def add_entry_def not_found_def upload_data_def dat_def)
  then obtain s1 where 1: "upload_file sample_web upload_data ''bob'' ''Hi!'' sample_site = Inr (Reply ok, s1)"
    "deployed_inv sample_server s1"
    "deployed_kv s1 = (deployed_kv sample_site)((''bob'', ''/'') \<mapsto> ''/a.txt'', (''bob'', ''/'' @ ''a.txt'') \<mapsto> stobs ''Hi!'')"
    by (rule yieldsE)
  have "\<exists>r s'. rename_file (site_env sample_env 0 [] (\<lambda>_. 0) 9) upload_data ''bob'' rename_body s1 = Inr (Reply r, s')
     \<and> create_http_response 200 [] (dat upload_data ''Host'') = Inr r
     \<and> deployed_kv s' = (deployed_kv s1)((''bob'', ''/'') \<mapsto> replace ''/a.txt'' ''/a.txt'' ''/b.txt'',
         (''bob'', ''/a.txt'') := None, (''bob'', ''/b.txt'') \<mapsto> stobs ''Hi!'')
     \<and> (\<forall>xs ys. ''/a.txt'' = join CHR '','' (xs @ ''/a.txt'' # ys) \<and> CHR '','' \<notin> set ''/a.txt'' \<and>
           (\<forall>x \<in> set xs. \<not> contains x ''/a.txt'')
          \<longrightarrow> replace ''/a.txt'' ''/a.txt'' ''/b.txt'' = join CHR '','' (xs @ ''/b.txt'' # ys))"
    by (rule rename_moves_contents [OF 1(2) _ _ _ sample_words(2,3) rename_body_parsed])
      (simp_all add: sample_words 1(3) rename_map_def dat_def replace_def upload_data_def stobs_val_ok contains_def str_find_def)
  with 1(1) show ?thesis unfolding sample_web_def by (auto simp: fun_upd_def)
qed

theorem delete_unlisted_ends_frontend_witness:
  "delete_file (site_env sample_env 0 [] (\<lambda>_. 0) 9) upload_data ''bob''
     (map_to_json [(''file'', ''/a.txt''), (''folder'', ''/'')]) sample_site = Inl Out_of_range"
proof (rule delete_unlisted_ends_frontend [OF sample_inv])
  show "parse_json_string (map_to_json [(''file'', ''/a.txt''), (''folder'', ''/'')])
      = Inr [(''file'', ''/a.txt''), (''folder'', ''/'')]"
    by (subst parse_map_to_json) (simp_all add: plain_def put_all_def)
qed (simp_all add: word_eval dat_def sample_store listed_def not_found_def)


definition signup_form :: string where
  "signup_form = ''email=bob&name=Bob+B&password=pw''"

definition login_form :: string where
  "login_form = ''email=bob&password=pw''"

definition sample_cookie :: string where
  "sample_cookie = generate_cookie (mt sample_env)"

definition sample_request :: params where
  "sample_request = [(''Cookie'', session_header sample_cookie ''bob'')]"

lemma sample_cookie_eq: "sample_cookie = replicate 128 CHR ''0''"
proof -
  have "cookie_char 0 = CHR ''0''" by code_simp
  then show ?thesis by (simp add: sample_cookie_def generate_cookie_def sample_env_def map_replicate_const)
qed

lemma sample_cookie_ok: "val_ok sample_cookie"
proof -
  have "\<not> contains sample_cookie ''TSEQNUM''" "\<not> contains sample_cookie ''REPLICA''"
    by (rule not_contains_char [of "CHR ''T''"], simp_all add: sample_cookie_eq)
      (rule not_contains_char [of "CHR ''R''"], simp_all)
  then show ?thesis by (simp add: val_ok_def clean_text_def sample_cookie_eq isspace_def)
qed

lemma sample_header: "map_of (cookie_params (session_header sample_cookie ''bob'')) ''cookie'' = Some sample_cookie"
  "map_of (cookie_params (session_header sample_cookie ''bob'')) ''uuid'' = Some ''bob''"
  by (rule cookie_params_session; simp add: sample_cookie_eq isspace_def)+

lemma sample_forms:
  "params_from_url (url_decode signup_form) = Inr [(''email'', ''bob''), (''name'', ''Bob B''), (''password'', ''pw'')]"
  "params_from_url (url_decode login_form) = Inr [(''email'', ''bob''), (''password'', ''pw'')]"
  by code_simp+

lemma sample_hashed: "hash_password (site_env sample_env 0 [] (\<lambda>_. 0) 9) [(''email'', ''bob''), (''name'', ''Bob B''), (''password'', ''pw'')]
   = [(''email'', ''bob''), (''name'', ''Bob B''), (''password'', ''02'')]"
  by (simp add: hash_password_def hash_def site_env_def sample_env_def hex2_def)

lemma sample_values: "val_ok ''Bob B''" "val_ok ''02''"
  by (simp_all add: word_eval)

theorem signup_login_session_witness:
  "\<exists>s1 r s2 s3. signup (site_env sample_env 0 [] (\<lambda>_. 0) 9) signup_form sample_site = Inr (Redirect [(''success'', ''0'')], s1)
     \<and> login (site_env sample_env 0 [] (\<lambda>_. 0) 9) login_form s1 = Inr (Redirect r, s2)
     \<and> auth_user (site_env sample_env 0 [] (\<lambda>_. 0) 9) sample_request s2 = Inr (''bob'', s3)"
proof -
  let ?E = "site_env sample_env 0 [] (\<lambda>_. 0) 9" and ?c = "generate_cookie (mt sample_env)"
  have "\<exists>s1 name s2 s3. signup ?E signup_form sample_site = Inr (Redirect [(''success'', ''0'')], s1)
     \<and> login ?E login_form s1 = Inr (Redirect [(''Set-Cookie'', session_cookie ?c ''bob'' name), (''success'', ''0'')], s2)
     \<and> auth_user ?E sample_request s2 = Inr (''bob'', s3)"
  proof (rule signup_login_session [OF sample_inv _ _ sample_forms(1) _ _ _ _ _ sample_forms(2)])
    show "storable (hash_password ?E [(''email'', ''bob''), (''name'', ''Bob B''), (''password'', ''pw'')])"
      unfolding sample_hashed by (simp add: storable_def sample_values)
    show "val_ok ?c" "map_of (cookie_params (session_header sample_cookie ''bob'')) ''cookie'' = Some ?c"
      using sample_cookie_ok sample_header(1) by (simp_all add: sample_cookie_def)
  qed (simp_all add: sample_hashed sample_header sample_words dat_def sample_store sample_request_def)
  then show ?thesis by blast
qed

theorem session_needs_stored_cookie_witness:
  "\<exists>s s'. auth_user (site_env sample_env 0 [] (\<lambda>_. 0) 9) sample_request s = Inr (''bob'', s')
     \<and> deployed_kv s (''bob'', ''cookie'') = Some sample_cookie"
proof -
  have w: "word ''bob''" "''bob'' \<noteq> ''passwd''" by (simp_all add: word_eval)
  from web.PUT_ok [OF sample_inv w(1) word_literals(2) sample_cookie_ok, of sample_env 0 "[]" "\<lambda>_. 0" 9]
  obtain s where s: "deployed_inv sample_server s"
    "deployed_kv s = (deployed_kv sample_site)((''bob'', ''cookie'') \<mapsto> sample_cookie)" by (rule yieldsE)
  have req: "map_of sample_request ''Cookie'' = Some (session_header sample_cookie ''bob'')"
    by (simp add: sample_request_def)
  from web.auth_user_ok [OF s(1) req sample_header w, of sample_env 0 "[]" "\<lambda>_. 0" 9]
  obtain s' where s': "auth_user (site_env sample_env 0 [] (\<lambda>_. 0) 9) sample_request s = Inr (''bob'', s')"
    by (auto simp: s(2) elim: yieldsE)
  from session_needs_stored_cookie [OF s(1) req sample_header(2) w s'] sample_header(1)
  have "deployed_kv s (''bob'', ''cookie'') = Some sample_cookie" by simp
  with s' show ?thesis by blast
qed

section \<open>Mail\<close>

text \<open>
  C9: a mail is delivered from end to end: when the site has one storage server, and a session with
  a title, one recipient and a client name that the coordinator can look up has asked to send text
  (no zero bytes, short enough for the buffer), the mail server that reads the text in any pieces up
  to its first end (the last piece with at least the last three bytes of it) answers OK, and the web
  frontend, asked for the newest mail of the recipient's list, then shows that mail, with sender,
  subject, time and text.
\<close>

theorem mail_sent_is_listed:
  assumes "deployed_inv sc s" and "state sess = DATA_STATE" and "data_buffer sess = []" and "title sess \<noteq> []"
    and "take (rcpt_to_buffer_idx sess) (rcpt_to_buffer sess) = [Held u]" and "Freed \<notin> set (rcpt_to_buffer sess)"
    and "word (my_name sess)" and "word u" and "u \<noteq> ''passwd''"
    and "clean_text (listed (deployed_kv s) u ''eid_vector'')"
    and "CHR 0x00 \<notin> set text" and "length text < 1995"
    and "concat ps @ chunk = text @ end_of_mail" and "length (concat ps) \<le> length text + 2"
    and "\<not> contains (concat ps) end_of_mail"
    and "url_params data = Inr params" and "dat params ''offset'' = ''0''" and "dat params ''limit'' = ''1''"
    and "create_http_response 200 (''['' @ mail_json B (mail_from_buffer sess) (title sess) text @ '']'') (dat data ''Host'') = Inr r"
  shows "\<exists>sess' s1 s2. worker_reads (site_env B n ns H f) (ps @ [chunk]) sess s = Inr (sess', s1)
     \<and> written sess' = written sess @ [''+OK '' @ u @ crlf, ''250 OK'' @ crlf]
     \<and> email_list (site_env B n ns H f) data u s1 = Inr (r, s2)"
proof -
  let ?E = "site_env B n ns H f" and ?id = "mail_id B (mail_from_buffer sess) (title sess)"
  let ?ids = "add_mail (listed (deployed_kv s) u ''eid_vector'') ?id"
  let ?sess = "sess\<lparr>data_buffer := concat ps\<rparr>"
  have E: "mail_id ?E = mail_id B" "mail_json ?E = mail_json B"
    by (simp_all add: mail_id_def compute_hash_16_def mail_json_def site_env_def fun_eq_iff)
  have "worker_reads ?E ps sess s = Inr (?sess, s)"
    using data_pieces [OF assms(2), of ps ?E s] assms(3,12,14,15) by simp
  moreover obtain sess' s1 where
    1: "worker_read ?E chunk ?sess s = Inr (sess', s1)" "deployed_inv sc s1"
      "written sess' = written ?sess @ [''+OK '' @ u @ crlf, ''250 OK'' @ crlf]"
      "deployed_kv s1 = (deployed_kv s)((u, ''eid_vector'') \<mapsto> ?ids,
         (u, ?id) \<mapsto> stobs (mail_json B (mail_from_buffer sess) (title sess) text))"
    by (rule web.send_mail_delivers [OF assms(1), where sess = ?sess and u = u and chunk = chunk and B = B and r = n and rs = ns
          and H = H and f = f, unfolded E])
      (use assms(2-15) in simp_all)
  ultimately have sent: "worker_reads ?E (ps @ [chunk]) sess s = Inr (sess', s1)"
    by (simp add: worker_reads_append)
  obtain olds where split: "split ?ids CHR '','' = olds @ [?id]"
    using split_add_mail [OF mail_id_no_comma mail_id_neq_Nil] by blast
  have "deployed_kv s1 (u, ''eid_vector'') = Some ?ids" using mail_id_not_vector [of B "mail_from_buffer sess" "title sess"] by (auto simp: 1(4))
  moreover have "deployed_kv s1 (u, ?id) = Some (stobs (mail_json B (mail_from_buffer sess) (title sess) text))"
    by (simp add: 1(4))
  ultimately obtain s2 where "email_list ?E data u s1 = Inr (r, s2)"
    using web.email_list_last [OF 1(2) assms(8,9) mail_id_word _ add_mail_not_found [OF mail_id_not_found] split _ assms(16-19), of B n ns H f]
    by (auto elim: yieldsE)
  with sent 1(3) show ?thesis by auto
qed

theorem mail_sent_is_listed_witness:
  "\<exists>sess' s1 r s2. worker_reads (site_env sample_env 0 [] (\<lambda>_. 0) 9) ([''see ''] @ [''you'' @ end_of_mail])
       (smtp_addressed\<lparr>title := ''hi'', state := DATA_STATE\<rparr>) sample_site = Inr (sess', s1)
     \<and> email_list (site_env sample_env 0 [] (\<lambda>_. 0) 9)
         [(''Host'', ''h''), (''path'', ''/email-list?offset=0&limit=1'')] ''c@d'' s1 = Inr (r, s2)"
proof -
  let ?sess = "smtp_addressed\<lparr>title := ''hi'', state := DATA_STATE\<rparr>"
  let ?data = "[(''Host'', ''h''), (''path'', ''/email-list?offset=0&limit=1'')]"
  obtain r where r: "create_http_response 200 (''['' @ mail_json sample_env (mail_from_buffer ?sess) (title ?sess) ''see you'' @ '']'')
      (dat ?data ''Host'') = Inr r"
    by (simp add: create_http_response_def dat_def)
  have w: "word ''bob''" "word ''c@d''" "clean_text not_found" "''c@d'' \<noteq> ''passwd''"
    by (simp_all add: word_eval not_found_def)
  have "\<exists>sess' s1 s2. worker_reads (site_env sample_env 0 [] (\<lambda>_. 0) 9) ([''see ''] @ [''you'' @ end_of_mail]) ?sess sample_site = Inr (sess', s1)
     \<and> written sess' = written ?sess @ [''+OK '' @ ''c@d'' @ crlf, ''250 OK'' @ crlf]
     \<and> email_list (site_env sample_env 0 [] (\<lambda>_. 0) 9) ?data ''c@d'' s1 = Inr (r, s2)"
  proof (rule mail_sent_is_listed [OF sample_inv, where ?text = "''see you''" and r = r])
    show "url_params ?data = Inr [(''limit'', ''1''), (''offset'', ''0'')]" by code_simp
    show "\<not> contains (concat [''see '']) end_of_mail" by code_simp
    show "create_http_response 200 (''['' @ mail_json sample_env (mail_from_buffer ?sess) (title ?sess) ''see you'' @ '']'')
      (dat ?data ''Host'') = Inr r" by (rule r)
  qed (simp_all add: smtp_addressed_def w sample_store listed_def dat_def)
  then show ?thesis by blast
qed

section \<open>Requests\<close>

text \<open>
  C19: a POST request may arrive in any pieces: when the first one has the end of the headers, the
  server answers once, after the last piece, what the handler answers for the whole text with the
  parameters of the first piece. This is what it answers when the text arrives at once, unless a
  line of the body, which sets a parameter too, changes one of the headers the handlers read.
\<close>

theorem post_in_pieces:
  assumes "starts_with p ''POST ''" and "contains p (crlf @ crlf)"
    and "\<not> chunked_request (get_client_params p)" and "stoi (dat (get_client_params p) ''Content-Length'') = Inr n"
    and "0 \<le> n" and "length (p @ concat ps) = body_start p + nat n" and "length (p @ concat ps) < 2 ^ 64"
    and "[] \<notin> set ps"
  shows "run_client E lines (map Some (p # ps)) new_client s =
      ebind (handle_POST E (p @ concat ps) (get_client_params p) s)
        (\<lambda>(r, s'). Inr (([c_string (r @ crlf @ crlf)], new_client), s')) \<and>
    ((\<forall>k \<in> set post_headers. map_of (get_client_params (p @ concat ps)) k = map_of (get_client_params p) k) \<longrightarrow>
      run_client E lines (map Some (p # ps)) new_client s = run_client E lines [Some (p @ concat ps)] new_client s)"
proof -
  let ?whole = "p @ concat ps"
  have found: "str_find p (crlf @ crlf) \<noteq> None" using assms(2) by (simp add: contains_def)
  have pieces: "run_client E lines (map Some (p # ps)) new_client s =
      ebind (handle_POST E ?whole (get_client_params p) s) (\<lambda>(r, s'). Inr (([c_string (r @ crlf @ crlf)], new_client), s'))"
    by (rule post_rest [OF assms(1) found assms(3) get_client_params_neq_Nil assms(4,5,7,6)])
      (use assms(8) in \<open>simp_all add: new_client_def client_data_def\<close>)
  have whole: "run_client E lines (map Some [?whole]) new_client s =
      ebind (handle_POST E ?whole (get_client_params ?whole) s) (\<lambda>(r, s'). Inr (([c_string (r @ crlf @ crlf)], new_client), s'))"
    if same: "\<forall>k \<in> set post_headers. map_of (get_client_params ?whole) k = map_of (get_client_params p) k"
  proof (rule post_rest [OF assms(1) found _ get_client_params_neq_Nil _ assms(5,7,6)])
    show "\<not> chunked_request (get_client_params ?whole)"
      using assms(3) same by (simp add: chunked_request_def post_headers_def)
    show "stoi (dat (get_client_params ?whole) ''Content-Length'') = Inr n"
      using assms(4) same by (simp add: dat_def post_headers_def)
  qed (simp_all add: new_client_def client_data_def)
  show ?thesis
  proof (intro conjI impI pieces)
    assume same: "\<forall>k \<in> set post_headers. map_of (get_client_params ?whole) k = map_of (get_client_params p) k"
    show "run_client E lines (map Some (p # ps)) new_client s = run_client E lines [Some ?whole] new_client s"
      using pieces whole [OF same] by (simp only: handle_POST_headers [OF same] list.map)
  qed
qed

text \<open>
  a request that is not of one of the five methods ends the frontend process, and so does a
  POST or DELETE request without a content length: every other client loses its connection.
\<close>

theorem bad_request_ends_frontend:
  assumes "\<not> chunked_request (get_client_params b)"
    and "starts_with b ''POST '' \<or> starts_with b ''DELETE'' \<longrightarrow>
      map_of (get_client_params b) ''Content-Length'' = None"
    and "\<not> starts_with b ''GET ''" and "\<not> starts_with b ''HEAD ''" and "\<not> starts_with b ''OPTIONS ''"
  shows "handle_http_client E lines (Some b) new_client s \<in>
    {Inl Invalid_argument, Inl Undefined_behaviour}"
proof -
  let ?d = "get_client_params b"
  have "answer_request E b ?d s \<in> {Inl Invalid_argument, Inl Undefined_behaviour}"
  proof (cases "starts_with b ''POST '' \<or> starts_with b ''DELETE''")
    case True
    with assms(2) have "dat ?d ''Content-Length'' = []" by (simp add: dat_def)
    moreover have "stoi [] = Inl Invalid_argument" by (simp add: stoi_def strtol_def)
    ultimately have "is_full_body b ?d = Inl Invalid_argument" by (simp add: is_full_body_def)
    with True assms(3-5) show ?thesis by (auto simp: answer_request_def Let_def)
  next
    case False
    with assms(3-5) show ?thesis by (simp add: answer_request_def handle_ERR_def Let_def)
  qed
  then show ?thesis
    using assms(1) client_step [of new_client b E lines s] by (auto simp: new_client_def client_data_def)
qed


definition post_head :: string where
  "post_head = ''POST /login HTTP/1.1'' @ crlf @ ''Content-Length: 8'' @ crlf @ crlf @ ''ab''"

lemma post_same_headers:
  "\<forall>k \<in> set post_headers. map_of (get_client_params (post_head @ concat [''cde'', ''fgh''])) k = map_of (get_client_params post_head) k"
  unfolding post_headers_def by code_simp

theorem post_in_pieces_witness:
  "run_client sample_env [] (map Some (post_head # [''cde'', ''fgh''])) new_client sample_site =
   ebind (handle_POST sample_env (post_head @ concat [''cde'', ''fgh'']) (get_client_params post_head) sample_site)
     (\<lambda>(r, s'). Inr (([c_string (r @ crlf @ crlf)], new_client), s')) \<and>
   run_client sample_env [] (map Some (post_head # [''cde'', ''fgh''])) new_client sample_site =
   run_client sample_env [] [Some (post_head @ concat [''cde'', ''fgh''])] new_client sample_site"
proof -
  have "run_client sample_env [] (map Some (post_head # [''cde'', ''fgh''])) new_client sample_site =
     ebind (handle_POST sample_env (post_head @ concat [''cde'', ''fgh'']) (get_client_params post_head) sample_site)
       (\<lambda>(r, s'). Inr (([c_string (r @ crlf @ crlf)], new_client), s')) \<and>
     ((\<forall>k \<in> set post_headers. map_of (get_client_params (post_head @ concat [''cde'', ''fgh''])) k = map_of (get_client_params post_head) k) \<longrightarrow>
       run_client sample_env [] (map Some (post_head # [''cde'', ''fgh''])) new_client sample_site =
       run_client sample_env [] [Some (post_head @ concat [''cde'', ''fgh''])] new_client sample_site)"
  proof (rule post_in_pieces)
    show "contains post_head (crlf @ crlf)" "starts_with post_head ''POST ''" by code_simp+
    show "stoi (dat (get_client_params post_head) ''Content-Length'') = Inr 8" by code_simp
    show "length (post_head @ concat [''cde'', ''fgh'']) = body_start post_head + nat 8" by code_simp
    show "\<not> chunked_request (get_client_params post_head)" by code_simp
  qed (simp_all add: post_head_def)
  then show ?thesis using post_same_headers by blast
qed

section \<open>A user without a name\<close>

text \<open>The coordinator reads the third word of the request, which is not there.\<close>

lemma empty_helo: "deployed rs H f coord_address (''HELO passwd '' @ crlf) s = Inl Out_of_range"
proof -
  obtain c n where s: "s = (c, n)" by (cases s)
  let ?c = "c\<lparr>rands := rs\<rparr>"
  have read: "fst (do_read_backend crlf [Some (''HELO passwd '' @ crlf)]) = ''HELO passwd ''" by code_simp
  have "split ''HELO passwd '' CHR '' '' = [''HELO'', ''passwd'']" by code_simp
  then have "helo 20 ''HELO passwd '' ?c = Inl Out_of_range" by (simp add: helo_def at_def)
  moreover have "contains ''HELO passwd '' ''HELO passwd''" "''HELO passwd '' \<noteq> ''CLOSED''" "''HELO passwd '' \<noteq> ''ERROR''"
    by code_simp+
  ultimately have "frontend_message 20 ''HELO passwd '' ?c = Inl Out_of_range"
    by (simp only: frontend_message_def if_True if_False simp_thms)
  then have "coordinator_service rs 20 (''HELO passwd '' @ crlf) c = Inl Out_of_range"
    unfolding coordinator_service_def read by simp
  then show ?thesis by (simp add: s deployed_def)
qed

text \<open>
  anyone can end the coordinator, and with it the whole site, by a form: a login or a
  registration without an email is passed on with an empty name, on which the coordinator raises.
\<close>

theorem nameless_form_ends_coordinator:
  assumes "params_from_url (url_decode form) = Inr ps" and "dat ps ''email'' = []"
  shows "login (site_env B n ns H f) form s = Inl Out_of_range \<and> signup (site_env B n ns H f) form s = Inl Out_of_range"
proof -
  let ?E = "site_env B n ns H f"
  have "dat (hash_password ?E ps) ''email'' = []"
    using assms(2) by (auto simp: hash_password_def dat_def split: option.splits)
  moreover have "bend_connect (call ?E) (bcoord ?E) [] s = Inl Out_of_range"
    using empty_helo by (simp add: bend_connect_def greet_bend_def site_env_def)
  ultimately show ?thesis by (simp add: login_def signup_def assms(1))
qed

theorem nameless_form_ends_coordinator_witness:
  "login sample_web ''email=&password=x'' sample_site = Inl Out_of_range"
proof -
  have "params_from_url (url_decode ''email=&password=x'') = Inr [(''email'', []), (''password'', ''x'')]" by code_simp
  from nameless_form_ends_coordinator [OF this] show ?thesis by (simp add: sample_web_def dat_def)
qed

text \<open>
  C40: a second mail in one session ends the coordinator too: the name given with \<open>HELO\<close> is
  cleared by the first mail (and by a reset), and \<open>HELO\<close> is not accepted again.
\<close>

theorem second_mail_ends_coordinator:
  assumes "state sess0 = DATA_STATE" and "worker_read (site_env B n ns H f) chunk0 sess0 s0 = Inr (sess1, s1)"
    and "state sess1 \<noteq> DATA_STATE" and "(smtp_step (site_env B n ns H f))\<^sup>*\<^sup>* sess1 sess"
    and "state sess = DATA_STATE" and "length (data_buffer sess @ chunk) < 2000"
    and "received_dot (length (data_buffer sess)) (data_buffer sess @ chunk)"
    and "mail_title sess (data_buffer sess @ chunk) = Inr subject"
  shows "worker_read (site_env B n ns H f) chunk sess s = Inl Out_of_range"
proof -
  let ?E = "site_env B n ns H f"
  have "name_lost sess1" using worker_read_name_lost [OF assms(2)] assms(1,3) by blast
  then have "my_name sess = []" using smtp_steps_name_lost [OF assms(4)] by (simp add: name_lost_def)
  then have "send_mail ?E sess (data_buffer sess @ chunk) s = Inl Out_of_range"
    using empty_helo by (simp add: send_mail_def assms(8) site_env_def)
  then show ?thesis using assms(5-7) by (simp add: worker_read_def read_data_def Let_def)
qed

theorem second_mail_ends_coordinator_witness:
  "\<exists>sess1 s1 sess2. worker_read sample_web (''see you'' @ end_of_mail) (smtp_addressed\<lparr>title := ''hi'', state := DATA_STATE\<rparr>)
       sample_site = Inr (sess1, s1)
     \<and> worker_read sample_web (''MAIL FROM:<a@b>'' @ crlf @ ''RCPT TO:<c@d>'' @ crlf @ ''DATA'' @ crlf) sess1 s1 = Inr (sess2, s1)
     \<and> worker_read sample_web (''bye'' @ end_of_mail) sess2 s1 = Inl Out_of_range"
proof -
  let ?sess = "smtp_addressed\<lparr>title := ''hi'', state := DATA_STATE\<rparr>"
  let ?again = "''MAIL FROM:<a@b>'' @ crlf @ ''RCPT TO:<c@d>'' @ crlf @ ''DATA'' @ crlf"
  have w: "word ''bob''" "word ''c@d''" "clean_text not_found" "''c@d'' \<noteq> ''passwd''"
    by (simp_all add: word_eval not_found_def)
  obtain sess1 s1 where 1: "worker_read sample_web (''see you'' @ end_of_mail) ?sess sample_site = Inr (sess1, s1)" "state sess1 = READY"
    by (rule web.send_mail_delivers [OF sample_inv, where sess = ?sess and u = "''c@d''" and ?text = "''see you''"
          and chunk = "''see you'' @ end_of_mail" and B = sample_env and r = 0 and rs = "[]" and H = "\<lambda>_. 0" and f = 9,
          folded sample_web_def])
      (simp_all add: smtp_addressed_def sample_store listed_def w)
  obtain w where sess1: "sess1 = ?sess\<lparr>state := READY, rcpt_to_buffer_idx := 0, my_name := [], mail_from_buffer := [],
      data_buffer := [], rcpt_to_buffer := [Freed], written := w\<rparr>"
    using worker_read_delivered [OF 1(1) _ 1(2)] by (simp add: smtp_addressed_def)
  define sess2 where "sess2 = ?sess\<lparr>state := DATA_STATE, rcpt_to_buffer_idx := 1, my_name := [], mail_from_buffer := ''a@b'',
      data_buffer := [], rcpt_to_buffer := [Held ''c@d''], written := w @ [''250 OK'' @ crlf, ''250 OK'' @ crlf,
        ''354 Start mail input, end with <CRLF>.<CRLF>'' @ crlf]\<rparr>"
  have 2: "read_commands ?again sess1 = Inr sess2"
    unfolding sess1 sess2_def by code_simp simp
  have 3: "state sess2 = DATA_STATE" "data_buffer sess2 = []" "title sess2 = ''hi''"
    by (simp_all add: sess2_def)
  have read: "worker_read sample_web ?again sess1 s = Inr (sess2, s)" for s
    using 2 1(2) by (simp add: worker_read_def)
  from read [of s1] have "smtp_step sample_web sess1 sess2" unfolding smtp_step_def by (intro exI)
  then have steps: "(smtp_step (site_env sample_env 0 [] (\<lambda>_. 0) 9))\<^sup>*\<^sup>* sess1 sess2"
    unfolding sample_web_def by (rule r_into_rtranclp)
  have "worker_read sample_web (''bye'' @ end_of_mail) sess2 s1 = Inl Out_of_range"
    unfolding sample_web_def
  proof (rule second_mail_ends_coordinator [OF _ 1(1) [unfolded sample_web_def] _ steps 3(1)])
    show "received_dot (length (data_buffer sess2)) (data_buffer sess2 @ ''bye'' @ end_of_mail)"
      unfolding 3(2) by code_simp
    show "mail_title sess2 (data_buffer sess2 @ ''bye'' @ end_of_mail) = Inr ''hi''"
      by (simp add: mail_title_def 3(3))
  qed (simp_all add: 1(2) 3(2) end_of_mail_def)
  with 1(1) read show ?thesis by blast
qed

end
