(* ===== verification/Tpc_Safety.thy ===== *)
theory Tpc_Safety
  imports Server
begin

text \<open>
  What the 2PC log can never say: the runs of one server, every input in any order and
  restarts included, and the invariant that no transaction is decided twice.
\<close>

section \<open>Runs of a server\<close>

text \<open>
  A restart keeps the files and the configuration; \<open>main\<close> creates the missing files, loads
  the tablets and reads the 2PC log from its beginning.
\<close>

definition boot :: "node \<Rightarrow> exn + node" where
  "boot n =
     ebind (load_tablets_startup (create_files (n\<lparr>
        primary_addr := [], checkpoints := (\<lambda>_. 0), log_sequences := (\<lambda>_. 0), is_primary := False,
        table := (\<lambda>_. []), log_queues := (\<lambda>_. []), primary_queue := [], active_tablets := (\<lambda>_. False),
        checkpointing := (\<lambda>_. False), checkpoint_acks := (\<lambda>_. 0), recovering := (\<lambda>_. False),
        msg_queue := [], checkpoint_queue := [], row_locks := [], tpc_responses := [], tpc_queue := [],
        tpc_seq := 0, tpc_start_time := [], tpc_replicas := [], alive_replicas := [], last_seq := 0,
        tpc_pending := [], primary_recovering := False, replica_count := -1, tpc_queue_locked := False,
        queued_transactions := [], tpc_pos := 0, partition_fds := [], primary_fd := 0,
        frontend_fds := [], threads := []\<rparr>))) process_tpc_log"

text \<open>
  Every handler is one step, from its first line to its last. \<open>ok\<close> tells which messages arrive.
\<close>

inductive node_step :: "(string \<Rightarrow> nat) \<Rightarrow> (string \<Rightarrow> bool) \<Rightarrow> node \<Rightarrow> node \<Rightarrow> bool"
  for H :: "string \<Rightarrow> nat" and ok :: "string \<Rightarrow> bool" where
  message: "ok msg \<Longrightarrow> dispatch H f c msg n = Inr m \<Longrightarrow> node_step H ok n m"
| thread: "th \<in> set (threads n) \<Longrightarrow> run_thread th (n\<lparr>threads := remove1 th (threads n)\<rparr>) = Inr m \<Longrightarrow> node_step H ok n m"
| accept: "accept_connection cfg fd addr n = (c, m) \<Longrightarrow> node_step H ok n m"
| start: "node_step H ok n (start_connection c n)"
| close: "node_step H ok n (close_connection c n)"
| log: "node_step H ok n (log_round t n)"
| check: "is_primary n \<Longrightarrow> tpc_check_round n = Inr m \<Longrightarrow> node_step H ok n m"
| time: "node_step H ok n (n\<lparr>clock := k, clock_str := s\<rparr>)"
| restart: "boot n = Inr m \<Longrightarrow> node_step H ok n m"

definition node_run :: "(string \<Rightarrow> nat) \<Rightarrow> node \<Rightarrow> node \<Rightarrow> bool" where
  "node_run H = (node_step H (\<lambda>_. True))\<^sup>*\<^sup>*"

text \<open>
  The texts of a message that a handler copies into a line of the 2PC log: the hash before a
  command a replica passes on, the hash of a \<open>PREPARE\<close> and of a vote, and a decision as a whole.
  Nothing keeps a line feed out of them.
\<close>

definition prepare_hash :: "string \<Rightarrow> string" where
  "prepare_hash message =
     (let first_colon = str_find message '':'';
          second_colon = str_find_from message '':'' (npos_succ first_colon);
          third_colon = str_find_from message '':'' (npos_succ second_colon)
      in substr_between message second_colon third_colon)"

definition logged_texts :: "string \<Rightarrow> string list" where
  "logged_texts message =
     (if take 3 message = ''TPC'' then
        prepare_hash message #
        (let tokens = split message CHR '':''
         in if length tokens = 6 then [tokens ! 2] else if length tokens = 4 then [message] else [])
      else [substr_to message (str_find message '' '')])"

definition newline_free :: "string \<Rightarrow> bool" where
  "newline_free s = (newline \<notin> set s)"

definition one_line :: "string \<Rightarrow> bool" where
  "one_line message = (\<forall>t \<in> set (logged_texts message). newline_free t)"

definition one_line_run :: "(string \<Rightarrow> nat) \<Rightarrow> node \<Rightarrow> node \<Rightarrow> bool" where
  "one_line_run H = (node_step H one_line)\<^sup>*\<^sup>*"

section \<open>Decisions in the log\<close>

text \<open>The transaction a log line decides, read as \<open>process_tpc_log\<close> reads it.\<close>

definition decision_of :: "string \<Rightarrow> int list" where
  "decision_of line =
     (let tokens = split line CHR '':'' in
      if length tokens = 4 \<and> (tokens ! 1 = ''COMMIT'' \<or> tokens ! 1 = ''ABORT'')
      then (case stoi (tokens ! 3) of Inl _ \<Rightarrow> [] | Inr seq \<Rightarrow> [seq]) else [])"

definition decided :: "string list \<Rightarrow> int list" where
  "decided ls = concat (map decision_of ls)"

definition settled :: "node \<Rightarrow> int \<Rightarrow> bool" where
  "settled n s \<longleftrightarrow> s \<in> set (queued_transactions n) \<or> s \<le> last_seq n"

definition decided_once :: "node \<Rightarrow> bool" where
  "decided_once n \<longleftrightarrow>
     distinct (decided (tpc_file n)) \<and> (\<forall>s \<in> set (decided (tpc_file n)). settled n s) \<and>
     tpc_pos n = length (tpc_file n)"

text \<open>The hashes a server has noted, which may go into its log, hold no line feed.\<close>

definition hashes_plain :: "node \<Rightarrow> bool" where
  "hashes_plain n \<longleftrightarrow>
     (\<forall>s t. map_of (tpc_queue n) s = Some t \<longrightarrow> newline_free (tx_hash t)) \<and>
     (\<forall>(s, t) \<in> set (tpc_pending n). newline_free (tx_hash t)) \<and> (\<forall>l \<in> set (tpc_file n). newline_free l)"

text \<open>
  A step that only appends to the log and leaves the position at the end. With \<open>b\<close>, which stands
  for messages without line feeds, and newline_free hashes it decides only what was not settled, settles
  it, and keeps the hashes newline_free.
\<close>

definition safe_step :: "bool \<Rightarrow> node \<Rightarrow> node \<Rightarrow> bool" where
  "safe_step b n m \<longleftrightarrow>
     (\<forall>s. settled n s \<longrightarrow> settled m s) \<and>
     (tpc_pos n = length (tpc_file n) \<longrightarrow> tpc_pos m = length (tpc_file m)) \<and>
     (\<exists>ls. tpc_file m = tpc_file n @ ls \<and>
       (b \<and> hashes_plain n \<longrightarrow> hashes_plain m \<and> distinct (decided ls) \<and>
           (\<forall>s \<in> set (decided ls). \<not> settled n s \<and> settled m s)))"

lemma decided_append: "decided (xs @ ys) = decided xs @ decided ys"
  by (simp add: decided_def)

lemma decided_Nil [simp]: "decided [] = []"
  by (simp add: decided_def)

lemma safe_step_trans:
  assumes "safe_step b n m" and "safe_step b m p"
  shows "safe_step b n p"
proof -
  from assms(1) obtain xs where xs: "tpc_file m = tpc_file n @ xs"
    "b \<and> hashes_plain n \<longrightarrow> hashes_plain m \<and> distinct (decided xs) \<and> (\<forall>s \<in> set (decided xs). \<not> settled n s \<and> settled m s)"
    unfolding safe_step_def by blast
  from assms(2) obtain ys where ys: "tpc_file p = tpc_file m @ ys"
    "b \<and> hashes_plain m \<longrightarrow> hashes_plain p \<and> distinct (decided ys) \<and> (\<forall>s \<in> set (decided ys). \<not> settled m s \<and> settled p s)"
    unfolding safe_step_def by blast
  have mono: "\<forall>s. settled n s \<longrightarrow> settled m s" "\<forall>s. settled m s \<longrightarrow> settled p s"
    using assms unfolding safe_step_def by blast+
  have "tpc_file p = tpc_file n @ xs @ ys" using xs(1) ys(1) by simp
  moreover have "hashes_plain p \<and> distinct (decided (xs @ ys)) \<and> (\<forall>s \<in> set (decided (xs @ ys)). \<not> settled n s \<and> settled p s)"
    if "b \<and> hashes_plain n"
    using xs(2) ys(2) mono that by (auto simp: decided_append)
  ultimately show ?thesis
    using assms mono unfolding safe_step_def by blast
qed

lemma safe_step_frame:
  assumes "queued_transactions m = queued_transactions n" and "tpc_file m = tpc_file n"
    and "last_seq n \<le> last_seq m" and "tpc_pos m = tpc_pos n"
    and "\<And>s t. map_of (tpc_queue m) s = Some t \<Longrightarrow> map_of (tpc_queue n) s = Some t"
    and "set (tpc_pending m) \<subseteq> set (tpc_pending n)"
  shows "safe_step b n m"
proof -
  have "hashes_plain n \<Longrightarrow> hashes_plain m" using assms(5,6) unfolding hashes_plain_def assms(2) by blast
  then show ?thesis using assms unfolding safe_step_def settled_def by (auto intro!: exI [of _ "[]"])
qed

lemma safe_step_tpc_part: "tpc_part m = tpc_part n \<Longrightarrow> safe_step b n m"
  by (rule safe_step_frame) (simp_all add: tpc_part_def)

lemma safe_step_refl [simp]: "safe_step b n n"
  by (simp add: safe_step_tpc_part)

lemma safe_step_if: "(b \<Longrightarrow> hashes_plain n \<Longrightarrow> safe_step True n m) \<Longrightarrow> safe_step False n m \<Longrightarrow> safe_step b n m"
  unfolding safe_step_def by blast

lemma safe_step_weaken: "safe_step True n m \<Longrightarrow> safe_step b n m"
  unfolding safe_step_def by blast

lemma decided_once_step:
  assumes "decided_once n" and "hashes_plain n" and "safe_step True n m"
  shows "decided_once m" and "hashes_plain m"
proof -
  from assms(2,3) obtain ls where ls: "tpc_file m = tpc_file n @ ls" "distinct (decided ls)"
    "\<forall>s \<in> set (decided ls). \<not> settled n s \<and> settled m s" and h: "hashes_plain m" unfolding safe_step_def by blast
  have mono: "\<And>s. settled n s \<Longrightarrow> settled m s" using assms(3) unfolding safe_step_def by blast
  have n: "distinct (decided (tpc_file n))" "\<And>s. s \<in> set (decided (tpc_file n)) \<Longrightarrow> settled n s"
    using assms(1) unfolding decided_once_def by blast+
  have "tpc_pos m = length (tpc_file m)" using assms unfolding decided_once_def safe_step_def by blast
  moreover have "distinct (decided (tpc_file m))" using n ls by (auto simp: ls(1) decided_append)
  moreover have "\<forall>s \<in> set (decided (tpc_file m)). settled m s"
    using n(2) mono ls(3) by (auto simp: ls(1) decided_append)
  ultimately show "decided_once m" "hashes_plain m" using h unfolding decided_once_def by blast+
qed

lemma at_end_step: "safe_step b n m \<Longrightarrow> tpc_pos n = length (tpc_file n) \<Longrightarrow> tpc_pos m = length (tpc_file m)"
  unfolding safe_step_def by blast

lemma safe_efold:
  assumes "\<And>x n m. x \<in> set xs \<Longrightarrow> f x n = Inr m \<Longrightarrow> safe_step b n m" and "efold f xs n = Inr m"
  shows "safe_step b n m"
  using assms
proof (induction xs arbitrary: n)
  case (Cons x xs)
  from Cons.prems(2) obtain k where k: "f x n = Inr k" "efold f xs k = Inr m" by (auto simp: ebind_eq_Inr_iff)
  have "safe_step b k m" by (rule Cons.IH [OF _ k(2)]) (use Cons.prems(1) in auto)
  with Cons.prems(1) [OF _ k(1)] show ?case using safe_step_trans by auto
qed simp

section \<open>Every handler is safe\<close>

lemma split_last_token:
  assumes "d \<notin> set ys" and "ys \<noteq> []"
  shows "\<exists>ts. split (xs @ d # ys) d = ts @ [ys]"
proof -
  have "\<exists>ts. split_acc d acc (xs @ d # ys) = ts @ [ys]" for acc
  proof (induction xs arbitrary: acc)
    case Nil
    show ?case using assms by (simp add: split_acc_no_delim)
  next
    case (Cons x xs)
    from Cons.IH [of "[]"] obtain ts where "split_acc d [] (xs @ d # ys) = ts @ [ys]" by blast
    then have "acc # split_acc d [] (xs @ d # ys) = (acc # ts) @ [ys]" by simp
    then show ?case using Cons.IH [of "acc @ [x]"] by (metis append_Cons split_acc.simps(2))
  qed
  then show ?thesis by (simp add: split_def)
qed

lemma stoi_to_string_cases: "stoi (to_string s) = Inr s \<or> (\<exists>e. stoi (to_string s) = Inl e)"
  by (simp add: stoi_def strtol_to_string)

lemma decision_of_line: "decision_of (decision_line d h s) = [] \<or> decision_of (decision_line d h s) = [s]"
proof -
  have "CHR '':'' \<notin> set (to_string s)" by (simp add: to_string_notin isdigit_def)
  then obtain ts where ts: "split (decision_line d h s) CHR '':'' = ts @ [to_string s]"
    using split_last_token [of "CHR '':''" "to_string s" "''TPC:'' @ d @ '':'' @ h"]
    by (auto simp: decision_line_def)
  show ?thesis
  proof (cases "length (ts @ [to_string s]) = 4")
    case True
    then have "(ts @ [to_string s]) ! 3 = to_string s" by (simp add: nth_append)
    consider "stoi (to_string s) = Inr s" | e where "stoi (to_string s) = Inl e"
      using stoi_to_string_cases [of s] by blast
    then show ?thesis
      by cases (simp_all only: decision_of_def ts Let_def \<open>_ ! 3 = _\<close> sum.case, auto)
  next
    case False
    then show ?thesis unfolding decision_of_def ts Let_def by simp
  qed
qed

lemma decision_of_prepare: "decision_of (decision_line ''PREPARE'' h s) = []"
proof -
  have "split (decision_line ''PREPARE'' h s) CHR '':'' = ''TPC'' # ''PREPARE'' # split (h @ '':'' @ to_string s) CHR '':''"
    using split_append_delim [of "CHR '':''" "''TPC''" "''PREPARE:'' @ h @ '':'' @ to_string s"]
      split_append_delim [of "CHR '':''" "''PREPARE''" "h @ '':'' @ to_string s"]
    by (simp add: decision_line_def)
  then show ?thesis by (simp add: decision_of_def)
qed

lemma forward_msg_frame:
  "queued_transactions (forward_msg s n) = queued_transactions n" "tpc_file (forward_msg s n) = tpc_file n"
  "last_seq (forward_msg s n) = last_seq n" "tpc_pos (forward_msg s n) = tpc_pos n"
  "tpc_queue (forward_msg s n) = tpc_queue n" "tpc_queue_locked (forward_msg s n) = tpc_queue_locked n"
  "tpc_pending (forward_msg s n) = tpc_pending n" "tpc_part (forward_msg s n) = tpc_part n"
proof -
  have "tpc_part (fold (\<lambda>fd m. if fd = primary_fd m then m else do_write_backend fd s m) fds x) = tpc_part x" for fds x
    by (induction fds arbitrary: x) simp_all
  then show p: "tpc_part (forward_msg s n) = tpc_part n" by (simp add: forward_msg_def)
  show "queued_transactions (forward_msg s n) = queued_transactions n" "tpc_file (forward_msg s n) = tpc_file n"
    "last_seq (forward_msg s n) = last_seq n" "tpc_pos (forward_msg s n) = tpc_pos n"
    "tpc_queue (forward_msg s n) = tpc_queue n" "tpc_queue_locked (forward_msg s n) = tpc_queue_locked n"
    "tpc_pending (forward_msg s n) = tpc_pending n"
    using tpc_part_eqD [OF p] by simp_all
qed

lemma set_status_frame:
  "queued_transactions (set_tx_status s st n) = queued_transactions n" "tpc_file (set_tx_status s st n) = tpc_file n"
  "last_seq (set_tx_status s st n) = last_seq n" "tpc_pos (set_tx_status s st n) = tpc_pos n"
  "tpc_part (set_msg_success h st n) = tpc_part n" "tpc_pending (set_tx_status s st n) = tpc_pending n"
  by (simp_all add: set_tx_status_def set_msg_success_def tpc_part_def role_def split: option.split)

lemma set_tx_status_hash:
  assumes "map_of (tpc_queue (set_tx_status s st n)) k = Some t"
  obtains t' where "map_of (tpc_queue n) k = Some t'" and "tx_hash t = tx_hash t'"
proof (cases "map_of (tpc_queue n) s")
  case None
  with assms show thesis by (intro that) (simp_all add: set_tx_status_def)
next
  case (Some t0)
  show thesis
  proof (cases "k = s")
    case True
    with assms Some have "t = t0\<lparr>tx_status := st\<rparr>" by (simp add: set_tx_status_def update_conv)
    with Some True show thesis by (intro that) simp_all
  next
    case False
    with assms Some show thesis by (intro that) (simp_all add: set_tx_status_def update_conv)
  qed
qed

text \<open>A text without a line feed becomes one line of the log; no line holds a line feed.\<close>

lemma file_lines_one: "newline_free s \<Longrightarrow> file_lines (s @ [newline]) = [s]"
  using file_lines_step [of s "[]"] by (simp add: newline_free_def) (simp add: file_lines_def split_def)

lemma split_token_subset: "t \<in> set (split s d) \<Longrightarrow> set t \<subseteq> set s"
proof -
  have "t \<in> set (split_acc d acc s) \<Longrightarrow> set t \<subseteq> set acc \<union> set s" for acc
    by (induction s arbitrary: acc) (fastforce split: if_splits)+
  from this [of "[]"] show "t \<in> set (split s d) \<Longrightarrow> set t \<subseteq> set s" by (simp add: split_def)
qed

lemma map_put_mem: "(s, t) \<in> set (map_put k v m) \<Longrightarrow> (s, t) = (k, v) \<or> (s, t) \<in> set m"
  by (induction m) (auto split: if_splits)

lemma delete_mem: "p \<in> set (AList.delete k m) \<Longrightarrow> p \<in> set m"
  by (simp add: AList.delete_eq)

lemma file_lines_free: "l \<in> set (file_lines c) \<Longrightarrow> newline_free l"
  by (auto simp: file_lines_def newline_free_def dest: split_tokens)

lemma newline_free_decision_line: "newline_free d \<Longrightarrow> newline_free h \<Longrightarrow> newline_free (decision_line d h s)"
  by (simp add: newline_free_def decision_line_def to_string_notin isdigit_def)

lemma newline_free_names: "newline_free ''COMMIT''" "newline_free ''ABORT''" "newline_free ''PREPARE''"
  by (simp_all add: newline_free_def)

lemma newline_free_create_hash: "newline_free (create_hash H n cmd)"
  by (simp add: create_hash_def newline_free_def to_string_notin isdigit_def)

lemma hashes_plain_write:
  assumes "hashes_plain n" and "tpc_file m = tpc_file n @ file_lines c" and "tpc_pending m = tpc_pending n"
    and "\<And>k t. map_of (tpc_queue m) k = Some t \<Longrightarrow> newline_free (tx_hash t)"
  shows "hashes_plain m"
  using assms file_lines_free [of _ c] unfolding hashes_plain_def by auto

lemma with_queue_lockD: "with_queue_lock g n = Inr m \<Longrightarrow> m = g n \<and> \<not> tpc_queue_locked n"
  by (simp add: with_queue_lock_def split: if_splits)

lemma tpc_loop_safe: "tpc_loop k n = Inr m \<Longrightarrow> k = last_seq n + 1 \<Longrightarrow> safe_step b n m"
proof (induction k n rule: tpc_loop.induct)
  case (1 k n)
  show ?case
  proof (cases "map_of (tpc_queue n) k")
    case None
    with "1.prems"(1) have "m = n\<lparr>tpc_queue_locked := False\<rparr>" by (simp add: tpc_loop.simps [of k n])
    then show ?thesis by (intro safe_step_frame) simp_all
  next
    case (Some t)
    show ?thesis
    proof (cases "tx_status t = ''PREPARE''")
      case True
      with Some "1.prems"(1) show ?thesis by (simp add: tpc_loop.simps [of k n])
    next
      case False
      with Some "1.prems"(1) obtain n' where n': "tpc_step k t n = Inr n'" "tpc_loop (k + 1) n' = Inr m"
        by (auto simp: tpc_loop.simps [of k n] split: sum.splits)
      have p: "tpc_part n' = tpc_part (take_transaction k n)" by (rule tpc_step_part [OF n'(1)])
      have "safe_step b n (take_transaction k n)"
        using "1.prems"(2) by (intro safe_step_frame) (auto simp: take_transaction_def split: if_splits)
      then have first: "safe_step b n n'" using safe_step_tpc_part [OF p] safe_step_trans by blast
      have "last_seq n' = k" using tpc_part_eqD(5) [OF p] by (simp add: take_transaction_def)
      then have "safe_step b n' m" using "1.IH" [OF Some False n'(1) n'(2)] by simp
      with first show ?thesis using safe_step_trans by blast
    qed
  qed
qed

lemma process_tpc_queue_safe: "process_tpc_queue n = Inr m \<Longrightarrow> safe_step b n m"
proof -
  assume "process_tpc_queue n = Inr m"
  then have "tpc_loop (last_seq n + 1) (n\<lparr>tpc_queue_locked := True\<rparr>) = Inr m"
    by (simp add: process_tpc_queue_def split: if_splits)
  then have "safe_step b (n\<lparr>tpc_queue_locked := True\<rparr>) m" by (rule tpc_loop_safe) simp
  moreover have "safe_step b n (n\<lparr>tpc_queue_locked := True\<rparr>)" by (rule safe_step_frame) simp_all
  ultimately show "safe_step b n m" using safe_step_trans by blast
qed


lemma already_processedD:
  assumes "already_processed s n = Inr False"
  shows "\<not> settled n s"
  using assms by (auto simp: already_processed_def with_queue_lock_def settled_def split: if_splits)

lemma record_decision_safe:
  assumes "already_processed s n = Inr False"
    and "b \<Longrightarrow> hashes_plain n \<Longrightarrow> (decided ls = [] \<or> decided ls = [s]) \<and> hashes_plain m"
    and "queued_transactions m = List.insert s (queued_transactions n)" and "tpc_file m = tpc_file n @ ls"
    and "last_seq m = last_seq n" and "tpc_pos m = length (tpc_file m)"
  shows "safe_step b n m"
proof -
  have s: "\<not> settled n s" "settled m s" using already_processedD [OF assms(1)] assms(3) by (simp_all add: settled_def)
  have "\<forall>k. settled n k \<longrightarrow> settled m k" using assms(3,5) by (simp add: settled_def)
  moreover have "hashes_plain m \<and> distinct (decided ls) \<and> (\<forall>k \<in> set (decided ls). \<not> settled n k \<and> settled m k)"
    if "b \<and> hashes_plain n" using assms(2) that s by auto
  ultimately show ?thesis using assms(4,6) unfolding safe_step_def by blast
qed

lemma decided_one_line: "newline_free l \<Longrightarrow> decided (file_lines (l @ [newline])) = decision_of l"
  by (simp add: file_lines_one decided_def)

lemma take_decision_safe:
  assumes run: "take_decision d s h n = Inr m" and new: "already_processed s n = Inr False"
    and newline_free: "b \<Longrightarrow> hashes_plain n \<Longrightarrow> newline_free h" "newline_free d"
  shows "safe_step b n m"
proof -
  let ?n1 = "n\<lparr>queued_transactions := List.insert s (queued_transactions n),
                  tpc_responses := AList.delete s (tpc_responses n),
                  tpc_start_time := AList.delete s (tpc_start_time n)\<rparr>"
  let ?n2 = "set_msg_success h d (forward_msg (decision_line d h s @ crlf) (write_to_tpc_log (decision_line d h s) ?n1))"
  let ?n3 = "set_tx_status s d ?n2"
  let ?ls = "file_lines (decision_line d h s @ [newline])"
  have n2: "tpc_queue ?n2 = tpc_queue n" "tpc_pending ?n2 = tpc_pending n" "tpc_file ?n2 = tpc_file n @ ?ls"
    "queued_transactions ?n2 = List.insert s (queued_transactions n)" "last_seq ?n2 = last_seq n"
    "tpc_pos ?n2 = length (tpc_file n @ ?ls)"
    by (simp_all add: tpc_part_eqD [OF set_status_frame(5)] forward_msg_frame write_to_tpc_log_def Let_def)
  have "process_tpc_queue ?n3 = Inr m"
    using run by (auto simp: take_decision_def Let_def ebind_eq_Inr_iff dest: with_queue_lockD)
  then have "safe_step b ?n3 m" by (rule process_tpc_queue_safe)
  moreover have "safe_step b n ?n3"
  proof (rule record_decision_safe [OF new])
    assume b: "b" "hashes_plain n"
    have "decided ?ls = [] \<or> decided ?ls = [s]"
      using decision_of_line [of d h s] newline_free_decision_line [OF newline_free(2) newline_free(1) [OF b]]
      by (simp add: decided_one_line)
    moreover have "hashes_plain ?n3"
    proof (rule hashes_plain_write [OF b(2)])
      show "newline_free (tx_hash t)" if "map_of (tpc_queue ?n3) k = Some t" for k t
        using that b(2) by (elim set_tx_status_hash) (auto simp: n2 hashes_plain_def)
    qed (simp_all add: set_status_frame n2)
    ultimately show "(decided ?ls = [] \<or> decided ?ls = [s]) \<and> hashes_plain ?n3" by blast
  qed (simp_all add: set_status_frame n2)
  ultimately show ?thesis using safe_step_trans by blast
qed

lemma primary_decide_safe:
  assumes run: "primary_decide d s h n = Inr m" and newline_free: "b \<Longrightarrow> hashes_plain n \<Longrightarrow> newline_free h" "newline_free d"
  shows "safe_step b n m"
proof (cases "already_processed s n = Inr True")
  case True
  with run show ?thesis by (simp add: primary_decide_def)
next
  case False
  with run have new: "already_processed s n = Inr False"
    unfolding primary_decide_def by (cases "already_processed s n") auto
  with run have "take_decision d s h n = Inr m" by (simp add: primary_decide_def)
  from take_decision_safe [OF this new] newline_free show ?thesis by blast
qed

lemma append_line_safe:
  assumes "b \<Longrightarrow> hashes_plain n \<Longrightarrow> decided ls = [] \<and> hashes_plain m" and "queued_transactions m = queued_transactions n"
    and "tpc_file m = tpc_file n @ ls" and "last_seq m = last_seq n" and "tpc_pos m = length (tpc_file m)"
  shows "safe_step b n m"
  using assms unfolding safe_step_def settled_def by auto

lemma decided_prepare: "newline_free h \<Longrightarrow> decided (file_lines (decision_line ''PREPARE'' h s @ [newline])) = []"
  using decided_one_line [OF newline_free_decision_line [OF newline_free_names(3)]] by (simp add: decision_of_prepare)

lemma queue_update_plain:
  assumes "map_of (AList.update s t0 q) k = Some t" and "newline_free (tx_hash t0)"
    and "\<And>k t. map_of q k = Some t \<Longrightarrow> newline_free (tx_hash t)"
  shows "newline_free (tx_hash t)"
  using assms by (cases "k = s") (auto simp: update_conv)

lemma start_tpc_safe:
  assumes run: "start_tpc cmd h s n = Inr m" and newline_free: "b \<Longrightarrow> hashes_plain n \<Longrightarrow> newline_free h"
  shows "safe_step b n m"
proof -
  let ?ls = "file_lines (decision_line ''PREPARE'' h s @ [newline])"
  have m: "tpc_queue m = AList.update s \<lparr>tx_status = ''PREPARE'', tx_command = cmd, tx_hash = h\<rparr> (tpc_queue n)"
    "tpc_pending m = tpc_pending n" "tpc_file m = tpc_file n @ ?ls" "queued_transactions m = queued_transactions n"
    "last_seq m = last_seq n" "tpc_pos m = length (tpc_file n @ ?ls)"
    using run by (auto simp: start_tpc_def Let_def ebind_eq_Inr_iff forward_msg_frame write_to_tpc_log_def
      dest!: with_queue_lockD split: if_splits)
  show ?thesis
  proof (rule append_line_safe [where ls = ?ls])
    assume b: "b" "hashes_plain n"
    have "hashes_plain m"
    proof (rule hashes_plain_write [OF b(2) m(3,2)])
      show "newline_free (tx_hash t)" if "map_of (tpc_queue m) k = Some t" for k t
        by (rule queue_update_plain [OF that [unfolded m(1)]]) (use b(2) newline_free [OF b] in \<open>auto simp: hashes_plain_def\<close>)
    qed
    then show "decided ?ls = [] \<and> hashes_plain m" using decided_prepare [OF newline_free [OF b]] by blast
  qed (simp_all add: m)
qed

lemma get_command_locks_tpc: "get_command_locks cmd n = (b, m) \<Longrightarrow> tpc_part m = tpc_part n"
  using get_command_locks_frame [of cmd n] by (metis snd_conv tpc_part_updates(5))

lemma hashes_plain_responses [simp]: "hashes_plain (n\<lparr>tpc_responses := r\<rparr>) = hashes_plain n"
  by (simp add: hashes_plain_def)

lemma primary_vote_safe:
  assumes run: "primary_vote msg n = Inr m" and newline_free: "b \<Longrightarrow> length (split msg CHR '':'') = 6 \<Longrightarrow> newline_free (split msg CHR '':'' ! 2)"
  shows "safe_step b n m"
proof (cases "length (split msg CHR '':'') = 6")
  case False
  with run show ?thesis by (auto simp: primary_vote_def split: if_splits)
next
  case True
  let ?h = "split msg CHR '':'' ! 2"
  have step: "safe_step b n p" if "get_command_locks cmd (n\<lparr>tpc_responses := r\<rparr>) = (ok, q)"
    and "primary_decide d s ?h q = Inr p" and "newline_free d" for cmd r ok q d s p
  proof -
    have q: "tpc_part q = tpc_part (n\<lparr>tpc_responses := r\<rparr>)" using get_command_locks_tpc [OF that(1)] .
    have "safe_step b n q" by (rule safe_step_frame) (use tpc_part_eqD [OF q] in simp_all)
    moreover have "safe_step b q p" using primary_decide_safe [OF that(2) _ that(3)] newline_free True by blast
    ultimately show ?thesis using safe_step_trans by blast
  qed
  have decide: "safe_step b n p" if "primary_decide d s ?h n = Inr p" and "newline_free d" for d s p
    using primary_decide_safe [OF that(1) _ that(2)] newline_free True by blast
  have resp: "safe_step b n (n\<lparr>tpc_responses := r\<rparr>)" for r by (rule safe_step_frame) simp_all
  show ?thesis
    using run unfolding primary_vote_def Let_def primary_commit_transaction_def primary_abort_transaction_def
    by (auto simp: ebind_eq_Inr_iff resp newline_free_names split: if_splits option.splits prod.splits
        intro: step decide)
qed

lemma replica_prepare_safe:
  assumes run: "replica_prepare msg n = Inr m" and newline_free: "b \<Longrightarrow> newline_free (prepare_hash msg)"
  shows "safe_step b n m"
proof -
  let ?h = "prepare_hash msg"
  have step: "safe_step b n (do_write_backend fd rep q)"
    if "get_command_locks cmd ((write_to_tpc_log (decision_line ''PREPARE'' ?h s) n)\<lparr>tpc_seq := a,
          tpc_queue := AList.update s \<lparr>tx_status = ''PREPARE'', tx_command = cmd', tx_hash = ?h\<rparr> (tpc_queue n)\<rparr>) = (v, q)"
    for fd rep cmd cmd' s a v q
  proof -
    let ?ls = "file_lines (decision_line ''PREPARE'' ?h s @ [newline])"
    have q: "tpc_part q = tpc_part ((write_to_tpc_log (decision_line ''PREPARE'' ?h s) n)\<lparr>tpc_seq := a,
          tpc_queue := AList.update s \<lparr>tx_status = ''PREPARE'', tx_command = cmd', tx_hash = ?h\<rparr> (tpc_queue n)\<rparr>)"
      by (rule get_command_locks_tpc [OF that])
    let ?m = "do_write_backend fd rep q"
    have m: "tpc_queue ?m = AList.update s \<lparr>tx_status = ''PREPARE'', tx_command = cmd', tx_hash = ?h\<rparr> (tpc_queue n)"
      "tpc_pending ?m = tpc_pending n" "tpc_file ?m = tpc_file n @ ?ls" "queued_transactions ?m = queued_transactions n"
      "last_seq ?m = last_seq n" "tpc_pos ?m = length (tpc_file n @ ?ls)"
      using tpc_part_eqD [OF q] by (simp_all add: do_write_backend_def send_def write_to_tpc_log_def Let_def)
    show ?thesis
    proof (rule append_line_safe [where ls = ?ls])
      assume b: "b" "hashes_plain n"
      have "hashes_plain ?m"
      proof (rule hashes_plain_write [OF b(2) m(3,2)])
        show "newline_free (tx_hash t)" if "map_of (tpc_queue ?m) k = Some t" for k t
          by (rule queue_update_plain [OF that [unfolded m(1)]]) (use b(2) newline_free [OF b(1)] in \<open>auto simp: hashes_plain_def\<close>)
      qed
      then show "decided ?ls = [] \<and> hashes_plain ?m" using decided_prepare [OF newline_free [OF b(1)]] by blast
    qed (simp_all add: m)
  qed
  have q: "tpc_queue (write_to_tpc_log l n) = tpc_queue n" "tpc_seq (write_to_tpc_log l n) = tpc_seq n" for l
    by (simp_all add: write_to_tpc_log_def Let_def)
  show ?thesis
    using run unfolding replica_prepare_def Let_def prepare_hash_def [unfolded Let_def, symmetric] q
    by (auto simp: ebind_eq_Inr_iff split: if_splits prod.splits intro: step)
qed

lemma decision_of_message:
  assumes "split msg CHR '':'' = tokens" and "length tokens = 4" and "stoi (tokens ! 3) = Inr s"
  shows "decision_of msg = [] \<or> decision_of msg = [s]"
  unfolding decision_of_def Let_def assms(1) assms(3) by simp

lemma replica_decision_safe:
  assumes run: "replica_decision msg n = Inr m" and newline_free: "b \<Longrightarrow> length (split msg CHR '':'') = 4 \<Longrightarrow> newline_free msg"
  shows "safe_step b n m"
proof (cases "length (split msg CHR '':'') = 4")
  case False
  with run show ?thesis by (simp add: replica_decision_def)
next
  case True
  let ?ts = "split msg CHR '':''"
  from True run obtain s where s: "stoi (?ts ! 3) = Inr s" unfolding replica_decision_def Let_def
    by (auto simp: ebind_eq_Inr_iff)
  show ?thesis
  proof (cases "already_processed s n = Inr True")
    case processed: True
    with run s True show ?thesis by (simp add: replica_decision_def)
  next
    case False
    with run s True have new: "already_processed s n = Inr False"
      unfolding replica_decision_def by (cases "already_processed s n") auto
    let ?n2 = "set_msg_success (?ts ! 2) (?ts ! 1)
        (write_to_tpc_log msg (n\<lparr>queued_transactions := List.insert s (queued_transactions n)\<rparr>))"
    let ?n3 = "set_tx_status s (?ts ! 1) ?n2" and ?ls = "file_lines (msg @ [newline])"
    have n2: "tpc_queue ?n2 = tpc_queue n" "tpc_pending ?n2 = tpc_pending n" "tpc_file ?n2 = tpc_file n @ ?ls"
      "queued_transactions ?n2 = List.insert s (queued_transactions n)" "last_seq ?n2 = last_seq n"
      "tpc_pos ?n2 = length (tpc_file n @ ?ls)"
      by (simp_all add: tpc_part_eqD [OF set_status_frame(5)] write_to_tpc_log_def Let_def)
    have "process_tpc_queue ?n3 = Inr m"
      using run new s True by (auto simp: replica_decision_def Let_def ebind_eq_Inr_iff dest: with_queue_lockD)
    then have "safe_step b ?n3 m" by (rule process_tpc_queue_safe)
    moreover have "safe_step b n ?n3"
    proof (rule record_decision_safe [OF new])
      assume b: "b" "hashes_plain n"
      have "decided ?ls = [] \<or> decided ?ls = [s]"
        using decision_of_message [OF refl True s] decided_one_line [OF newline_free [OF b(1) True]] by simp
      moreover have "hashes_plain ?n3"
      proof (rule hashes_plain_write [OF b(2)])
        show "newline_free (tx_hash t)" if "map_of (tpc_queue ?n3) k = Some t" for k t
        proof -
          from that obtain t' where "map_of (tpc_queue ?n2) k = Some t'" and t: "tx_hash t = tx_hash t'"
            by (rule set_tx_status_hash)
          then show ?thesis using b(2) unfolding n2(1) hashes_plain_def t by blast
        qed
      qed (simp_all only: set_status_frame n2)
      ultimately show "(decided ?ls = [] \<or> decided ?ls = [s]) \<and> hashes_plain ?n3" by blast
    qed (simp_all only: set_status_frame n2)
    ultimately show ?thesis using safe_step_trans by blast
  qed
qed

lemma handle_tpc_safe:
  assumes run: "handle_tpc msg n = Inr m" and ok: "b \<Longrightarrow> one_line msg" and tpc: "take 3 msg = ''TPC''"
  shows "safe_step b n m"
proof -
  have "newline_free (prepare_hash msg)" "length (split msg CHR '':'') = 6 \<Longrightarrow> newline_free (split msg CHR '':'' ! 2)"
    "length (split msg CHR '':'') = 4 \<Longrightarrow> newline_free msg" if "b"
    using ok [OF that] tpc by (auto simp: one_line_def logged_texts_def Let_def)
  with run show ?thesis
    by (auto simp: handle_tpc_def split: if_splits intro: primary_vote_safe replica_prepare_safe replica_decision_safe)
qed

lemma ensure_loaded_safe: "ensure_loaded t n = Inr m \<Longrightarrow> safe_step b n m"
  by (drule ensure_loaded_tpc) (rule safe_step_tpc_part)

lemma execute_command_safe: "execute_command cmd n = Inr m \<Longrightarrow> safe_step b n m"
  by (drule execute_command_tpc) (rule safe_step_tpc_part)

lemma primary_command_safe:
  assumes run: "primary_command H h0 msg fd b n = Inr m" and newline_free: "p \<Longrightarrow> newline_free h0"
  shows "safe_step p n m"
proof -
  let ?h = "if b then h0 else create_hash H n msg"
  have h: "p \<Longrightarrow> newline_free ?h" using newline_free newline_free_create_hash by simp
  obtain kw row col where cp: "command_parts msg = (kw, row, col)" by (metis prod_cases3)
  let ?q = "\<lparr>mq_fd = fd, from_frontend = \<not> b, tpc_success = ''PREPARE'', original_ipport = ''NA'',
    mq_opt = opt_of kw, mq_row = row, mq_col = col\<rparr>"
  let ?n1 = "n\<lparr>tpc_seq := tpc_seq n + 1, msg_queue := AList.update ?h ?q (msg_queue n)\<rparr>"
  obtain ok n2 where lk: "get_command_locks msg ?n1 = (ok, n2)" by (cases "get_command_locks msg ?n1")
  have n1: "safe_step p n ?n1" by (rule safe_step_frame) simp_all
  show "safe_step p n m"
  proof (cases "partition_fds n = []")
    case False
    then have "start_tpc msg ?h (tpc_seq n + 1) ?n1 = Inr m"
      using run by (simp add: primary_command_def cp Let_def)
    from start_tpc_safe [OF this h] n1 show ?thesis using safe_step_trans by blast
  next
    case True
    have n2: "safe_step p ?n1 n2" using get_command_locks_tpc [OF lk] by (rule safe_step_tpc_part)
    show ?thesis
    proof (cases ok)
      case False
      have "safe_step p n2 m"
        by (rule safe_step_tpc_part)
          (use run True False in \<open>auto simp: primary_command_def cp lk Let_def do_write_backend_def send_def tpc_part_def role_def\<close>)
      then show ?thesis using n1 n2 safe_step_trans by blast
    next
      case ok: True
      from run True ok obtain n3 n5 where n3: "ensure_loaded (get_tablet row) n2 = Inr n3"
        and n5: "execute_command msg (log_message msg (last_seq n3 + 1) (get_tablet row)
            (n3\<lparr>last_seq := last_seq n3 + 1\<rparr>)) = Inr n5"
        and m: "tpc_part m = tpc_part n5"
        by (auto simp: primary_command_def cp lk Let_def ebind_eq_Inr_iff do_write_backend_def send_def tpc_part_def role_def)
      let ?n4 = "log_message msg (last_seq n3 + 1) (get_tablet row) (n3\<lparr>last_seq := last_seq n3 + 1\<rparr>)"
      have "safe_step p n3 ?n4" by (rule safe_step_frame) (simp_all add: log_message_def Let_def)
      then have "safe_step p n2 n5"
        using ensure_loaded_safe [OF n3, of p] execute_command_safe [OF n5, of p] safe_step_trans by blast
      then show ?thesis using n1 n2 safe_step_tpc_part [OF m, of p] safe_step_trans by blast
    qed
  qed
qed

lemma replica_command_safe: "safe_step b n (replica_command H msg fd n)"
  by (rule safe_step_frame) (auto simp: replica_command_def Let_def send_def split: if_split_asm)

lemma handle_message_safe:
  assumes "handle_message H h0 msg fd b t n = Inr m"
    and "p \<Longrightarrow> \<not> t \<Longrightarrow> newline_free h0" and "p \<Longrightarrow> t \<Longrightarrow> one_line msg" and "t \<Longrightarrow> take 3 msg = ''TPC''"
  shows "safe_step p n m"
  using assms by (auto simp: handle_message_def replica_command_safe split: if_splits
      intro: handle_tpc_safe primary_command_safe)

lemma process_log_line_fields:
  assumes "process_log_line line n = Inr m"
  shows "queued_transactions m = queued_transactions n" "tpc_file m = tpc_file n" "tpc_pos m = tpc_pos n"
    "last_seq n \<le> last_seq m" "primary_recovering m = primary_recovering n" "tpc_queue m = tpc_queue n"
proof -
  have "queued_transactions m = queued_transactions n \<and> tpc_file m = tpc_file n \<and> tpc_pos m = tpc_pos n \<and>
    last_seq n \<le> last_seq m \<and> primary_recovering m = primary_recovering n \<and> tpc_queue m = tpc_queue n"
  proof (cases "stoi (split line CHR '':'' ! 3)")
    case (Inl e)
    with assms show ?thesis unfolding process_log_line_def Let_def by (simp split: if_split_asm)
  next
    case (Inr s)
    with assms show ?thesis
      unfolding process_log_line_def Let_def Inr ebind_Inr by (auto split: if_split_asm)
  qed
  then show "queued_transactions m = queued_transactions n" "tpc_file m = tpc_file n" "tpc_pos m = tpc_pos n"
    "last_seq n \<le> last_seq m" "primary_recovering m = primary_recovering n" "tpc_queue m = tpc_queue n" by simp_all
qed

lemma process_log_line_pending:
  assumes "process_log_line line n = Inr m" and "(s, t) \<in> set (tpc_pending m)"
  shows "(s, t) \<in> set (tpc_pending n) \<or> length (split line CHR '':'') = 4 \<and> tx_hash t = split line CHR '':'' ! 2"
proof (cases "stoi (split line CHR '':'' ! 3)")
  case (Inl e)
  with assms show ?thesis unfolding process_log_line_def Let_def by (simp split: if_split_asm)
next
  case (Inr k)
  with assms show ?thesis
    unfolding process_log_line_def Let_def Inr ebind_Inr
    by (auto split: if_split_asm dest!: map_put_mem delete_mem)
qed

lemma process_log_line_decided:
  assumes "process_log_line line n = Inr m"
  shows "decision_of line = [] \<or> (\<exists>s. decision_of line = [s] \<and> s \<le> last_seq m)"
proof (cases "stoi (split line CHR '':'' ! 3)")
  case (Inl e)
  then show ?thesis unfolding decision_of_def Let_def by simp
next
  case (Inr s)
  then show ?thesis
    using assms unfolding decision_of_def process_log_line_def Let_def by (auto split: if_splits)
qed

lemma process_lines_fields:
  assumes "efold process_log_line ls n = Inr m"
  shows "queued_transactions m = queued_transactions n \<and> tpc_file m = tpc_file n \<and> tpc_pos m = tpc_pos n \<and>
    last_seq n \<le> last_seq m \<and> (\<forall>s \<in> set (decided ls). s \<le> last_seq m)"
  using assms
proof (induction ls arbitrary: n)
  case (Cons l ls)
  from Cons.prems obtain k where k: "process_log_line l n = Inr k" "efold process_log_line ls k = Inr m"
    by (auto simp: ebind_eq_Inr_iff)
  show ?case
    using process_log_line_fields [OF k(1)] process_log_line_decided [OF k(1)] Cons.IH [OF k(2)]
    by (auto simp: decided_def)
qed simp

lemma process_tpc_log_fields:
  assumes "process_tpc_log n = Inr m"
  shows "queued_transactions m = queued_transactions n" "tpc_file m = tpc_file n"
    "tpc_pos m = length (tpc_file n)" "last_seq n \<le> last_seq m"
    "\<forall>s \<in> set (decided (drop (tpc_pos n) (tpc_file n))). s \<le> last_seq m"
  using process_lines_fields [OF assms [unfolded process_tpc_log_def]] by simp_all

lemma process_log_line_hashes:
  assumes "process_log_line l n = Inr m" and "newline_free l" and "\<forall>(s, t) \<in> set (tpc_pending n). newline_free (tx_hash t)"
  shows "tpc_queue m = tpc_queue n \<and> (\<forall>(s, t) \<in> set (tpc_pending m). newline_free (tx_hash t))"
proof -
  have "newline_free (split l CHR '':'' ! 2)" if "length (split l CHR '':'') = 4"
    using that assms(2) split_token_subset [OF nth_mem, of 2 l "CHR '':''"] by (auto simp: newline_free_def)
  then have "\<forall>(s, t) \<in> set (tpc_pending m). newline_free (tx_hash t)"
    using assms(3) process_log_line_pending [OF assms(1)] by fastforce
  then show ?thesis using process_log_line_fields(6) [OF assms(1)] by blast
qed

lemma process_lines_hashes:
  assumes "efold process_log_line ls n = Inr m" and "\<forall>l \<in> set ls. newline_free l" and "\<forall>(s, t) \<in> set (tpc_pending n). newline_free (tx_hash t)"
  shows "tpc_queue m = tpc_queue n \<and> (\<forall>(s, t) \<in> set (tpc_pending m). newline_free (tx_hash t))"
  using assms
proof (induction ls arbitrary: n)
  case (Cons l ls)
  from Cons.prems obtain k where k: "process_log_line l n = Inr k" "efold process_log_line ls k = Inr m"
    by (auto simp: ebind_eq_Inr_iff)
  have "tpc_queue k = tpc_queue n \<and> (\<forall>(s, t) \<in> set (tpc_pending k). newline_free (tx_hash t))"
    by (rule process_log_line_hashes [OF k(1)]) (use Cons.prems in auto)
  with Cons.IH [OF k(2)] Cons.prems(2) show ?case by simp
qed simp

lemma process_tpc_log_safe:
  assumes run: "process_tpc_log n = Inr m"
  shows "safe_step b n m"
proof -
  have "hashes_plain m" if h: "hashes_plain n"
  proof -
    have "\<forall>l \<in> set (drop (tpc_pos n) (tpc_file n)). newline_free l"
      using h by (auto simp: hashes_plain_def dest: in_set_dropD)
    from process_lines_hashes [OF run [unfolded process_tpc_log_def] this]
    have "tpc_queue m = tpc_queue n \<and> (\<forall>(s, t) \<in> set (tpc_pending m). newline_free (tx_hash t))" by simp
    then show ?thesis using h process_tpc_log_fields(2) [OF run] by (auto simp: hashes_plain_def)
  qed
  then show ?thesis using process_tpc_log_fields [OF run] unfolding safe_step_def settled_def
    by (auto intro!: exI [of _ "[]"])
qed

lemma process_tpc_log_recovering:
  assumes "process_tpc_log n = Inr m"
  shows "primary_recovering m = primary_recovering n"
proof -
  have "efold process_log_line ls x = Inr y \<Longrightarrow> primary_recovering y = primary_recovering x" for ls x y
  proof (induction ls arbitrary: x)
    case (Cons l ls)
    from Cons.prems obtain k where k: "process_log_line l x = Inr k" "efold process_log_line ls k = Inr y"
      by (auto simp: ebind_eq_Inr_iff)
    have "primary_recovering k = primary_recovering x"
      by (rule process_log_line_fields(5) [OF k(1)])
    with Cons.IH [OF k(2)] show ?case by simp
  qed simp
  from this [OF assms [unfolded process_tpc_log_def]] show ?thesis by simp
qed

lemma handle_primary_queue_recovering:
  assumes "primary_recovering n" and "handle_primary_queue n = Inr m"
  shows "m = n\<lparr>primary_queue := []\<rparr> \<or> m = n"
  using assms by (cases "primary_queue n") (auto simp: handle_primary_queue_def start_tpc_def split: if_splits)


section \<open>Every input is safe\<close>

lemma tpc_part_more [simp]:
  "tpc_part (send_queued_messages n) = tpc_part n"
  "tpc_part (flush_log t n) = tpc_part n"
  "tpc_part (n\<lparr>checkpointing := cp\<rparr>) = tpc_part n"
  "tpc_part (n\<lparr>table := tb\<rparr>) = tpc_part n"
  "tpc_part (n\<lparr>checkpoint_acks := ca\<rparr>) = tpc_part n"
  "tpc_part (n\<lparr>threads := ts\<rparr>) = tpc_part n"
  "tpc_part (n\<lparr>replica_count := rc\<rparr>) = tpc_part n"
  "tpc_part (n\<lparr>checkpoint_queue := cq\<rparr>) = tpc_part n"
proof -
  have "tpc_part (fold (\<lambda>(fd, msg) m. send fd msg m) q x) = tpc_part x" for q x
    by (induction q arbitrary: x) (simp_all split: prod.split)
  then show "tpc_part (send_queued_messages n) = tpc_part n"
    by (simp add: send_queued_messages_def) (simp add: tpc_part_def role_def)
qed (simp_all add: tpc_part_def role_def flush_log_def write_log_file_def Let_def)

lemma create_new_checkpoint_tpc [simp]: "tpc_part (create_new_checkpoint t n) = tpc_part n"
  by (simp add: create_new_checkpoint_def Let_def)

lemma start_new_checkpoint_tpc [simp]: "tpc_part (start_new_checkpoint t n) = tpc_part n"
  by (simp add: start_new_checkpoint_def forward_msg_frame)

lemma clear_tablet_tpc [simp]: "tpc_part (clear_tablet t n) = tpc_part n"
  by (simp add: clear_tablet_def Let_def)

lemma parse_log_entries_tpc:
  "parse_log_entries t b str s out n = Inr (s', out', m) \<Longrightarrow> tpc_part m = tpc_part n"
proof (induction t b str s out n rule: parse_log_entries.induct)
  case (1 t b str s out n)
  show ?case
  proof (cases "str_find str END_MARK")
    case None
    with "1.prems" show ?thesis by (subst (asm) parse_log_entries.simps) simp
  next
    case (Some e)
    show ?thesis
    proof (cases "atoi (substr_to (take e str) (str_find (take e str) '' '')) \<le> log_sequences n t \<and> b")
      case True
      with "1.prems" Some show ?thesis
        by (subst (asm) parse_log_entries.simps)
          (auto simp: Let_def intro: "1.IH"(1) [OF Some refl refl refl refl refl True])
    next
      case False
      with "1.prems" Some obtain k where k: "(if active_tablets n t
          then parsing_logic (substr_to (substr_after (take e str) (str_find (take e str) '' ''))
                 (str_rfind (substr_after (take e str) (str_find (take e str) '' '')) '' '')) n else Inr n) = Inr k"
        and rest: "parse_log_entries t b (drop (e + length END_MARK + 1) str)
            (max s (atoi (substr_to (take e str) (str_find (take e str) '' ''))))
            (out @ take e str @ END_MARK @ [newline]) k = Inr (s', out', m)"
        by (subst (asm) (2) parse_log_entries.simps) (auto simp: Let_def ebind_eq_Inr_iff)
      have "tpc_part k = tpc_part n" using k by (auto split: if_splits dest: parsing_logic_tpc)
      moreover have "tpc_part m = tpc_part k"
        by (rule "1.IH"(2) [OF Some refl refl refl refl refl False rest])
      ultimately show ?thesis by simp
    qed
  qed
qed

lemma parse_log_string_tpc: "parse_log_string str t n = Inr m \<Longrightarrow> tpc_part m = tpc_part n"
  by (auto simp: parse_log_string_def Let_def ebind_eq_Inr_iff split: if_splits dest!: parse_log_entries_tpc)

lemma become_primary_safe:
  assumes run: "become_primary c n = Inr m"
  shows "safe_step b n m"
proof -
  let ?n1 = "n\<lparr>is_primary := True, primary_recovering := True,
                 primary_fd := (if primary_fd n > 0 then -1 else primary_fd n),
                 threads := threads n @ [Tpc_check_thread]\<rparr>"
  from run obtain n2 where n2: "process_tpc_log ?n1 = Inr n2"
    and m: "handle_primary_queue (n2\<lparr>threads := threads n2 @ [Primary_recovery_thread (connfd c)]\<rparr>) = Inr m"
    by (auto simp: become_primary_def Let_def ebind_eq_Inr_iff)
  let ?n3 = "n2\<lparr>threads := threads n2 @ [Primary_recovery_thread (connfd c)]\<rparr>"
  have f: "safe_step b n ?n1" "safe_step b n2 ?n3" by (rule safe_step_frame; simp)+
  have "m = ?n3\<lparr>primary_queue := []\<rparr> \<or> m = ?n3"
    by (rule handle_primary_queue_recovering [OF _ m]) (simp add: process_tpc_log_recovering [OF n2])
  moreover have "safe_step b ?n3 (?n3\<lparr>primary_queue := []\<rparr>)" by (rule safe_step_frame) simp_all
  ultimately have "safe_step b ?n3 m" by auto
  then show ?thesis using f process_tpc_log_safe [OF n2] safe_step_trans by blast
qed

lemma new_primary_safe: "new_primary fd c msg n = Inr m \<Longrightarrow> safe_step b n m"
proof -
  assume run: "new_primary fd c msg n = Inr m"
  have s: "safe_step b n (n\<lparr>primary_addr := a, replica_count := k\<rparr>)"
    "safe_step b n (n\<lparr>primary_addr := a, replica_count := k, is_primary := i, primary_fd := fd, threads := ts\<rparr>)"
    for a k i fd ts by (rule safe_step_frame; simp)+
  show ?thesis
    using run unfolding new_primary_def Let_def
    by (auto simp: ebind_eq_Inr_iff s split: if_split_asm dest!: become_primary_safe
        intro: safe_step_trans [OF s(1)])
qed

lemma stop_server_safe: "safe_step b n (stop_server c n)"
  by (rule safe_step_frame) (auto simp: stop_server_def Let_def do_write_backend_def send_def split: if_split_asm)

lemma tseq_return_safe: "tseq_return msg n = Inr m \<Longrightarrow> safe_step b n m"
  by (rule safe_step_frame) (auto simp: tseq_return_def Let_def ebind_eq_Inr_iff split: if_split_asm)

lemma with_tablet_InrD: "with_tablet k g = Inr m \<Longrightarrow> \<exists>t. g t = Inr m"
  by (auto simp: with_tablet_def split: if_split_asm)

lemma small_messages_safe:
  "request_log c msg n = Inr m \<Longrightarrow> safe_step b n m"
  "check_ack msg n = Inr m \<Longrightarrow> safe_step b n m"
  "receive_log msg n = Inr m \<Longrightarrow> safe_step b n m"
  "replica_count_msg msg n = Inr m \<Longrightarrow> safe_step b n m"
  by (auto simp: request_log_def check_ack_def receive_log_def replica_count_msg_def Let_def
      create_log_string_def forward_msg_frame ebind_eq_Inr_iff safe_step_frame
      split: if_split_asm dest!: with_tablet_InrD intro!: safe_step_tpc_part)


lemma get_command_safe: "get_command c msg row col n = Inr m \<Longrightarrow> safe_step b n m"
proof -
  assume run: "get_command c msg row col n = Inr m"
  have step: "safe_step b n p" if "ensure_loaded t n = Inr n1" and "tpc_part p = tpc_part n1" for t n1 p
    using ensure_loaded_safe [OF that(1)] safe_step_tpc_part [OF that(2)] safe_step_trans by blast
  show ?thesis
    using run unfolding get_command_def Let_def
    by (auto simp: ebind_eq_Inr_iff split: if_split_asm intro: step safe_step_tpc_part)
qed

lemma put_command_safe:
  assumes "put_command H c h0 msg row colv n = Inr m" and "b \<Longrightarrow> newline_free h0"
  shows "safe_step b n m"
proof -
  have "safe_step b (ensure_lock (row, substr_to colv (str_find colv '' '')) n) m"
    by (rule handle_message_safe [OF assms(1) [unfolded put_command_def Let_def]]) (use assms(2) in simp_all)
  then show ?thesis by (rule safe_step_trans [OF safe_step_tpc_part, rotated]) simp
qed

lemma cput_command_safe:
  assumes run: "cput_command H c h0 msg row colv n = Inr m" and newline_free: "b \<Longrightarrow> newline_free h0"
  shows "safe_step b n m"
proof -
  have reply: "safe_step b n p" if "ensure_loaded t n = Inr n1" and "tpc_part p = tpc_part n1" for t n1 p
    using ensure_loaded_safe [OF that(1)] safe_step_tpc_part [OF that(2)] safe_step_trans by blast
  have go: "safe_step b n m" if "ensure_loaded t n = Inr n1"
    and "handle_message H h0 msg (connfd c) (backend_conn c) False n1 = Inr m" for t n1
  proof -
    have "safe_step b n1 m" by (rule handle_message_safe [OF that(2)]) (use newline_free in simp_all)
    then show ?thesis using ensure_loaded_safe [OF that(1)] safe_step_trans by blast
  qed
  let ?t = "get_tablet row" and ?k = "(row, substr_to colv (str_find colv '' ''))"
  from run obtain n1 where n1: "ensure_loaded ?t n = Inr n1"
    by (auto simp: cput_command_def Let_def ebind_eq_Inr_iff)
  show ?thesis
  proof (cases "lookup n1 ?t ?k")
    case None
    with run n1 have "m = do_write_backend (connfd c) reply_204 n1"
      by (simp add: cput_command_def Let_def)
    then show ?thesis using reply [OF n1] by simp
  next
    case (Some e)
    note body = run [unfolded cput_command_def Let_def n1 ebind_Inr Some option.case]
    then consider s where "m = do_write_backend (connfd c) s n1"
      | "handle_message H h0 msg (connfd c) (backend_conn c) False n1 = Inr m"
      by (simp only: ebind_eq_Inr_iff split: if_split_asm) (metis Inr_inject)+
    then show ?thesis
    proof cases
      case 1
      then show ?thesis using reply [OF n1] by simp
    next
      case 2
      then show ?thesis by (rule go [OF n1])
    qed
  qed
qed

lemma delete_command_safe:
  assumes "delete_command H c h0 msg row col n = Inr m" and "b \<Longrightarrow> newline_free h0"
  shows "safe_step b n m"
proof (cases "lookup n (get_tablet row) (row, col) = None")
  case True
  with assms(1) show ?thesis by (auto simp: delete_command_def intro: safe_step_tpc_part)
next
  case False
  with assms(1) have "handle_message H h0 msg (connfd c) (backend_conn c) False n = Inr m"
    by (simp add: delete_command_def)
  then show ?thesis by (rule handle_message_safe) (use assms(2) in simp_all)
qed

lemma if_Inr_elim:
  assumes "(if b then x else y) = Inr m"
  obtains "b" and "x = Inr m" | "\<not> b" and "y = Inr m"
  using assms by (cases b) simp_all

lemma command_message_safe:
  assumes run: "command_message H c msg n = Inr m" and newline_free: "b \<Longrightarrow> newline_free (substr_to msg (str_find msg '' ''))"
  shows "safe_step b n m"
proof -
  let ?h = "if backend_conn c then substr_to msg (str_find msg '' '') else []"
  have h: "b \<Longrightarrow> newline_free ?h" using newline_free by (simp add: newline_free_def)
  show ?thesis
    using run unfolding command_message_def Let_def
    by (elim if_Inr_elim) ((erule put_command_safe, erule h) | erule get_command_safe | (erule cput_command_safe, erule h)
        | (erule delete_command_safe, erule h) | (drule Inr_inject, erule subst, rule safe_step_tpc_part, simp))+
qed

lemma dispatch_safe:
  assumes run: "dispatch H fd c msg n = Inr m" and ok: "b \<Longrightarrow> one_line msg"
  shows "safe_step b n m"
proof (cases "contains msg ''STOP'' \<and> coord_conn c")
  case True
  with run show ?thesis by (auto simp: dispatch_def stop_server_safe)
next
  case False
  from run obtain w where w: "substr msg 4 7 = Inr w"
    unfolding dispatch_def if_not_P [OF False] by (rule ebind_InrE)
  have ckpt: "safe_step b n m" if "with_tablet k (\<lambda>num. Inr (create_new_checkpoint num n)) = Inr m" for k
    using with_tablet_InrD [OF that] by (auto intro: safe_step_tpc_part)
  have tpc: "safe_step b n m" if "take 3 msg = ''TPC''"
    and "handle_message H [] msg (connfd c) (backend_conn c) True n = Inr m"
    by (rule handle_message_safe [OF that(2)]) (use that(1) ok in simp_all)
  have cmd: "safe_step b n m" if "\<not> take 3 msg = ''TPC''" and "command_message H c msg n = Inr m"
    by (rule command_message_safe [OF that(2)]) (use that(1) ok in \<open>auto simp: one_line_def logged_texts_def\<close>)
  show ?thesis
    using run unfolding dispatch_def if_not_P [OF False] w ebind_Inr
    by (elim if_Inr_elim) (erule (1) tpc cmd | erule new_primary_safe | erule tseq_return_safe | erule small_messages_safe
        | erule ckpt | (drule Inr_inject, erule subst, rule safe_step_tpc_part, simp))+
qed

lemma primary_abort_safe:
  "primary_abort_transaction s h n = Inr m \<Longrightarrow> (b \<Longrightarrow> hashes_plain n \<Longrightarrow> newline_free h) \<Longrightarrow> safe_step b n m"
  unfolding primary_abort_transaction_def using primary_decide_safe newline_free_names(2) by blast

lemma tpc_check_round_safe: "tpc_check_round n = Inr m \<Longrightarrow> safe_step b n m"
  unfolding tpc_check_round_def Let_def
proof (erule safe_efold [rotated])
  fix s x y
  assume run: "ebind (with_queue_lock (\<lambda>m. map_of (tpc_queue m) s) x) (\<lambda>found.
      case found of None \<Rightarrow> Inr x | Some t \<Rightarrow> primary_abort_transaction s (tx_hash t) x) = Inr y"
  show "safe_step b x y"
  proof (cases "map_of (tpc_queue x) s")
    case None
    with run show ?thesis by (auto simp: ebind_eq_Inr_iff dest!: with_queue_lockD)
  next
    case (Some t)
    with run have "primary_abort_transaction s (tx_hash t) x = Inr y"
      by (auto simp: ebind_eq_Inr_iff dest!: with_queue_lockD)
    then show ?thesis by (rule primary_abort_safe) (use Some in \<open>auto simp: hashes_plain_def\<close>)
  qed
qed

lemma tpc_primary_recovery_safe:
  assumes run: "tpc_primary_recovery fd n = Inr m"
  shows "safe_step b n m"
proof -
  have ab: "safe_step b n y" if y: "efold (\<lambda>(s, t). primary_abort_transaction s (tx_hash t)) (tpc_pending n) n = Inr y" for y
  proof (rule safe_step_if)
    assume h: "hashes_plain n"
    from y show "safe_step True n y"
    proof (rule safe_efold [rotated])
      fix e x z
      assume e: "e \<in> set (tpc_pending n)" "(case e of (s, t) \<Rightarrow> primary_abort_transaction s (tx_hash t)) x = Inr z"
      obtain s t where st: "e = (s, t)" by fastforce
      with e(1) h have "newline_free (tx_hash t)" by (auto simp: hashes_plain_def)
      then show "safe_step True x z" using e(2) st primary_abort_safe by simp
    qed
  next
    from y show "safe_step False n y" by (rule safe_efold [rotated]) (auto split: prod.splits dest: primary_abort_safe)
  qed
  have fin: "safe_step b y (y\<lparr>primary_recovering := False\<rparr>)" for y by (rule safe_step_frame) simp_all
  show ?thesis
    using run unfolding tpc_primary_recovery_def
    by (auto simp: ebind_eq_Inr_iff split: if_split_asm intro: safe_step_tpc_part safe_step_trans [OF ab fin])
qed

lemma fold_send_tpc: "tpc_part (fold (\<lambda>i m. do_write_backend (g i) (h i) m) is n) = tpc_part n"
  by (induction "is" arbitrary: n) simp_all

lemma safe_step_write: "safe_step b n m \<Longrightarrow> safe_step b n (do_write_backend fd s m)"
  by (erule safe_step_trans) (rule safe_step_tpc_part, simp)

lemma safe_step_writes: "safe_step b n m \<Longrightarrow> safe_step b n (fold (\<lambda>i k. do_write_backend (g i) (h i) k) xs m)"
  by (erule safe_step_trans) (rule safe_step_tpc_part, rule fold_send_tpc)

lemma safe_step_send_queued:
  assumes "safe_step b n m"
  shows "safe_step b n (send_queued_primary m)"
proof -
  have "tpc_part (fold (\<lambda>msg k. send (primary_fd k) msg k) q x) = tpc_part x" for q x
    by (induction q arbitrary: x) simp_all
  note sent = safe_step_tpc_part [OF this]
  have "safe_step b x (x\<lparr>primary_queue := []\<rparr>)" for x by (rule safe_step_frame) simp_all
  then have "safe_step b m (send_queued_primary m)"
    unfolding send_queued_primary_def by (rule safe_step_trans [OF sent])
  with assms show ?thesis by (rule safe_step_trans)
qed

lemma start_connection_safe: "safe_step b n (start_connection c n)"
  unfolding start_connection_def Let_def
  by (split if_split, intro conjI impI safe_step_write safe_step_writes safe_step_send_queued safe_step_refl)

lemma run_thread_safe: "run_thread th n = Inr m \<Longrightarrow> safe_step b n m"
  by (cases th) (auto simp: run_thread_def start_connection_safe split: if_split_asm
      dest: tpc_check_round_safe tpc_primary_recovery_safe parse_log_string_tpc intro: safe_step_tpc_part)

lemma load_tablets_tpc: "load_tablets is a k n = Inr m \<Longrightarrow> tpc_part m = tpc_part n"
proof (induction "is" arbitrary: a n)
  case (Cons i rest)
  have mem: "tpc_part (snd (total_avail_memory x)) = tpc_part x" for x
    using total_avail_memory_tpc [of x] by (metis prod.collapse)
  from Cons.prems obtain sz where sz: "file_sizes i n = Inr sz" by (auto simp: ebind_eq_Inr_iff)
  show ?case
  proof (cases "size_diff a sz \<le> int k")
    case True
    with Cons.prems sz Cons.IH show ?thesis by simp
  next
    case False
    with Cons.prems sz obtain y where y: "recover_table i (restore_table i (set_active i True n)) = Inr y"
      and r: "load_tablets rest (fst (total_avail_memory y)) k (snd (total_avail_memory y)) = Inr m"
      by (auto simp: ebind_eq_Inr_iff case_prod_beta)
    show ?thesis using Cons.IH [OF r] recover_table_tpc [OF y] mem by simp
  qed
qed simp

lemma load_tablets_startup_tpc: "load_tablets_startup n = Inr m \<Longrightarrow> tpc_part m = tpc_part n"
  by (auto simp: load_tablets_startup_def split: prod.splits dest!: load_tablets_tpc total_avail_memory_tpc)

lemma create_files_tpc [simp]: "tpc_part (create_files n) = tpc_part n"
proof -
  have "tpc_part (fold (\<lambda>i m. let m1 = (case log_file m i of None \<Rightarrow> write_log_file i [] m | Some _ \<Rightarrow> m)
                 in case table_file m1 i of None \<Rightarrow> write_table_file i [] m1 | Some _ \<Rightarrow> m1) xs x) = tpc_part x" for xs x
    by (induction xs arbitrary: x) (simp_all add: Let_def split: option.split)
  then show ?thesis by (simp add: create_files_def)
qed

lemma boot_cases:
  assumes "boot n = Inr m"
  obtains y where "process_tpc_log y = Inr m" and "tpc_file y = tpc_file n" and "tpc_pos y = 0"
    and "tpc_queue y = []" and "tpc_pending y = []"
proof -
  from assms obtain x y where x: "load_tablets_startup (create_files x) = Inr y" and y: "process_tpc_log y = Inr m"
    and f: "tpc_file x = tpc_file n" "tpc_pos x = 0" "tpc_queue x = []" "tpc_pending x = []"
    by (auto simp: boot_def ebind_eq_Inr_iff)
  have "tpc_part y = tpc_part x" using load_tablets_startup_tpc [OF x] by simp
  then show thesis using f tpc_part_eqD [of y x] by (intro that [OF y]) simp_all
qed

lemma boot_decided_once:
  assumes "decided_once n" and "hashes_plain n" and "boot n = Inr m"
  shows "decided_once m" and "hashes_plain m"
proof -
  obtain y where y: "process_tpc_log y = Inr m" "tpc_file y = tpc_file n" "tpc_pos y = 0" "tpc_queue y = []"
    "tpc_pending y = []" using assms(3) by (rule boot_cases)
  show "decided_once m"
    using assms(1) process_tpc_log_fields [OF y(1)] y(2,3) by (auto simp: decided_once_def settled_def)
  have "hashes_plain y" using assms(2) y by (auto simp: hashes_plain_def)
  with process_tpc_log_safe [OF y(1), of True] show "hashes_plain m" unfolding safe_step_def by blast
qed

lemma node_step_safe:
  assumes "node_step H ok n m" and "\<And>msg. b \<Longrightarrow> ok msg \<Longrightarrow> one_line msg"
  shows "safe_step b n m \<or> boot n = Inr m"
  using assms(1)
proof (cases rule: node_step.cases)
  case (message msg f c)
  have "safe_step b n m" by (rule dispatch_safe [OF message(2)]) (use assms(2) message(1) in blast)
  then show ?thesis ..
next
  case (thread th)
  have "safe_step b n (n\<lparr>threads := remove1 th (threads n)\<rparr>)" by (rule safe_step_tpc_part) simp
  with thread show ?thesis using run_thread_safe safe_step_trans by blast
next
  case (accept cfg fd addr c)
  have "safe_step b n m"
    by (rule safe_step_frame) (use accept in \<open>auto simp: accept_connection_def Let_def split: if_split_asm\<close>)
  then show ?thesis ..
next
  case (start c)
  then show ?thesis using start_connection_safe by simp
next
  case (close c)
  have "safe_step b n m" by (rule safe_step_frame) (auto simp: close close_connection_def Let_def split: if_split_asm)
  then show ?thesis ..
next
  case (log t)
  have "safe_step b n m" by (rule safe_step_tpc_part) (simp add: log log_round_def)
  then show ?thesis ..
next
  case check
  then show ?thesis using tpc_check_round_safe by blast
next
  case (time k s)
  have "safe_step b n m" by (rule safe_step_frame) (simp_all add: time)
  then show ?thesis ..
next
  case restart
  then show ?thesis ..
qed

lemma one_line_step_decided_once:
  assumes "node_step H one_line n m" and "decided_once n \<and> hashes_plain n"
  shows "decided_once m \<and> hashes_plain m"
proof -
  have "safe_step True n m \<or> boot n = Inr m" by (rule node_step_safe [OF assms(1)])
  then show ?thesis using assms(2) decided_once_step [of n m] boot_decided_once [of n m] by blast
qed

lemma one_line_run_decided_once:
  assumes "one_line_run H n m" and "decided_once n \<and> hashes_plain n"
  shows "decided_once m"
proof -
  have "decided_once m \<and> hashes_plain m"
    using assms unfolding one_line_run_def
  proof (induction rule: rtranclp_induct)
    case (step y z)
    then show ?case using one_line_step_decided_once [of H y z] by blast
  qed
  then show ?thesis ..
qed

lemma node_step_at_end:
  assumes "node_step H ok n m" and "tpc_pos n = length (tpc_file n)"
  shows "tpc_pos m = length (tpc_file m)"
proof -
  have "safe_step False n m \<or> boot n = Inr m" by (rule node_step_safe [OF assms(1)]) simp
  then show ?thesis
  proof
    assume "safe_step False n m"
    then show ?thesis using assms(2) by (rule at_end_step)
  next
    assume "boot n = Inr m"
    then show ?thesis by (rule boot_cases) (use process_tpc_log_fields in auto)
  qed
qed

section \<open>Lemmas: runs\<close>

lemma fresh_decided_once:
  "tpc_file n = [] \<Longrightarrow> tpc_pos n = 0 \<Longrightarrow> tpc_queue n = [] \<Longrightarrow> tpc_pending n = [] \<Longrightarrow> decided_once n \<and> hashes_plain n"
  by (simp add: decided_once_def hashes_plain_def)

lemma process_tpc_log_at_end:
  "tpc_pos n = length (tpc_file n) \<Longrightarrow> process_tpc_log n = Inr (n\<lparr>tpc_pending := [], tpc_pos := length (tpc_file n)\<rparr>)"
  by (simp add: process_tpc_log_def)

lemma become_primary_at_end:
  assumes "tpc_pos n = length (tpc_file n)"
  shows "become_primary c n =
    (if primary_queue n = [] then
       Inr (n\<lparr>is_primary := True, primary_recovering := True,
              primary_fd := (if primary_fd n > 0 then -1 else primary_fd n),
              tpc_pending := [], tpc_pos := length (tpc_file n),
              threads := threads n @ [Tpc_check_thread, Primary_recovery_thread (connfd c)]\<rparr>)
     else Inl Mutex_blocked)"
proof (cases "primary_queue n")
  case Nil
  then show ?thesis
    using assms by (simp add: become_primary_def process_tpc_log_at_end handle_primary_queue_def)
next
  case (Cons q qs)
  then show ?thesis
    using assms by (simp add: become_primary_def process_tpc_log_at_end handle_primary_queue_def start_tpc_def)
qed

lemma run_at_end:
  assumes "node_run H n m" and "tpc_file n = []" and "tpc_pos n = 0"
  shows "tpc_pos m = length (tpc_file m)"
proof -
  have "tpc_pos n = length (tpc_file n)" using assms(2,3) by simp
  with assms(1) show ?thesis
    unfolding node_run_def
  proof (induction rule: rtranclp_induct)
    case (step y z)
    then show ?case using node_step_at_end [of H _ y z] by blast
  qed
qed

section \<open>Lemmas: the loop runs once\<close>

text \<open>
  The entry after the one processed is erased, so the loop stops there: it never processes two
  transactions in one call.
\<close>

lemma tpc_loop_once:
  assumes "map_of (tpc_queue n) k = Some t" and "tx_status t \<noteq> ''PREPARE''" and "tpc_step k t n = Inr m"
  shows "tpc_loop k n = Inr (m\<lparr>tpc_queue_locked := False\<rparr>)"
proof -
  have "tpc_queue m = AList.delete (k + 1) (tpc_queue n)"
    using tpc_step_part [OF assms(3)] by (simp add: tpc_part_def role_def take_transaction_def)
  then have "map_of (tpc_queue m) (k + 1) = None" by simp
  then show ?thesis
    using assms by (simp add: tpc_loop.simps [of k n] tpc_loop.simps [of "k + 1" m])
qed

lemma process_tpc_queue_head:
  assumes "\<not> tpc_queue_locked n" and "map_of (tpc_queue n) (last_seq n + 1) = Some t"
  shows "process_tpc_queue n =
    (if tx_status t = ''PREPARE'' then Inr (n\<lparr>tpc_queue_locked := True\<rparr>)
     else ebind (tpc_step (last_seq n + 1) t (n\<lparr>tpc_queue_locked := True\<rparr>))
            (\<lambda>m. Inr (m\<lparr>tpc_queue_locked := False\<rparr>)))"
proof (cases "tx_status t = ''PREPARE''")
  case True
  then show ?thesis using assms by (simp add: process_tpc_queue_def tpc_loop.simps)
next
  case False
  show ?thesis
  proof (cases "tpc_step (last_seq n + 1) t (n\<lparr>tpc_queue_locked := True\<rparr>)")
    case (Inl e)
    then show ?thesis using assms False by (simp add: process_tpc_queue_def tpc_loop.simps)
  next
    case (Inr m)
    then show ?thesis
      using assms False tpc_loop_once [of "n\<lparr>tpc_queue_locked := True\<rparr>" "last_seq n + 1" t m]
      by (simp add: process_tpc_queue_def)
  qed
qed

lemma reply_frontend_frame [frame, simp]:
  "table (reply_frontend b h n) = table n" "row_locks (reply_frontend b h n) = row_locks n"
  "last_seq (reply_frontend b h n) = last_seq n"
  by (simp_all add: reply_frontend_def do_write_backend_def Let_def split: option.split)

lemma put_cmd_row:
  assumes "word_ok row"
  shows "substr_after (put_cmd row col v) (str_find (put_cmd row col v) '' '') = row @ '' '' @ col @ '' '' @ v"
    and "substr_to (row @ '' '' @ s) (str_find (row @ '' '' @ s) '' '') = row"
  using assms unfolding put_cmd_def find_space_kw by (simp_all add: substr_after_def word_ok_def)

lemma commit_step_put:
  assumes "tx_status t = ''COMMIT''" and "tx_command t = put_cmd row col v"
    and "word_ok row" and "word_ok col" and "value_ok v"
    and "map_of (row_locks n) (row, col) = Some Writer" and "active_tablets n (get_tablet row)"
  shows "tpc_step k t n = Inr (reply_frontend True (tx_hash t)
    ((put_cell (get_tablet row) (row, col) v (log_message (put_cmd row col v) (k + 1) (get_tablet row) (take_transaction k n)))
       \<lparr>row_locks := AList.update (row, col) Free (row_locks n)\<rparr>))"
proof -
  let ?y = "log_message (put_cmd row col v) (k + 1) (get_tablet row) (take_transaction k n)"
  have "row_locks ?y = row_locks n" by (simp add: log_message_def take_transaction_def Let_def)
  then have "execute_command (put_cmd row col v) ?y =
      Inr ((put_cell (get_tablet row) (row, col) v ?y)\<lparr>row_locks := AList.update (row, col) Free (row_locks n)\<rparr>)"
    using assms(6) by (simp add: exec_put [OF assms(3-5)])
  moreover have "ensure_loaded (get_tablet row) (take_transaction k n) = Inr (take_transaction k n)"
    using assms(7) by (simp add: ensure_loaded_def take_transaction_def)
  ultimately show ?thesis
    using put_cmd_row(1) [OF assms(3), of col v] put_cmd_row(2) [OF assms(3), of "col @ '' '' @ v"] assms(1,2)
    by (simp add: tpc_step_def tpc_commit_step_def Let_def)
qed

lemma find_from_char:
  "c \<notin> set ys \<Longrightarrow> length xs = k \<Longrightarrow> str_find_from (xs @ ys @ c # zs) [c] k = Some (k + length ys)"
  using str_find_from_append [of xs "ys @ c # zs" "[c]"] by auto

lemma substr_at:
  "length xs = Suc i \<Longrightarrow> j = Suc i + length ys \<Longrightarrow> substr_between (xs @ ys @ zs) (Some i) (Some j) = ys"
  "length xs = Suc i \<Longrightarrow> substr_after (xs @ zs) (Some i) = zs"
  by (simp_all add: substr_between_def substr_after_def)

text \<open>Cutting a \<open>PREPARE\<close> message at its colons.\<close>

lemma prepare_cuts:
  fixes h cmd :: string and s :: int
  assumes "CHR '':'' \<notin> set h"
  defines "msg \<equiv> decision_line ''PREPARE'' h s @ '':'' @ cmd"
  shows "str_find msg '':'' = Some 3" and "str_find_from msg '':'' 4 = Some 11"
    and "str_find_from msg '':'' 12 = Some (12 + length h)"
    and "str_find_from msg '':'' (Suc (12 + length h)) = Some (Suc (12 + length h) + length (to_string s))"
    and "substr_between msg (Some 11) (Some (12 + length h)) = h"
    and "substr_between msg (Some (12 + length h)) (Some (Suc (12 + length h) + length (to_string s))) = to_string s"
    and "substr_after msg (Some (Suc (12 + length h) + length (to_string s))) = cmd"
proof -
  have s: "CHR '':'' \<notin> set (to_string s)" by (simp add: to_string_notin isdigit_def)
  have m: "msg = ''TPC:PREPARE:'' @ h @ '':'' @ to_string s @ '':'' @ cmd" by (simp add: msg_def decision_line_def)
  show "str_find msg '':'' = Some 3" by (simp add: m str_find_def)
  show "str_find_from msg '':'' 4 = Some 11" by (simp add: m str_find_from_def)
  show "str_find_from msg '':'' 12 = Some (12 + length h)"
    using find_from_char [OF assms(1), of "''TPC:PREPARE:''" 12 "to_string s @ '':'' @ cmd"] by (simp add: m)
  show "str_find_from msg '':'' (Suc (12 + length h)) = Some (Suc (12 + length h) + length (to_string s))"
    using find_from_char [OF s, of "''TPC:PREPARE:'' @ h @ '':''" "Suc (12 + length h)" cmd] by (simp add: m)
  show "substr_between msg (Some 11) (Some (12 + length h)) = h"
    using substr_at(1) [of "''TPC:PREPARE:''" 11 "12 + length h" h "'':'' @ to_string s @ '':'' @ cmd"]
    by (simp add: m)
  show "substr_between msg (Some (12 + length h)) (Some (Suc (12 + length h) + length (to_string s))) = to_string s"
    using substr_at(1) [of "''TPC:PREPARE:'' @ h @ '':''" "12 + length h"
        "Suc (12 + length h) + length (to_string s)" "to_string s" "'':'' @ cmd"]
    by (simp add: m)
  show "substr_after msg (Some (Suc (12 + length h) + length (to_string s))) = cmd"
    using substr_at(2) [of "''TPC:PREPARE:'' @ h @ '':'' @ to_string s @ '':''"
        "Suc (12 + length h) + length (to_string s)" cmd]
    by (simp add: m)
qed

section \<open>Properties\<close>

text \<open>
  C6: while the handlers run one after the other and no message puts a line feed into a hash or
  a decision, the 2PC log never decides the same transaction twice: once committed, never
  aborted, and the other way round, whatever messages, time-outs, elections and restarts the
  server sees.
\<close>

theorem decided_at_most_once:
  assumes "one_line_run H n m" and "tpc_file n = []" and "tpc_pos n = 0" and "tpc_queue n = []" and "tpc_pending n = []"
  shows "distinct (decided (tpc_file m))"
  using one_line_run_decided_once [OF assms(1) fresh_decided_once [OF assms(2-5)]]
  by (simp add: decided_once_def)

text \<open>
  Both limits are real. Two threads may pass the check of \<open>already_processed\<close> before either
  goes on: then both decisions are in the log.
\<close>

lemma tpc_loop_file: "tpc_loop k n = Inr m \<Longrightarrow> tpc_file m = tpc_file n"
proof (induction k n rule: tpc_loop.induct)
  case (1 k n)
  show ?case
  proof (cases "map_of (tpc_queue n) k")
    case None
    with "1.prems" show ?thesis by (auto simp: tpc_loop.simps [of k n])
  next
    case (Some t)
    show ?thesis
    proof (cases "tx_status t = ''PREPARE''")
      case True
      with Some "1.prems" show ?thesis by (simp add: tpc_loop.simps [of k n])
    next
      case False
      with Some "1.prems" obtain n' where n': "tpc_step k t n = Inr n'" "tpc_loop (k + 1) n' = Inr m"
        by (auto simp: tpc_loop.simps [of k n] split: sum.splits)
      have "tpc_file n' = tpc_file n"
        using tpc_step_part [OF n'(1)] by (simp add: tpc_part_def take_transaction_def)
      then show ?thesis using "1.IH" [OF Some False n'(1) n'(2)] by simp
    qed
  qed
qed

lemma take_decision_file:
  assumes "take_decision d s h n = Inr m" and "newline_free d" and "newline_free h"
  shows "tpc_file m = tpc_file n @ [decision_line d h s]"
proof -
  from assms(1) obtain x where x: "process_tpc_queue x = Inr m"
    and f: "tpc_file x = tpc_file n @ file_lines (decision_line d h s @ [newline])"
    by (auto simp: take_decision_def Let_def ebind_eq_Inr_iff set_status_frame forward_msg_frame write_to_tpc_log_def
        tpc_part_eqD [OF set_status_frame(5)] dest!: with_queue_lockD)
  from x have "tpc_loop (last_seq x + 1) (x\<lparr>tpc_queue_locked := True\<rparr>) = Inr m"
    by (simp add: process_tpc_queue_def split: if_splits)
  then have "tpc_file m = tpc_file x" by (drule_tac tpc_loop_file) simp
  then show ?thesis using f file_lines_one [OF newline_free_decision_line [OF assms(2,3)]] by simp
qed

lemma decision_of_decided:
  assumes "CHR '':'' \<notin> set h" and "stoi (to_string s) = Inr s" and "d = ''COMMIT'' \<or> d = ''ABORT''"
  shows "decision_of (decision_line d h s) = [s]"
proof -
  have s: "CHR '':'' \<notin> set (to_string s)" by (simp add: to_string_notin isdigit_def)
  have d: "CHR '':'' \<notin> set d" using assms(3) by auto
  have "split (decision_line d h s) CHR '':'' = ''TPC'' # split (d @ '':'' @ h @ '':'' @ to_string s) CHR '':''"
    using split_append_delim [of "CHR '':''" "''TPC''" "d @ '':'' @ h @ '':'' @ to_string s"]
    by (simp add: decision_line_def)
  moreover have "split (d @ '':'' @ h @ '':'' @ to_string s) CHR '':'' = d # split (h @ '':'' @ to_string s) CHR '':''"
    using d split_append_delim [of "CHR '':''" d "h @ '':'' @ to_string s"] by simp
  moreover have "split (h @ '':'' @ to_string s) CHR '':'' = [h, to_string s]"
    using assms(1) s split_append_delim [of "CHR '':''" h "to_string s"] by (simp add: split_no_delim)
  ultimately have "split (decision_line d h s) CHR '':'' = [''TPC'', d, h, to_string s]" by simp
  then show ?thesis using assms(2,3) by (simp add: decision_of_def)
qed

lemma decisions_race:
  assumes "newline_free h" and "CHR '':'' \<notin> set h" and "stoi (to_string s) = Inr s" and "already_processed s n = Inr False"
    and "take_decision ''COMMIT'' s h n = Inr k" and "take_decision ''ABORT'' s h k = Inr m"
  shows "decided (tpc_file m) = decided (tpc_file n) @ [s, s]"
  using take_decision_file [OF assms(5) newline_free_names(1) assms(1)] take_decision_file [OF assms(6) newline_free_names(2) assms(1)]
    decision_of_decided [OF assms(2,3), of "''COMMIT''"] decision_of_decided [OF assms(2,3), of "''ABORT''"]
  by (simp add: decided_def)

text \<open>
  C34: a server elected as the primary finds no pending transaction in its log, whatever the
  log holds: the reading position is always at the end. So the recovery aborts nothing.
\<close>

theorem elected_finds_nothing_pending:
  assumes "node_run H n m" and "tpc_file n = []" and "tpc_pos n = 0" and "become_primary c m = Inr p"
  shows "tpc_pending p = []"
  using become_primary_at_end [OF run_at_end [OF assms(1-3)], of c] assms(4) by (auto split: if_split_asm)

text \<open>
  a server elected while it still holds commands for the old primary blocks in the
  thread of the coordinator's connection, which is the one that would end the wait.
\<close>

theorem elected_with_kept_commands_blocks:
  assumes "node_run H n m" and "tpc_file n = []" and "tpc_pos n = 0" and "primary_queue m \<noteq> []"
  shows "become_primary c m = Inl Mutex_blocked"
  using become_primary_at_end [OF run_at_end [OF assms(1-3)], of c] assms(4) by simp

text \<open>
  C32: processing a decided transaction keeps its entry and erases the entry of the next one:
  the next transaction is lost on this server, whatever the decision for it will be.
\<close>

theorem successor_is_lost:
  assumes "\<not> tpc_queue_locked n" and "map_of (tpc_queue n) (last_seq n + 1) = Some t"
    and "tx_status t \<noteq> ''PREPARE''" and "process_tpc_queue n = Inr m"
  shows "last_seq m = last_seq n + 1 \<and> map_of (tpc_queue m) (last_seq n + 1) = Some t \<and>
    map_of (tpc_queue m) (last_seq n + 2) = None"
proof -
  from assms(4) process_tpc_queue_head [OF assms(1,2)] assms(3)
  obtain x where x: "tpc_step (last_seq n + 1) t (n\<lparr>tpc_queue_locked := True\<rparr>) = Inr x"
    and m: "m = x\<lparr>tpc_queue_locked := False\<rparr>" by (auto simp: ebind_eq_Inr_iff)
  have "tpc_queue x = AList.delete (last_seq n + 2) (tpc_queue n)" "last_seq x = last_seq n + 1"
    using tpc_step_part [OF x] by (simp_all add: tpc_part_def role_def take_transaction_def add.commute)
  then show ?thesis using assms(2) by (simp add: m)
qed

text \<open>
  C33: the primary's decision for another transaction, while the next one (\<open>last_seq + 1\<close>) waits
  in the queue as \<open>PREPARE\<close>, leaves the lock of the queue taken: every later decision of this
  server waits for it forever.
\<close>

theorem early_decision_blocks_server:
  assumes "already_processed s n = Inr False" and "map_of (tpc_queue n) (last_seq n + 1) = Some t"
    and "tx_status t = ''PREPARE''" and "s \<noteq> last_seq n + 1"
  shows "\<exists>m. primary_decide d s h n = Inr m \<and> (\<forall>d' s' h'. primary_decide d' s' h' m = Inl Mutex_blocked)"
proof -
  have free: "\<not> tpc_queue_locked n"
    using assms(1) by (auto simp: already_processed_def with_queue_lock_def split: if_splits)
  let ?n1 = "n\<lparr>queued_transactions := List.insert s (queued_transactions n),
                    tpc_responses := AList.delete s (tpc_responses n),
                    tpc_start_time := AList.delete s (tpc_start_time n)\<rparr>"
  let ?n2 = "set_msg_success h d (forward_msg (decision_line d h s @ crlf) (write_to_tpc_log (decision_line d h s) ?n1))"
  let ?n3 = "set_tx_status s d ?n2"
  have n2: "\<not> tpc_queue_locked ?n2" "last_seq ?n2 = last_seq n" "tpc_queue ?n2 = tpc_queue n"
    using free tpc_part_eqD [OF set_status_frame(5)]
    by (simp_all add: forward_msg_frame write_to_tpc_log_def Let_def)
  have n3: "\<not> tpc_queue_locked ?n3" "last_seq ?n3 = last_seq n" "map_of (tpc_queue ?n3) (last_seq n + 1) = Some t"
    using n2 assms(2,4) by (simp_all add: set_tx_status_def split: option.split)
  have "process_tpc_queue ?n3 = Inr (?n3\<lparr>tpc_queue_locked := True\<rparr>)"
    using process_tpc_queue_head [of ?n3 t] n3 assms(3) by simp
  then have "primary_decide d s h n = Inr (?n3\<lparr>tpc_queue_locked := True\<rparr>)"
    using assms(1) n2(1) by (simp add: primary_decide_def take_decision_def with_queue_lock_def Let_def)
  moreover have "primary_decide d' s' h' (?n3\<lparr>tpc_queue_locked := True\<rparr>) = Inl Mutex_blocked" for d' s' h'
    by (simp add: primary_decide_def already_processed_def with_queue_lock_def)
  ultimately show ?thesis by blast
qed

text \<open>
  the commit of the next \<open>PUT\<close>, with its key locked by the vote and its tablet loaded:
  the value is stored, the key is free again, the transaction counts as processed, the queue
  is unlocked.
\<close>

theorem commit_put_applies:
  assumes "\<not> tpc_queue_locked n" and "map_of (tpc_queue n) (last_seq n + 1) = Some t"
    and "tx_status t = ''COMMIT''" and "tx_command t = put_cmd row col v"
    and "word_ok row" and "word_ok col" and "value_ok v"
    and "map_of (row_locks n) (row, col) = Some Writer" and "active_tablets n (get_tablet row)"
  shows "\<exists>m. process_tpc_queue n = Inr m \<and>
    (\<forall>t' k. lookup m t' k = (if t' = get_tablet row \<and> k = (row, col) then Some v else lookup n t' k)) \<and>
    map_of (row_locks m) (row, col) = Some Free \<and> last_seq m = last_seq n + 1 \<and> \<not> tpc_queue_locked m"
proof -
  let ?n = "n\<lparr>tpc_queue_locked := True\<rparr>"
  let ?x = "reply_frontend True (tx_hash t)
    ((put_cell (get_tablet row) (row, col) v (log_message (put_cmd row col v) (last_seq n + 1 + 1) (get_tablet row)
        (take_transaction (last_seq n + 1) ?n)))\<lparr>row_locks := AList.update (row, col) Free (row_locks ?n)\<rparr>)"
  have "tpc_step (last_seq n + 1) t ?n = Inr ?x"
    by (rule commit_step_put [OF assms(3-7)]) (use assms(8,9) in simp_all)
  then have "process_tpc_queue n = Inr (?x\<lparr>tpc_queue_locked := False\<rparr>)"
    using process_tpc_queue_head [OF assms(1,2)] assms(3) by simp
  then show ?thesis
    by (intro exI [of _ "?x\<lparr>tpc_queue_locked := False\<rparr>"])
      (simp add: lookup_def put_cell_def log_message_def take_transaction_def Let_def)
qed

text \<open>
  a replica that gets the \<open>PREPARE\<close> of a new transaction queues it, and votes yes exactly
  when it could lock the key at once and is not reading a log; on yes the lock is held.
\<close>

theorem replica_votes:
  assumes "CHR '':'' \<notin> set h" and "\<not> tpc_queue_locked n" and "last_seq n < s" and "s < 2 ^ 31"
    and "0 \<le> last_seq n" and "map_of (tpc_queue n) s = None" and "split cmd CHR '' '' = w # row # col # ws"
  shows "\<exists>m. replica_prepare (decision_line ''PREPARE'' h s @ '':'' @ cmd) n = Inr m \<and>
    map_of (tpc_queue m) s = Some \<lparr>tx_status = ''PREPARE'', tx_command = cmd, tx_hash = h\<rparr> \<and>
    (let free = (case map_of (row_locks n) (row, col) of None \<Rightarrow> True | Some l \<Rightarrow> l = Free) in
     (free \<longrightarrow> map_of (row_locks m) (row, col) = Some Writer) \<and>
     net m = net n @ [(primary_fd n, decision_line (if free \<and> \<not> is_recovering n then ''YES'' else ''NO'') h s @
        '':'' @ IP n @ '':'' @ to_string (primary_port n) @ crlf)])"
proof -
  let ?n1 = "write_to_tpc_log (decision_line ''PREPARE'' h s) n"
  let ?tx = "\<lparr>tx_status = ''PREPARE'', tx_command = cmd, tx_hash = h\<rparr>"
  let ?n2 = "?n1\<lparr>tpc_seq := max (tpc_seq ?n1) s, tpc_queue := AList.update s ?tx (tpc_queue ?n1)\<rparr>"
  let ?k = "(row, col)"
  let ?free = "case map_of (row_locks n) ?k of None \<Rightarrow> True | Some l \<Rightarrow> l = Free"
  obtain ok n3 where lk: "get_command_locks cmd ?n2 = (ok, n3)" by (cases "get_command_locks cmd ?n2")
  have n3: "n3 = ?n2\<lparr>row_locks := row_locks n3\<rparr>" using get_command_locks_frame [of cmd ?n2] lk by simp
  have free: "ok = ?free" "?free \<longrightarrow> map_of (row_locks n3) ?k = Some Writer"
    using lk unfolding get_command_locks_eq [OF assms(7)] Let_def
    by (auto simp: ensure_lock_locks write_to_tpc_log_def split: option.splits if_split_asm)
  have stoi: "stoi (to_string s) = Inr s" using assms(3,4,5) by (simp add: stoi_to_string)
  have "with_queue_lock (\<lambda>n. map_of (tpc_queue n) s \<noteq> None) n = Inr False"
    using assms(2,6) by (simp add: with_queue_lock_def)
  then have "replica_prepare (decision_line ''PREPARE'' h s @ '':'' @ cmd) n =
      Inr (do_write_backend (primary_fd n3) (decision_line (if ok \<and> \<not> is_recovering n3 then ''YES'' else ''NO'') h s @
        '':'' @ IP n3 @ '':'' @ to_string (primary_port n3) @ crlf) n3)"
    using prepare_cuts [OF assms(1), of s cmd] lk assms(3) by (simp add: replica_prepare_def stoi Let_def)
  moreover have "IP n3 = IP n" "primary_port n3 = primary_port n" "primary_fd n3 = primary_fd n" "net n3 = net n"
    "is_recovering n3 = is_recovering n" "map_of (tpc_queue n3) s = Some ?tx"
    by (subst n3; simp add: write_to_tpc_log_def is_recovering_def)+
  ultimately show ?thesis
    using free by (simp add: do_write_backend_def)
qed


text \<open>
  a yes that is not yet enough (fewer voters than the transaction has replicas, and than
  there are connected ones) decides nothing: only the vote is recorded.
\<close>

theorem primary_waits_for_votes:
  assumes "CHR '':'' \<notin> set h" and "CHR '':'' \<notin> set ip" and "CHR '':'' \<notin> set port" and "port \<noteq> []"
    and "stoi (to_string s) = Inr s" and "already_processed s n = Inr False" and "map_of (tpc_queue n) s = Some t"
    and "length (List.insert (ip @ '':'' @ port) (responses_of n s)) \<noteq> length (replicas_of n s)"
    and "length (List.insert (ip @ '':'' @ port) (responses_of n s)) < length (alive_replicas n)"
  shows "primary_vote (decision_line ''YES'' h s @ '':'' @ ip @ '':'' @ port) n =
    Inr (n\<lparr>tpc_responses := AList.update s (List.insert (ip @ '':'' @ port) (responses_of n s)) (tpc_responses n)\<rparr>)"
proof -
  let ?msg = "decision_line ''YES'' h s @ '':'' @ ip @ '':'' @ port"
  have s: "CHR '':'' \<notin> set (to_string s)" by (simp add: to_string_notin isdigit_def)
  have yes: "contains ?msg ''YES''"
    using contains_append [of "''YES''" "''YES''" "''TPC:''" "'':'' @ h @ '':'' @ to_string s @ '':'' @ ip @ '':'' @ port"]
    by (simp add: decision_line_def contains_iff)
  have cut: "split ?msg CHR '':'' = [''TPC'', ''YES'', h, to_string s, ip, port]"
    using assms(1-4) s split_append_delim [of "CHR '':''" "''TPC''" "''YES:'' @ h @ '':'' @ to_string s @ '':'' @ ip @ '':'' @ port"]
      split_append_delim [of "CHR '':''" "''YES''" "h @ '':'' @ to_string s @ '':'' @ ip @ '':'' @ port"]
    by (simp add: decision_line_def split_no_delim)
  show ?thesis
    using assms(5-9) unfolding primary_vote_def cut Let_def
    by (simp add: yes [simplified] replicas_of_def)
qed

section \<open>Witnesses\<close>

definition some_conn :: conn where
  "some_conn = \<lparr>connfd = 4, coord_conn = False, backend_conn = False, conn_address = []\<rparr>"

definition prepared_node :: node where
  "prepared_node = initial_node\<lparr>tpc_file := [''TPC:PREPARE:h:1''], tpc_pos := 1, tpc_seq := 1,
     tpc_queue := [(1, \<lparr>tx_status = ''PREPARE'', tx_command = ''PUT k c v'', tx_hash = ''h''\<rparr>)],
     row_locks := [((''k'', ''c''), Writer)],
     net := [(0, ''TPC:YES:h:1::0'' @ crlf)]\<rparr>"

definition decided_node :: node where
  "decided_node = initial_node\<lparr>tpc_file := [''TPC:COMMIT:h:1''], tpc_pos := 1, queued_transactions := [1]\<rparr>"

lemma one_stoi: "stoi ''1'' = Inr 1"
  by (simp add: stoi_def strtol_def isspace_def isdigit_def digit_val_def)

lemma one_to_string: "to_string 1 = ''1''" "to_string 0 = ''0''"
  by (simp_all add: to_string_def nat_digits.simps)

lemma one_line_files:
  "file_lines (''TPC:PREPARE:h:1'' @ [newline]) = [''TPC:PREPARE:h:1'']"
  "file_lines (''TPC:COMMIT:h:1'' @ [newline]) = [''TPC:COMMIT:h:1'']"
  by (rule file_lines_one, simp add: newline_free_def)+

lemma prepare_run: "dispatch H 0 some_conn ''TPC:PREPARE:h:1:PUT k c v'' initial_node = Inr prepared_node"
proof -
  have "replica_prepare ''TPC:PREPARE:h:1:PUT k c v'' initial_node = Inr prepared_node"
    by (simp add: one_line_files [simplified] replica_prepare_def str_find_def str_find_from_def substr_between_def substr_after_def
        initial_node_def prepared_node_def some_conn_def one_stoi one_to_string with_queue_lock_def
        write_to_tpc_log_def get_command_locks_def split_def ensure_lock_def is_recovering_def
        do_write_backend_def send_def decision_line_def numeral_eq_Suc Let_def)
  then show ?thesis
    by (simp add: dispatch_def contains_def str_find_def substr_def handle_message_def handle_tpc_def
        initial_node_def some_conn_def)
qed

lemma commit_run: "dispatch H 0 some_conn ''TPC:COMMIT:h:1'' initial_node = Inr decided_node"
proof -
  have "replica_decision ''TPC:COMMIT:h:1'' initial_node = Inr decided_node"
    by (simp add: one_line_files [simplified] replica_decision_def split_def initial_node_def decided_node_def one_stoi
        already_processed_def with_queue_lock_def write_to_tpc_log_def set_tx_status_def set_msg_success_def
        process_tpc_queue_def tpc_loop.simps Let_def)
  then show ?thesis
    by (simp add: dispatch_def contains_def str_find_def substr_def handle_message_def handle_tpc_def
        initial_node_def some_conn_def)
qed


lemma run_one: "dispatch H 0 some_conn msg n = Inr m \<Longrightarrow> node_run H n m"
  unfolding node_run_def by (rule r_into_rtranclp) (rule node_step.message, simp_all)

lemma commit_one_line: "one_line_run H initial_node decided_node"
proof -
  have "one_line ''TPC:COMMIT:h:1''"
    by (simp add: one_line_def logged_texts_def prepare_hash_def str_find_def str_find_from_def substr_between_def
        split_def newline_free_def Let_def numeral_eq_Suc)
  then show ?thesis
    unfolding one_line_run_def by (rule r_into_rtranclp [where r = "node_step H one_line", OF node_step.message [OF _ commit_run]])
qed

lemma initial_log [simp]: "tpc_file initial_node = []" "tpc_pos initial_node = 0"
  "tpc_queue initial_node = []" "tpc_pending initial_node = []"
  by (simp_all add: initial_node_def)

theorem decided_at_most_once_witness:
  "one_line_run (\<lambda>_. 0) initial_node decided_node \<and> distinct (decided (tpc_file decided_node))"
  using decided_at_most_once [OF commit_one_line [of "\<lambda>_. 0"]] commit_one_line [of "\<lambda>_. 0"] by simp

lemma both_decisions_logged:
  "\<exists>k m. already_processed 1 initial_node = Inr False \<and> take_decision ''COMMIT'' 1 ''h'' initial_node = Inr k \<and>
     take_decision ''ABORT'' 1 ''h'' k = Inr m \<and> decided (tpc_file m) = [1, 1]"
proof -
  have new: "already_processed 1 initial_node = Inr False"
    by (simp add: already_processed_def with_queue_lock_def initial_node_def)
  have empty: "\<exists>m. take_decision d 1 ''h'' n = Inr m \<and> tpc_queue m = [] \<and> \<not> tpc_queue_locked m"
    if "tpc_queue n = []" and "\<not> tpc_queue_locked n" for d n
    using that tpc_part_eqD [OF set_status_frame(5)]
    by (simp add: take_decision_def with_queue_lock_def set_tx_status_def process_tpc_queue_def tpc_loop.simps
        forward_msg_frame write_to_tpc_log_def Let_def)
  obtain k where k: "take_decision ''COMMIT'' 1 ''h'' initial_node = Inr k" "tpc_queue k = []" "\<not> tpc_queue_locked k"
    using empty [of initial_node "''COMMIT''"] by (auto simp: initial_node_def)
  then obtain m where m: "take_decision ''ABORT'' 1 ''h'' k = Inr m" using empty [of k "''ABORT''"] by auto
  have "decided (tpc_file m) = [1, 1]"
    using decisions_race [OF _ _ _ new k(1) m] by (simp add: newline_free_def one_to_string one_stoi)
  with new k(1) m show ?thesis by blast
qed

theorem elected_finds_nothing_pending_witness:
  "tpc_file prepared_node = [''TPC:PREPARE:h:1''] \<and>
   (\<exists>p. become_primary some_conn prepared_node = Inr p \<and> tpc_pending p = [])"
proof -
  have "tpc_pos prepared_node = length (tpc_file prepared_node)" "primary_queue prepared_node = []"
    by (simp_all add: prepared_node_def initial_node_def)
  then obtain p where "become_primary some_conn prepared_node = Inr p"
    using become_primary_at_end [of prepared_node some_conn] by simp
  with elected_finds_nothing_pending [OF run_one [OF prepare_run [of "\<lambda>_. 0"]] initial_log(1,2) this]
  show ?thesis by (auto simp: prepared_node_def)
qed

theorem elected_with_kept_commands_blocks_witness:
  "become_primary some_conn (initial_node\<lparr>primary_queue := [''1 PUT k c v'' @ crlf]\<rparr>) = Inl Mutex_blocked"
  by (rule elected_with_kept_commands_blocks [where H = "\<lambda>_. 0" and
        n = "initial_node\<lparr>primary_queue := [''1 PUT k c v'' @ crlf]\<rparr>"])
    (simp_all add: node_run_def)

definition two_decided :: node where
  "two_decided = initial_node\<lparr>tpc_queue :=
     [(1, \<lparr>tx_status = ''COMMIT'', tx_command = ''PUT k c v'', tx_hash = ''h''\<rparr>),
      (2, \<lparr>tx_status = ''COMMIT'', tx_command = ''PUT k d w'', tx_hash = ''i''\<rparr>)],
     row_locks := [((''k'', ''c''), Writer), ((''k'', ''d''), Writer)], active_tablets := (\<lambda>_. True)\<rparr>"

lemma put_kcv: "put_cmd ''k'' ''c'' ''v'' = ''PUT k c v''"
  by (simp add: put_cmd_def)

theorem commit_put_applies_witness:
  "\<exists>m. process_tpc_queue two_decided = Inr m \<and> lookup m (get_tablet ''k'') (''k'', ''c'') = Some ''v'' \<and>
     lookup m (get_tablet ''k'') (''k'', ''d'') = None"
proof -
  have "\<exists>m. process_tpc_queue two_decided = Inr m \<and>
    (\<forall>t' k. lookup m t' k = (if t' = get_tablet ''k'' \<and> k = (''k'', ''c'') then Some ''v'' else lookup two_decided t' k)) \<and>
    map_of (row_locks m) (''k'', ''c'') = Some Free \<and> last_seq m = last_seq two_decided + 1 \<and> \<not> tpc_queue_locked m"
    by (rule commit_put_applies [where t = "\<lparr>tx_status = ''COMMIT'', tx_command = ''PUT k c v'', tx_hash = ''h''\<rparr>"])
      (simp_all add: two_decided_def initial_node_def put_kcv word_ok_def value_ok_def)
  then show ?thesis by (auto simp: two_decided_def initial_node_def lookup_def)
qed

theorem successor_is_lost_witness:
  "\<exists>m. process_tpc_queue two_decided = Inr m \<and> map_of (tpc_queue two_decided) 2 \<noteq> None \<and>
     map_of (tpc_queue m) 2 = None"
proof -
  let ?t = "\<lparr>tx_status = ''COMMIT'', tx_command = ''PUT k c v'', tx_hash = ''h''\<rparr>"
  have "tpc_step 1 ?t (two_decided\<lparr>tpc_queue_locked := True\<rparr>) \<noteq> Inl e" for e
    by (subst commit_step_put [where row = "''k''" and col = "''c''" and v = "''v''"])
      (simp_all add: two_decided_def initial_node_def put_kcv word_ok_def value_ok_def)
  then obtain m where m: "process_tpc_queue two_decided = Inr m"
    using process_tpc_queue_head [of two_decided ?t]
    by (cases "tpc_step 1 ?t (two_decided\<lparr>tpc_queue_locked := True\<rparr>)") (auto simp: two_decided_def initial_node_def)
  have "last_seq m = last_seq two_decided + 1 \<and> map_of (tpc_queue m) (last_seq two_decided + 1) = Some ?t \<and>
    map_of (tpc_queue m) (last_seq two_decided + 2) = None"
    by (rule successor_is_lost [OF _ _ _ m]) (simp_all add: two_decided_def initial_node_def)
  with m show ?thesis by (auto simp: two_decided_def initial_node_def)
qed

theorem early_decision_blocks_server_witness:
  "\<exists>m. primary_decide ''COMMIT'' 2 ''i'' (prepared_node\<lparr>is_primary := True\<rparr>) = Inr m \<and>
     primary_decide ''ABORT'' 1 ''h'' m = Inl Mutex_blocked"
proof -
  have "\<exists>m. primary_decide ''COMMIT'' 2 ''i'' (prepared_node\<lparr>is_primary := True\<rparr>) = Inr m \<and>
     (\<forall>d' s' h'. primary_decide d' s' h' m = Inl Mutex_blocked)"
    by (rule early_decision_blocks_server [where t = "\<lparr>tx_status = ''PREPARE'', tx_command = ''PUT k c v'', tx_hash = ''h''\<rparr>"])
      (simp_all add: prepared_node_def initial_node_def already_processed_def with_queue_lock_def)
  then show ?thesis by blast
qed

theorem replica_votes_witness:
  "\<exists>m. replica_prepare (decision_line ''PREPARE'' ''h'' 1 @ '':'' @ ''PUT k c v'') initial_node = Inr m \<and>
     map_of (row_locks m) (''k'', ''c'') = Some Writer \<and>
     net m = [(0, decision_line ''YES'' ''h'' 1 @ '':'' @ IP initial_node @ '':'' @ to_string 0 @ crlf)]"
proof -
  have cut: "split ''PUT k c v'' CHR '' '' = ''PUT'' # ''k'' # ''c'' # [''v'']" by (simp add: split_def)
  have "row_locks initial_node = []" "net initial_node = []" "primary_fd initial_node = 0"
    "primary_port initial_node = 0" "\<not> is_recovering initial_node"
    by (simp_all add: initial_node_def is_recovering_def)
  moreover have "\<not> tpc_queue_locked initial_node" "last_seq initial_node < 1" "0 \<le> last_seq initial_node"
    "map_of (tpc_queue initial_node) 1 = None" by (simp_all add: initial_node_def)
  ultimately show ?thesis
    using replica_votes [where h = "''h''" and n = initial_node and s = 1, OF _ _ _ _ _ _ cut] by auto
qed

theorem primary_waits_for_votes_witness:
  "primary_vote (decision_line ''YES'' ''h'' 1 @ '':'' @ ''a'' @ '':'' @ ''5'')
      (prepared_node\<lparr>is_primary := True, alive_replicas := [''a:5'', ''b:5''],
         tpc_replicas := [(1, [''a:5'', ''b:5''])]\<rparr>) =
    Inr (prepared_node\<lparr>is_primary := True, alive_replicas := [''a:5'', ''b:5''],
         tpc_replicas := [(1, [''a:5'', ''b:5''])], tpc_responses := [(1, [''a:5''])]\<rparr>)"
  by (subst primary_waits_for_votes [where t = "\<lparr>tx_status = ''PREPARE'', tx_command = ''PUT k c v'', tx_hash = ''h''\<rparr>"])
    (simp_all add: prepared_node_def initial_node_def one_to_string one_stoi already_processed_def
      with_queue_lock_def responses_of_def replicas_of_def)

end
