(* ===== verification/Startup.thy ===== *)
theory Startup
  imports Tpc_Safety Coordinator
begin

text \<open>
  How the processes of the backend start (\<open>backend/table.cpp\<close>, \<open>populate_addresses\<close> and
  \<open>coord_address\<close> of \<open>backend/src/utils.cpp\<close>, \<open>main\<close> of \<open>backend/coordinator.cpp\<close>): what each
  reads from the two configuration files, and that servers and coordinator, which read them
  with different code, agree on who is who.
\<close>

section \<open>The configuration of a server\<close>

text \<open>
  The globals \<open>populate_addresses\<close> and \<open>coord_address\<close> set and that are not in \<open>node\<close>;
  \<open>other_servers\<close> is \<open>forward_addresses\<close>.
\<close>

record net_config =
  heartbeat_addr :: string
  comm_addr :: string
  listen_port :: int
  heartbeat_port :: int
  comm_port :: int
  other_servers :: "string list"
  partition_map :: "(int \<times> string list) list"

definition no_config :: net_config where
  "no_config = \<lparr>heartbeat_addr = [], comm_addr = [], listen_port = 0, heartbeat_port = 0, comm_port = 0,
     other_servers = [], partition_map = []\<rparr>"

text \<open>\<open>tokens[i]\<close> is not checked.\<close>

definition vec_nth :: "'a list \<Rightarrow> nat \<Rightarrow> exn + 'a" where
  "vec_nth xs i = (if i < length xs then Inr (xs ! i) else Inl Undefined_behaviour)"

definition coord_line :: "string \<Rightarrow> net_config \<Rightarrow> exn + net_config" where
  "coord_line line cfg =
     (let tokens = split line CHR '':'' in
      ebind (vec_nth tokens 0) (\<lambda>ip.
      ebind (vec_nth tokens 2) (\<lambda>hb.
      ebind (vec_nth tokens 3) (\<lambda>cm.
        Inr (cfg\<lparr>heartbeat_addr := ip @ '':'' @ hb, comm_addr := ip @ '':'' @ cm\<rparr>)))))"

definition coord_addresses :: "string option \<Rightarrow> net_config \<Rightarrow> exn + net_config" where
  "coord_addresses f cfg = ebind (open_file f) (\<lambda>s. efold coord_line (split s newline) cfg)"

text \<open>The line of this server sets its globals, every other one is added to the address lists.\<close>

definition own_line :: "int \<Rightarrow> string \<Rightarrow> string \<Rightarrow> string \<Rightarrow> string \<Rightarrow> string \<Rightarrow> node \<times> net_config \<Rightarrow> node \<times> net_config" where
  "own_line part ip hb cm lp pp =
     (\<lambda>(n, cfg).
        (n\<lparr>server_partition := part, IP := ip, primary_port := atoi pp, listen_address := ip @ '':'' @ lp\<rparr>,
         cfg\<lparr>listen_port := atoi lp, heartbeat_port := atoi hb, comm_port := atoi cm\<rparr>))"

definition other_line :: "int \<Rightarrow> string \<Rightarrow> string \<Rightarrow> string \<Rightarrow> node \<times> net_config \<Rightarrow> node \<times> net_config" where
  "other_line part ip lp pp =
     (\<lambda>(n, cfg).
        (n, cfg\<lparr>other_servers := other_servers cfg @ [ip @ '':'' @ lp],
                partition_map := AList.update part (set_at (partition_map cfg) part @ [ip @ '':'' @ pp]) (partition_map cfg)\<rparr>))"

definition populate_line :: "int \<Rightarrow> nat \<times> string \<Rightarrow> node \<times> net_config \<Rightarrow> exn + (node \<times> net_config)" where
  "populate_line server_idx entry s =
     (let tokens = split (snd entry) CHR '':'' in
      ebind (vec_nth tokens 0) (\<lambda>part.
      ebind (vec_nth tokens 1) (\<lambda>ip.
      ebind (vec_nth tokens 4) (\<lambda>lp.
      ebind (vec_nth tokens 5) (\<lambda>pp.
        if int (fst entry) = server_idx
        then ebind (vec_nth tokens 2) (\<lambda>hb. ebind (vec_nth tokens 3) (\<lambda>cm.
               Inr (own_line (atoi part) ip hb cm lp pp s)))
        else Inr (other_line (atoi part) ip lp pp s))))))"

definition populate_addresses :: "string option \<Rightarrow> int \<Rightarrow> node \<times> net_config \<Rightarrow> exn + (node \<times> net_config)" where
  "populate_addresses f server_idx s =
     ebind (open_file f) (\<lambda>c. efold (populate_line server_idx) (enumerate 1 (split c newline)) s)"

text \<open>
  \<open>main\<close> of a storage server with the two files and its number, up to the accept loop; the
  addresses the accept loop compares with. Its own files are in \<open>n\<close>.
\<close>

definition start_server :: "string option \<Rightarrow> string option \<Rightarrow> int \<Rightarrow> node \<Rightarrow> exn + (node \<times> net_config)" where
  "start_server coord_file config_file server_idx n =
     ebind (coord_addresses coord_file no_config) (\<lambda>cfg0.
     ebind (populate_addresses config_file server_idx (n, cfg0)) (\<lambda>(n1, cfg).
     ebind (boot n1) (\<lambda>n2. Inr (n2, cfg))))"

definition accept_config :: "node \<Rightarrow> net_config \<Rightarrow> config" where
  "accept_config n cfg =
     \<lparr>forward_addresses = other_servers cfg, part_addresses = set_at (partition_map cfg) (server_partition n)\<rparr>"

text \<open>The names of the files of server \<open>i\<close> in the directory the servers share.\<close>

definition log_filepath :: "int \<Rightarrow> nat \<Rightarrow> string" where
  "log_filepath i t = ''server_log_'' @ to_string i @ ''_tablet_'' @ to_string (int t) @ ''.txt''"

definition table_filepath :: "int \<Rightarrow> nat \<Rightarrow> string" where
  "table_filepath i t = ''checkpoint_file_'' @ to_string i @ ''_tablet_'' @ to_string (int t) @ ''.txt''"

definition tpc_filepath :: "int \<Rightarrow> string" where
  "tpc_filepath i = ''tpc_log'' @ to_string i @ ''.txt''"

section \<open>The coordinator\<close>

text \<open>
  The first line of the server file has the address the coordinator binds to and its three
  ports; the storage file follows.
\<close>

record coord_ports =
  server_ip :: string
  frontend_port :: int
  storage_heartbeat_port :: int
  storage_comm_port :: int

definition first_line :: "string \<Rightarrow> string" where
  "first_line s = (case split s newline of [] \<Rightarrow> [] | l # _ \<Rightarrow> l)"

definition coordinator_ports :: "string \<Rightarrow> exn + coord_ports" where
  "coordinator_ports s =
     (let info = split (first_line s) CHR '':'' in
      ebind (at info 0) (\<lambda>ip.
      ebind (at info 1) (\<lambda>s1. ebind (stoi s1) (\<lambda>fp.
      ebind (at info 2) (\<lambda>s2. ebind (stoi s2) (\<lambda>hb.
      ebind (at info 3) (\<lambda>s3. ebind (stoi s3) (\<lambda>cm.
        Inr \<lparr>server_ip = ip, frontend_port = fp, storage_heartbeat_port = hb, storage_comm_port = cm\<rparr>))))))))"

definition start_coordinator :: "string option \<Rightarrow> string option \<Rightarrow> exn + (coord_ports \<times> coord)" where
  "start_coordinator server_file storage_file =
     ebind (open_file server_file) (\<lambda>s.
     ebind (coordinator_ports s) (\<lambda>ports.
     ebind (open_file storage_file) (\<lambda>t.
     ebind (load_servers t initial_coord) (\<lambda>c. Inr (ports, c)))))"

section \<open>Lemmas: what a start-up keeps\<close>

lemma process_log_line_role: "process_log_line line n = Inr m \<Longrightarrow> role m = role n \<and> partition_fds m = partition_fds n"
  unfolding process_log_line_def Let_def
  by (cases "stoi (split line CHR '':'' ! 3)") (auto simp: role_def split: if_split_asm)

lemma process_tpc_log_role:
  assumes "process_tpc_log n = Inr m"
  shows "role m = role n \<and> partition_fds m = partition_fds n"
proof (rule efold_invariant [where P = "\<lambda>m. role m = role n \<and> partition_fds m = partition_fds n", OF _ _ assms [unfolded process_tpc_log_def]])
  show "role (n\<lparr>tpc_pending := [], tpc_pos := length (tpc_file n)\<rparr>) = role n \<and>
      partition_fds (n\<lparr>tpc_pending := [], tpc_pos := length (tpc_file n)\<rparr>) = partition_fds n"
    by (simp add: role_def)
qed (use process_log_line_role in \<open>metis\<close>)

lemma boot_result:
  assumes "boot n = Inr m"
  shows "role m = (IP n, listen_address n, [], primary_port n, server_partition n, False, [], [])"
    and "tpc_pos m = length (tpc_file m)" and "partition_fds m = []"
proof -
  from assms obtain x y where x: "load_tablets_startup (create_files x) = Inr y" and y: "process_tpc_log y = Inr m"
    and r: "role x = (IP n, listen_address n, [], primary_port n, server_partition n, False, [], [])"
      "partition_fds x = []"
    by (auto simp: boot_def ebind_eq_Inr_iff role_def)
  have t: "tpc_part y = tpc_part x" using load_tablets_startup_tpc [OF x] by simp
  show "role m = (IP n, listen_address n, [], primary_port n, server_partition n, False, [], [])"
    using process_tpc_log_role [OF y] tpc_part_eqD(9) [OF t] r by simp
  show "partition_fds m = []" using process_tpc_log_role [OF y] tpc_part_eqD(7) [OF t] r by simp
  show "tpc_pos m = length (tpc_file m)" using process_tpc_log_fields [OF y] by simp
qed

section \<open>Lemmas: the storage file as a server reads it\<close>

definition storage_file :: "server_config list \<Rightarrow> string" where
  "storage_file ss = concat (map (\<lambda>s. config_line s @ [newline]) ss)"

text \<open>Where a server listens, and where it connects to its primary from.\<close>

definition listen_of :: "server_config \<Rightarrow> string" where
  "listen_of s = address s (sc_listen s)"

definition peer_of :: "server_config \<Rightarrow> string" where
  "peer_of s = sc_ip s @ '':'' @ sc_last s"

definition own_node :: "server_config \<Rightarrow> node \<Rightarrow> node" where
  "own_node s n = n\<lparr>server_partition := sc_partition s, IP := sc_ip s, primary_port := atoi (sc_last s),
     listen_address := listen_of s\<rparr>"

definition others :: "int \<Rightarrow> nat \<Rightarrow> server_config list \<Rightarrow> server_config list" where
  "others i k ss = map snd (filter (\<lambda>p. int (fst p) \<noteq> i) (enumerate k ss))"

lemma split_config_line:
  assumes "config_ok s"
  shows "split (config_line s) CHR '':'' = [to_string (sc_partition s), sc_ip s,
      to_string (sc_heartbeat s), to_string (sc_comm s), to_string (sc_listen s), sc_last s]"
  using split_full_id [OF assms] by (simp add: config_line_def)

lemma populate_config_line:
  assumes "config_ok s"
  shows "populate_line i (k, config_line s) st = Inr
    (if int k = i
     then own_line (sc_partition s) (sc_ip s) (to_string (sc_heartbeat s)) (to_string (sc_comm s))
            (to_string (sc_listen s)) (sc_last s) st
     else other_line (sc_partition s) (sc_ip s) (to_string (sc_listen s)) (sc_last s) st)"
proof -
  have "atoi (to_string (sc_partition s)) = sc_partition s"
    using assms by (intro atoi_to_string) (simp_all add: config_ok_def fits_int_def)
  then show ?thesis by (simp add: populate_line_def split_config_line [OF assms] vec_nth_def)
qed

lemma others_Cons: "others i k (s # ss) = (if int k = i then [] else [s]) @ others i (Suc k) ss"
  by (simp add: others_def)

lemma efold_populate:
  assumes "\<forall>s \<in> set ss. config_ok s"
  shows "\<exists>cfg'. efold (populate_line i) (enumerate k (map config_line ss)) (n, cfg) =
       Inr (if int k \<le> i \<and> i < int (k + length ss) then own_node (ss ! (nat i - k)) n else n, cfg')
     \<and> other_servers cfg' = other_servers cfg @ map listen_of (others i k ss)
     \<and> (\<forall>p. set_at (partition_map cfg') p =
          set_at (partition_map cfg) p @ map peer_of (filter (\<lambda>s. sc_partition s = p) (others i k ss)))
     \<and> heartbeat_addr cfg' = heartbeat_addr cfg \<and> comm_addr cfg' = comm_addr cfg"
  using assms
proof (induction ss arbitrary: k n cfg)
  case Nil
  then show ?case by (auto simp: others_def)
next
  case (Cons s ss)
  from Cons.prems have ok: "config_ok s" and oks: "\<forall>s \<in> set ss. config_ok s" by simp_all
  show ?case
  proof (cases "int k = i")
    case True
    let ?cfg = "cfg\<lparr>listen_port := atoi (to_string (sc_listen s)), heartbeat_port := atoi (to_string (sc_heartbeat s)),
      comm_port := atoi (to_string (sc_comm s))\<rparr>"
    have step: "populate_line i (k, config_line s) (n, cfg) = Inr (own_node s n, ?cfg)"
      using populate_config_line [OF ok] True by (simp add: own_line_def own_node_def listen_of_def address_def)
    from Cons.IH [OF oks, of "Suc k" "own_node s n" ?cfg] show ?thesis
      by (rule ex_forward) (use step True in \<open>simp add: others_Cons\<close>)
  next
    case False
    let ?cfg = "cfg\<lparr>other_servers := other_servers cfg @ [listen_of s],
      partition_map := AList.update (sc_partition s) (set_at (partition_map cfg) (sc_partition s) @ [peer_of s]) (partition_map cfg)\<rparr>"
    have step: "populate_line i (k, config_line s) (n, cfg) = Inr (n, ?cfg)"
      using populate_config_line [OF ok] False by (simp add: other_line_def listen_of_def address_def peer_of_def)
    have nth: "(s # ss) ! (nat i - k) = ss ! (nat i - Suc k)" if "int (Suc k) \<le> i"
    proof -
      from that have "nat i - k = Suc (nat i - Suc k)" by arith
      then show ?thesis by (simp only: nth_Cons_Suc)
    qed
    have own: "(if int k \<le> i \<and> i < int (k + length (s # ss)) then own_node ((s # ss) ! (nat i - k)) n else n)
        = (if int (Suc k) \<le> i \<and> i < int (Suc k + length ss) then own_node (ss ! (nat i - Suc k)) n else n)"
      using False nth by (intro if_cong) auto
    from Cons.IH [OF oks, of "Suc k" n ?cfg] show ?thesis
      unfolding own by (rule ex_forward) (use step False in \<open>simp add: others_Cons set_at_update\<close>)
  qed
qed

lemma set_others: "set (others (int i + 1) 1 ss) = {ss ! j | j. j < length ss \<and> j \<noteq> i}"
proof (intro set_eqI iffI)
  fix s
  assume "s \<in> set (others (int i + 1) 1 ss)"
  then obtain k where k: "(k, s) \<in> set (enumerate 1 ss)" "k \<noteq> Suc i" by (auto simp: others_def)
  then have "1 \<le> k" "k < length ss + 1" "ss ! (k - 1) = s" by (simp_all add: in_set_enumerate_eq)
  with k(2) show "s \<in> {ss ! j | j. j < length ss \<and> j \<noteq> i}" by (auto intro!: exI [of _ "k - 1"])
next
  fix s
  assume "s \<in> {ss ! j | j. j < length ss \<and> j \<noteq> i}"
  then obtain j where "j < length ss" "j \<noteq> i" "s = ss ! j" by blast
  then have "(Suc j, s) \<in> set (enumerate 1 ss)" "Suc j \<noteq> Suc i" by (simp_all add: in_set_enumerate_eq)
  then show "s \<in> set (others (int i + 1) 1 ss)" by (force simp: others_def)
qed

lemma split_storage_file:
  assumes "\<forall>s \<in> set ss. config_ok s"
  shows "split (storage_file ss) newline = map config_line ss"
  using split_lines [of "map config_line ss"] config_line_newline assms
  by (simp add: storage_file_def comp_def)

lemma coord_addresses_keeps:
  assumes "coord_addresses f no_config = Inr cfg"
  shows "other_servers cfg = [] \<and> partition_map cfg = []"
proof -
  from assms obtain s where "efold coord_line (split s newline) no_config = Inr cfg"
    by (auto simp: coord_addresses_def ebind_eq_Inr_iff)
  then show ?thesis
    by (rule efold_invariant [where P = "\<lambda>c. other_servers c = [] \<and> partition_map c = []", rotated 2])
      (auto simp: coord_line_def no_config_def Let_def ebind_eq_Inr_iff)
qed

text \<open>What server number \<open>i + 1\<close> knows once it accepts connections.\<close>

lemma start_server_result:
  assumes "\<forall>s \<in> set ss. config_ok s" and "i < length ss"
    and "start_server f (Some (storage_file ss)) (int i + 1) n = Inr (m, cfg)"
  shows "role m = (sc_ip (ss ! i), listen_of (ss ! i), [], atoi (sc_last (ss ! i)), sc_partition (ss ! i), False, [], [])"
    and "tpc_pos m = length (tpc_file m)" and "partition_fds m = []"
    and "forward_addresses (accept_config m cfg) = map listen_of (others (int i + 1) 1 ss)"
    and "part_addresses (accept_config m cfg) =
      map peer_of (filter (\<lambda>s. sc_partition s = sc_partition (ss ! i)) (others (int i + 1) 1 ss))"
proof -
  from assms(3) obtain cfg0 n1 where 0: "coord_addresses f no_config = Inr cfg0"
    and 1: "populate_addresses (Some (storage_file ss)) (int i + 1) (n, cfg0) = Inr (n1, cfg)"
    and 2: "boot n1 = Inr m"
    by (auto simp: start_server_def ebind_eq_Inr_iff split: prod.splits)
  from coord_addresses_keeps [OF 0] have e: "other_servers cfg0 = []" "set_at (partition_map cfg0) p = []" for p
    by (simp_all add: set_at_def)
  from 1 have "efold (populate_line (int i + 1)) (enumerate 1 (map config_line ss)) (n, cfg0) = Inr (n1, cfg)"
    by (simp add: populate_addresses_def open_file_def split_storage_file [OF assms(1)])
  with efold_populate [OF assms(1), of "int i + 1" 1 n cfg0] assms(2)
  have n1: "n1 = own_node (ss ! i) n"
    and o: "other_servers cfg = map listen_of (others (int i + 1) 1 ss)"
    and p: "set_at (partition_map cfg) q = map peer_of (filter (\<lambda>s. sc_partition s = q) (others (int i + 1) 1 ss))" for q
    by (auto simp: e nat_add_distrib)
  show r: "role m = (sc_ip (ss ! i), listen_of (ss ! i), [], atoi (sc_last (ss ! i)), sc_partition (ss ! i), False, [], [])"
    using boot_result(1) [OF 2] by (simp add: n1 own_node_def)
  show "tpc_pos m = length (tpc_file m)" "partition_fds m = []" by (rule boot_result [OF 2])+
  show "forward_addresses (accept_config m cfg) = map listen_of (others (int i + 1) 1 ss)"
    by (simp add: accept_config_def o)
  show "part_addresses (accept_config m cfg) =
      map peer_of (filter (\<lambda>s. sc_partition s = sc_partition (ss ! i)) (others (int i + 1) 1 ss))"
    using r by (simp add: accept_config_def p role_def)
qed

end
