(* ===== verification/Balancer.thy ===== *)
theory Balancer
  imports Backend_Client
begin

text \<open>
  The load balancer of the web frontends (\<open>frontend/loadbalancer.cc\<close>,
  \<open>frontend/src/membership.cc\<close>): the heartbeats of the frontends, the list it keeps of them and
  the redirect it answers to a browser. \<open>now\<close> is the clock.
\<close>

section \<open>Addresses and messages\<close>

text \<open>\<open>sin_addr\<close> as text; \<open>0.0.0.0\<close> is \<open>INADDR_ANY\<close>.\<close>

record sockaddr =
  sin_addr :: string
  sin_port :: int

definition INADDR_ANY :: string where
  "INADDR_ANY = ''0.0.0.0''"

text \<open>The heartbeat a frontend listening at \<open>server\<close> sends every six seconds.\<close>

definition send_heartbeats :: "string \<Rightarrow> sockaddr \<Rightarrow> string" where
  "send_heartbeats secret server =
     ''HTBTG '' @ secret @ '' '' @ sin_addr server @ '':'' @ to_string (sin_port server) @ crlf"

text \<open>
  The address in a message overwrites that of the sender; an address \<open>inet_pton\<close> does not accept
  leaves the sender's. The prefix of a load message has no space at its end, so its address
  starts with one. A port that reads as 0 ends the process.
\<close>

definition server_prefix :: "string \<Rightarrow> string \<Rightarrow> string option" where
  "server_prefix msg secret =
     (if starts_with msg (''HTBTG '' @ secret @ '' '') then Some (''HTBTG '' @ secret @ '' '')
      else if starts_with msg (''HBINC '' @ secret) then Some (''HBINC '' @ secret)
      else if starts_with msg (''HBDEC '' @ secret) then Some (''HBDEC '' @ secret)
      else None)"

definition is_server :: "string \<Rightarrow> string \<Rightarrow> sockaddr \<Rightarrow> exn + sockaddr option" where
  "is_server msg secret src =
     (case server_prefix msg secret of
        None \<Rightarrow> Inr None
      | Some p \<Rightarrow>
          let addr = drop (length p) msg;
              colon = str_find addr '':'';
              ip = substr_to addr colon;
              port = atoi (substr_after addr colon) mod 2 ^ 16
          in if port = 0 then Inl Process_exit
             else Inr (Some \<lparr>sin_addr = (if inet_pton_ok ip then ip else sin_addr src), sin_port = port\<rparr>))"

section \<open>A frontend as the balancer knows it\<close>

record http_server =
  ipaddr :: string
  port_of :: int
  last_heartbeat :: int
  num_connections :: nat

text \<open>
  The constructor has \<open>inet_pton\<close> read the uninitialised \<open>ipaddr\<close> when the address is not
  \<open>INADDR_ANY\<close>.
\<close>

definition new_server :: "int \<Rightarrow> sockaddr \<Rightarrow> exn + http_server" where
  "new_server now server =
     (if sin_addr server \<noteq> INADDR_ANY then Inl Undefined_behaviour
      else Inr \<lparr>ipaddr = ''127.0.0.1'', port_of = sin_port server, last_heartbeat = now, num_connections = 0\<rparr>)"

definition heartbeat :: "int \<Rightarrow> http_server \<Rightarrow> http_server" where
  "heartbeat now h = h\<lparr>last_heartbeat := now\<rparr>"

definition isalive :: "int \<Rightarrow> http_server \<Rightarrow> bool" where
  "isalive now h = (now - last_heartbeat h \<le> 12)"

text \<open>
  \<open>inet_pton\<close> of the empty \<open>refip\<close> fails; a named address then matches an empty \<open>ipaddr\<close> only.
\<close>

definition matches :: "sockaddr \<Rightarrow> http_server \<Rightarrow> bool" where
  "matches server h =
     ((sin_addr server = INADDR_ANY \<or> ipaddr h = []) \<and> port_of h = sin_port server)"

definition incload :: "http_server \<Rightarrow> exn + http_server" where
  "incload h =
     (if num_connections h \<ge> 2 ^ 32 - 1 then Inl Process_exit
      else Inr (h\<lparr>num_connections := num_connections h + 1\<rparr>))"

definition decload :: "http_server \<Rightarrow> exn + http_server" where
  "decload h =
     (if num_connections h = 0 then Inl Process_exit
      else Inr (h\<lparr>num_connections := num_connections h - 1\<rparr>))"

section \<open>Messages of the frontends\<close>

definition drop_last :: "char \<Rightarrow> string \<Rightarrow> string" where
  "drop_last c s = (if s \<noteq> [] \<and> last s = c then butlast s else s)"

text \<open>\<open>None\<close>: no entry matches, or the message is none of the three.\<close>

primrec update_server ::
  "(http_server \<Rightarrow> exn + http_server) \<Rightarrow> sockaddr \<Rightarrow> http_server list \<Rightarrow> exn + http_server list option" where
  "update_server f src [] = Inr None"
| "update_server f src (h # hs) =
     (if matches src h then ebind (f h) (\<lambda>h'. Inr (Some (h' # hs)))
      else ebind (update_server f src hs) (\<lambda>r. Inr (map_option (Cons h) r)))"

text \<open>Every message that passes \<open>is_server\<close> is one of the three kinds.\<close>

definition server_update :: "int \<Rightarrow> string \<Rightarrow> http_server \<Rightarrow> exn + http_server" where
  "server_update now msg h =
     (if starts_with msg ''HBINC'' then incload h
      else if starts_with msg ''HBDEC'' then decload h
      else Inr (heartbeat now h))"

definition chomp :: "string \<Rightarrow> string" where
  "chomp s = drop_last CHR 0x0D (drop_last CHR 0x0A s)"

definition handle_fserver_state ::
  "int \<Rightarrow> string \<Rightarrow> string \<Rightarrow> sockaddr \<Rightarrow> http_server list \<Rightarrow> exn + http_server list" where
  "handle_fserver_state now secret text sender servers =
     (if text = [] \<or> text = [CHR 0x0A] then Inl Undefined_behaviour
      else
        let msg = chomp text
        in ebind (is_server msg secret sender) (\<lambda>src.
             case src of
               None \<Rightarrow> Inl Process_exit
             | Some a \<Rightarrow>
                 ebind (update_server (server_update now msg) a servers) (\<lambda>r.
                   case r of
                     Some servers' \<Rightarrow> Inr servers'
                   | None \<Rightarrow>
                       if starts_with msg ''HTBTG'' then ebind (new_server now a) (\<lambda>h. Inr (servers @ [h]))
                       else Inl Process_exit)))"

section \<open>Browsers\<close>

definition server_url :: "http_server \<Rightarrow> string" where
  "server_url h =
     ''http://'' @ (if contains (ipaddr h) ''127.0.0.1'' then ''localhost'' else ipaddr h) @ '':'' @
     to_string (port_of h) @ ''/''"

text \<open>The list from the turn of \<open>counter\<close> on; \<open>counter + i\<close> is an unsigned 64-bit number.\<close>

definition in_turn :: "nat \<Rightarrow> http_server list \<Rightarrow> http_server list" where
  "in_turn counter servers =
     map (\<lambda>i. servers ! ((counter + i) mod 2 ^ 64 mod length servers)) [0..<length servers]"

definition get_roundrobin_redirect :: "int \<Rightarrow> http_server list \<Rightarrow> nat \<Rightarrow> string" where
  "get_roundrobin_redirect now servers counter =
     (case filter (isalive now) (in_turn counter servers) of [] \<Rightarrow> [] | h # _ \<Rightarrow> server_url h)"

definition get_status :: "int \<Rightarrow> http_server list \<Rightarrow> string" where
  "get_status now servers =
     ''+OK '' @
     concat (map (\<lambda>i. let h = servers ! i in
         ipaddr h @ '':'' @ to_string (port_of h) @ (if isalive now h then ''-ON'' else ''-OFF'') @
         (if i < length servers - 1 then '' '' else [])) [0..<length servers]) @ crlf"

section \<open>The loop\<close>

text \<open>
  \<open>recv_buf\<close> is the array datagrams are received into; it is not cleared, so a datagram without a
  zero byte is followed by what an earlier one left.
\<close>

record balancer =
  frontend_servers :: "http_server list"
  ctr :: nat
  recv_buf :: string

definition received :: "string \<Rightarrow> string \<Rightarrow> string" where
  "received d old = take 256 d @ drop (length (take 256 d)) old"

datatype lb_event =
    Datagram string sockaddr
  | Browser "string list"

text \<open>One round of the loop: the answer to a browser, and the new state.\<close>

definition lb_step :: "string \<Rightarrow> int \<Rightarrow> lb_event \<Rightarrow> balancer \<Rightarrow> exn + (string option \<times> balancer)" where
  "lb_step secret now e b =
     (case e of
        Datagram d sender \<Rightarrow>
          let bytes = received d (recv_buf b)
          in ebind (handle_fserver_state now secret (c_string bytes) sender (frontend_servers b)) (\<lambda>servers.
               Inr (None, b\<lparr>frontend_servers := servers, recv_buf := bytes\<rparr>))
      | Browser chunks \<Rightarrow>
          if starts_with (fst (do_read crlf chunks)) ''GET passwd null null''
          then Inr (Some (get_status now (frontend_servers b)), b)
          else
            let redirect = get_roundrobin_redirect now (frontend_servers b) (ctr b)
            in Inr (Some ((if redirect = [] then ''HTTP/1.1 503 Service Unavailable''
                           else ''HTTP/1.1 301 Moved Permanently'' @ crlf @ ''Location: '' @ redirect) @ crlf @ crlf),
                    b\<lparr>ctr := (ctr b + 1) mod 2 ^ 64\<rparr>))"

text \<open>A run: every event with the time it is handled at.\<close>

definition lb_run :: "string \<Rightarrow> (int \<times> lb_event) list \<Rightarrow> balancer \<Rightarrow> exn + balancer" where
  "lb_run secret es b = efold (\<lambda>(now, e) b. ebind (lb_step secret now e b) (\<lambda>(_, b'). Inr b')) es b"

text \<open>The same with what browsers are answered, in order.\<close>

primrec lb_answers :: "string \<Rightarrow> (int \<times> lb_event) list \<Rightarrow> balancer \<Rightarrow> exn + (string option list \<times> balancer)" where
  "lb_answers secret [] b = Inr ([], b)"
| "lb_answers secret (x # es) b =
     ebind (lb_step secret (fst x) (snd x) b) (\<lambda>(a, b1).
     ebind (lb_answers secret es b1) (\<lambda>(as, b2). Inr (a # as, b2)))"

section \<open>Lemmas\<close>

text \<open>One entry for every port, under the local address.\<close>

definition servers_ok :: "http_server list \<Rightarrow> bool" where
  "servers_ok hs = (distinct (map port_of hs) \<and> (\<forall>h \<in> set hs. ipaddr h = ''127.0.0.1''))"

lemma update_server_None: "update_server f src hs = Inr None \<Longrightarrow> h \<in> set hs \<Longrightarrow> \<not> matches src h"
  by (induction hs) (auto elim!: ebind_InrE split: if_splits)

lemma update_server_Some:
  assumes "update_server f src hs = Inr (Some hs')"
    and "\<And>h h'. f h = Inr h' \<Longrightarrow> port_of h' = port_of h \<and> ipaddr h' = ipaddr h"
  shows "map port_of hs' = map port_of hs \<and> map ipaddr hs' = map ipaddr hs"
  using assms(1)
proof (induction hs arbitrary: hs')
  case (Cons h hs)
  show ?case
  proof (cases "matches src h")
    case True
    with Cons.prems assms(2) show ?thesis by (auto elim!: ebind_InrE)
  next
    case False
    with Cons.prems obtain hs'' where "update_server f src hs = Inr (Some hs'')" "hs' = h # hs''"
      by (auto elim!: ebind_InrE)
    with Cons.IH show ?thesis by auto
  qed
qed simp

lemma server_update_frame: "server_update now msg h = Inr h' \<Longrightarrow> port_of h' = port_of h \<and> ipaddr h' = ipaddr h"
  by (auto simp: server_update_def incload_def decload_def heartbeat_def split: if_splits)

lemma servers_ok_map:
  "map port_of hs' = map port_of hs \<and> map ipaddr hs' = map ipaddr hs \<Longrightarrow> servers_ok hs \<Longrightarrow> servers_ok hs'"
  unfolding servers_ok_def by (metis (no_types, lifting) in_set_conv_nth length_map nth_map)

lemma handle_fserver_state_ok:
  assumes "handle_fserver_state now secret d sender hs = Inr hs'" and "servers_ok hs"
  shows "servers_ok hs'"
proof -
  from assms(1) obtain a r where
    r: "update_server (server_update now (chomp d)) a hs = Inr r"
    and hs': "r = Some hs' \<or> (r = None \<and> (\<exists>h. new_server now a = Inr h \<and> hs' = hs @ [h]))"
    unfolding handle_fserver_state_def Let_def
    by (auto elim!: ebind_InrE split: if_splits option.splits)
  from hs' show ?thesis
  proof
    assume "r = Some hs'"
    with r have "map port_of hs' = map port_of hs \<and> map ipaddr hs' = map ipaddr hs"
      using update_server_Some [of "server_update now (chomp d)" a hs hs'] server_update_frame by metis
    then show ?thesis using assms(2) by (rule servers_ok_map)
  next
    assume "r = None \<and> (\<exists>h. new_server now a = Inr h \<and> hs' = hs @ [h])"
    then obtain h where h: "new_server now a = Inr h" "hs' = hs @ [h]" and none: "r = None" by blast
    have "\<forall>g \<in> set hs. \<not> matches a g" using update_server_None r none by blast
    moreover have "sin_addr a = INADDR_ANY" "port_of h = sin_port a" "ipaddr h = ''127.0.0.1''"
      using h(1) by (auto simp: new_server_def split: if_splits)
    ultimately show ?thesis
      using assms(2) h(2) by (auto simp: servers_ok_def matches_def)
  qed
qed

lemma lb_run_ok:
  assumes "lb_run secret es b = Inr b'" and "servers_ok (frontend_servers b)"
  shows "servers_ok (frontend_servers b')"
  using assms(2,1) unfolding lb_run_def
proof (rule efold_invariant [rotated])
  fix x c c'
  assume "servers_ok (frontend_servers c)" "(\<lambda>(now, e) b. ebind (lb_step secret now e b) (\<lambda>(_, b'). Inr b')) x c = Inr c'"
  then show "servers_ok (frontend_servers c')"
    by (auto simp: lb_step_def Let_def split: prod.splits lb_event.splits if_splits elim!: ebind_InrE
        dest: handle_fserver_state_ok)
qed

lemma redirect_cases:
  assumes "get_roundrobin_redirect now hs k \<noteq> []"
  shows "\<exists>h \<in> set hs. isalive now h \<and> get_roundrobin_redirect now hs k = server_url h"
proof -
  from assms obtain h rest where h: "filter (isalive now) (in_turn k hs) = h # rest"
    by (auto simp: get_roundrobin_redirect_def split: list.splits)
  then have "h \<in> set (filter (isalive now) (in_turn k hs))" by simp
  then have "h \<in> set (in_turn k hs)" "isalive now h" by simp_all
  moreover from this(1) have "hs \<noteq> []" by (auto simp: in_turn_def)
  with \<open>h \<in> set (in_turn k hs)\<close> have "h \<in> set hs" by (auto simp: in_turn_def)
  ultimately show ?thesis using h by (auto simp: get_roundrobin_redirect_def)
qed


lemma update_server_heartbeat:
  "\<exists>r. update_server (\<lambda>h. Inr (heartbeat now h)) a hs = Inr r \<and>
     (case r of None \<Rightarrow> True | Some hs' \<Rightarrow> \<exists>h \<in> set hs'. matches a h \<and> last_heartbeat h = now)"
proof (induction hs)
  case (Cons h hs)
  show ?case
  proof (cases "matches a h")
    case True
    then show ?thesis by (simp add: heartbeat_def matches_def)
  next
    case False
    with Cons.IH show ?thesis by (elim exE conjE) (auto split: option.splits)
  qed
qed simp

lemma heartbeat_message:
  assumes "sin_addr server = INADDR_ANY" and "0 < sin_port server" and "sin_port server < 2 ^ 16"
  shows "is_server (chomp (send_heartbeats secret server)) secret sender = Inr (Some server)"
    and "starts_with (chomp (send_heartbeats secret server)) ''HTBTG''"
    and "\<not> starts_with (chomp (send_heartbeats secret server)) ''HBINC''"
    and "\<not> starts_with (chomp (send_heartbeats secret server)) ''HBDEC''"
proof -
  let ?p = "''HTBTG '' @ secret @ '' ''" and ?addr = "INADDR_ANY @ CHR '':'' # to_string (sin_port server)"
  have msg: "chomp (send_heartbeats secret server) = ?p @ ?addr"
  proof -
    have "drop_last CHR 0x0A (send_heartbeats secret server) = ?p @ ?addr @ [CHR 0x0D]"
      by (simp add: send_heartbeats_def drop_last_def assms(1) butlast_append)
    then show ?thesis by (simp add: chomp_def drop_last_def butlast_append)
  qed
  have "server_prefix (?p @ ?addr) secret = Some ?p"
    by (simp add: server_prefix_def starts_with_def)
  moreover have "str_find ?addr '':'' = Some (length INADDR_ANY)"
    by (rule str_find_char) (simp add: INADDR_ANY_def)
  moreover have "atoi (to_string (sin_port server)) = sin_port server"
    using assms by (intro atoi_to_string) simp_all
  moreover have "inet_pton_ok INADDR_ANY"
    by (simp add: INADDR_ANY_def inet_pton_ok_def ipv4_octet_def split_def isdigit_def digit_val_def)
  ultimately show "is_server (chomp (send_heartbeats secret server)) secret sender = Inr (Some server)"
    using assms unfolding msg by (simp add: is_server_def Let_def substr_after_def)
  show "starts_with (chomp (send_heartbeats secret server)) ''HTBTG''"
    "\<not> starts_with (chomp (send_heartbeats secret server)) ''HBINC''"
    "\<not> starts_with (chomp (send_heartbeats secret server)) ''HBDEC''"
    unfolding msg by (simp_all add: starts_with_def)
qed

section \<open>Properties\<close>

text \<open>
  the heartbeat a frontend sends is accepted whatever address it comes from: the balancer
  then has an entry for its port whose last heartbeat is this one.
\<close>

theorem heartbeat_registers:
  assumes "sin_addr server = INADDR_ANY" and "0 < sin_port server" and "sin_port server < 2 ^ 16"
  shows "\<exists>hs'. handle_fserver_state now secret (send_heartbeats secret server) sender hs = Inr hs'
    \<and> (\<exists>h \<in> set hs'. port_of h = sin_port server \<and> isalive now h)"
proof -
  note m = heartbeat_message [OF assms, of secret]
  have ne: "send_heartbeats secret server \<noteq> []" "send_heartbeats secret server \<noteq> [CHR 0x0A]"
    by (simp_all add: send_heartbeats_def)
  have f: "server_update now (chomp (send_heartbeats secret server)) = (\<lambda>h. Inr (heartbeat now h))"
    using m(3,4) by (intro ext) (simp add: server_update_def)
  from update_server_heartbeat [of now server hs] obtain r where
    r: "update_server (\<lambda>h. Inr (heartbeat now h)) server hs = Inr r"
      "case r of None \<Rightarrow> True | Some hs' \<Rightarrow> \<exists>h \<in> set hs'. matches server h \<and> last_heartbeat h = now" by blast
  show ?thesis
  proof (cases r)
    case None
    with r(1) ne m(1,2) f assms(1) show ?thesis
      by (simp add: handle_fserver_state_def Let_def new_server_def isalive_def)
  next
    case (Some hs')
    with r ne m(1,2) f show ?thesis
      by (auto simp: handle_fserver_state_def Let_def isalive_def matches_def)
  qed
qed

definition initial_balancer :: "nat \<Rightarrow> balancer" where
  "initial_balancer k = \<lparr>frontend_servers = [], ctr = k, recv_buf = replicate 257 CHR 0x00\<rparr>"

text \<open>
  C18: whatever datagrams and browsers a balancer has served since its start, it lists every
  frontend once, and every redirect it gives names a frontend of the list that is alive.
\<close>
theorem redirects_to_live_frontend:
  assumes "lb_run secret es (initial_balancer k) = Inr b"
    and "get_roundrobin_redirect now (frontend_servers b) j \<noteq> []"
  shows "distinct (map port_of (frontend_servers b)) \<and>
    (\<exists>h \<in> set (frontend_servers b). isalive now h \<and>
       get_roundrobin_redirect now (frontend_servers b) j = ''http://localhost:'' @ to_string (port_of h) @ ''/'')"
proof -
  have ok: "servers_ok (frontend_servers b)"
    by (rule lb_run_ok [OF assms(1)]) (simp add: initial_balancer_def servers_ok_def)
  from redirect_cases [OF assms(2)] obtain h where
    h: "h \<in> set (frontend_servers b)" "isalive now h" "get_roundrobin_redirect now (frontend_servers b) j = server_url h"
    by blast
  have "server_url h = ''http://localhost:'' @ to_string (port_of h) @ ''/''"
    using ok h(1) by (simp add: servers_ok_def server_url_def contains_def str_find_def)
  with ok h show ?thesis unfolding servers_ok_def by auto
qed

text \<open>What a browser is answered that is sent to a frontend.\<close>

definition moved_to :: "http_server \<Rightarrow> string" where
  "moved_to h = ''HTTP/1.1 301 Moved Permanently'' @ crlf @ ''Location: '' @ server_url h @ crlf @ crlf"

definition asks_page :: "lb_event \<Rightarrow> bool" where
  "asks_page e = (case e of
     Datagram _ _ \<Rightarrow> False
   | Browser chunks \<Rightarrow> \<not> starts_with (fst (do_read crlf chunks)) ''GET passwd null null'')"

lemma next_in_turn:
  assumes "hs \<noteq> []" and "\<forall>h \<in> set hs. isalive now h" and "k < 2 ^ 64"
  shows "get_roundrobin_redirect now hs k = server_url (hs ! (k mod length hs))"
proof -
  have "in_turn k hs = hs ! (k mod length hs) # tl (in_turn k hs)"
    using assms(1,3) by (cases hs) (simp_all add: in_turn_def upt_conv_Cons del: upt_Suc)
  moreover have "isalive now (hs ! (k mod length hs))" using assms(1,2) by simp
  ultimately show ?thesis unfolding get_roundrobin_redirect_def by (metis filter.simps(2) list.simps(5))
qed

lemma lb_answers_in_turn:
  assumes "hs \<noteq> []" and "ctr b + length es < 2 ^ 64" and "frontend_servers b = hs"
    and "\<forall>(now, e) \<in> set es. asks_page e \<and> (\<forall>h \<in> set hs. isalive now h)"
  shows "lb_answers secret es b =
    Inr (map (\<lambda>i. Some (moved_to (hs ! ((ctr b + i) mod length hs)))) [0..<length es], b\<lparr>ctr := ctr b + length es\<rparr>)"
  using assms(2-4)
proof (induction es arbitrary: b)
  case (Cons x es)
  obtain now e where x: "x = (now, e)" by (cases x)
  from Cons.prems(3) x obtain chunks where e: "e = Browser chunks"
      "\<not> starts_with (fst (do_read crlf chunks)) ''GET passwd null null''" and alive: "\<forall>h \<in> set hs. isalive now h"
    by (auto simp: asks_page_def split: lb_event.splits)
  have url: "server_url h \<noteq> []" for h by (simp add: server_url_def)
  have step: "lb_step secret now e b = Inr (Some (moved_to (hs ! (ctr b mod length hs))), b\<lparr>ctr := ctr b + 1\<rparr>)"
    using Cons.prems(1,2) e next_in_turn [OF assms(1) alive, of "ctr b"]
    by (simp add: lb_step_def moved_to_def url Let_def)
  have rest: "lb_answers secret es (b\<lparr>ctr := ctr b + 1\<rparr>) =
      Inr (map (\<lambda>i. Some (moved_to (hs ! ((ctr b + 1 + i) mod length hs)))) [0..<length es], b\<lparr>ctr := ctr b + 1 + length es\<rparr>)"
    using Cons.IH [of "b\<lparr>ctr := ctr b + 1\<rparr>"] Cons.prems by simp
  have upt: "[0..<length (x # es)] = 0 # map Suc [0..<length es]" by (simp add: upt_conv_Cons map_Suc_upt del: upt_Suc)
  show ?case unfolding upt by (simp add: x step rest [simplified] comp_def)
qed simp

lemma rotated_nth:
  assumes "n = length xs"
  shows "map (\<lambda>i. xs ! ((k + i) mod length xs)) [0..<n] = rotate k xs"
  using assms by (intro nth_equalityI) (simp_all add: nth_rotate)

text \<open>
  C25: while all frontends are alive, as many browsers in a row as there are frontends are sent
  each to a frontend of its own, in the order of the list from where the counter stands, and the
  counter has moved on by their number; so long as the counter, which starts with any value, does
  not pass 18446744073709551615 on the way.
\<close>

theorem round_robin_fair:
  assumes "hs = frontend_servers b" and "hs \<noteq> []" and "length es = length hs" and "ctr b + length hs < 2 ^ 64"
    and "\<forall>(now, e) \<in> set es. asks_page e \<and> (\<forall>h \<in> set hs. isalive now h)"
  shows "lb_answers secret es b =
    Inr (map (\<lambda>h. Some (moved_to h)) (rotate (ctr b) hs), b\<lparr>ctr := ctr b + length hs\<rparr>)"
proof -
  have "map (\<lambda>i. Some (moved_to (hs ! ((ctr b + i) mod length hs)))) [0..<length es] =
      map (\<lambda>h. Some (moved_to h)) (map (\<lambda>i. hs ! ((ctr b + i) mod length hs)) [0..<length hs])"
    by (simp add: assms(3))
  also have "\<dots> = map (\<lambda>h. Some (moved_to h)) (rotate (ctr b) hs)" by (simp only: rotated_nth)
  finally show ?thesis using lb_answers_in_turn [OF assms(2) _ _ assms(5)] assms(1,3,4) by simp
qed

section \<open>Witnesses\<close>

definition web_a :: sockaddr where "web_a = \<lparr>sin_addr = INADDR_ANY, sin_port = 8000\<rparr>"
definition web_b :: sockaddr where "web_b = \<lparr>sin_addr = INADDR_ANY, sin_port = 8001\<rparr>"
definition lan :: sockaddr where "lan = \<lparr>sin_addr = ''10.0.0.7'', sin_port = 4711\<rparr>"

lemma first_heartbeat:
  assumes "sin_addr server = INADDR_ANY" and "0 < sin_port server" and "sin_port server < 2 ^ 16"
  shows "handle_fserver_state now secret (send_heartbeats secret server) sender [] =
    Inr [\<lparr>ipaddr = ''127.0.0.1'', port_of = sin_port server, last_heartbeat = now, num_connections = 0\<rparr>]"
proof -
  have "send_heartbeats secret server \<noteq> []" "send_heartbeats secret server \<noteq> [CHR 0x0A]"
    by (simp_all add: send_heartbeats_def)
  with heartbeat_message [OF assms, of secret] assms(1) show ?thesis
    by (simp add: handle_fserver_state_def Let_def new_server_def)
qed

lemma web_a_bytes: "c_string (received (send_heartbeats ''k'' web_a @ [CHR 0x00]) old) = send_heartbeats ''k'' web_a"
  by (simp add: web_a_def send_heartbeats_def INADDR_ANY_def received_def c_string_def to_string_def nat_digits.simps)

theorem redirects_to_live_frontend_witness:
  "\<exists>b. lb_run ''k'' [(0, Datagram (send_heartbeats ''k'' web_a @ [CHR 0x00]) lan)]
       (initial_balancer 0) = Inr b \<and>
     (\<exists>h \<in> set (frontend_servers b). isalive 9 h \<and>
       get_roundrobin_redirect 9 (frontend_servers b) 1 = ''http://localhost:'' @ to_string (port_of h) @ ''/'')"
proof -
  let ?h = "\<lparr>ipaddr = ''127.0.0.1'', port_of = sin_port web_a, last_heartbeat = 0, num_connections = 0\<rparr>"
  have "handle_fserver_state 0 ''k'' (send_heartbeats ''k'' web_a) lan [] = Inr [?h]"
    by (rule first_heartbeat) (simp_all add: web_a_def)
  then obtain b where b: "lb_run ''k'' [(0, Datagram (send_heartbeats ''k'' web_a @ [CHR 0x00]) lan)] (initial_balancer 0) = Inr b" "frontend_servers b = [?h]"
    by (simp add: lb_run_def lb_step_def Let_def initial_balancer_def web_a_bytes)
  have "get_roundrobin_redirect 9 [?h] 1 \<noteq> []"
    by (simp add: get_roundrobin_redirect_def in_turn_def isalive_def server_url_def)
  with redirects_to_live_frontend [OF b(1), of 9 1] b show ?thesis by auto
qed

definition two_frontends :: "http_server list" where
  "two_frontends = [\<lparr>ipaddr = ''127.0.0.1'', port_of = 8000, last_heartbeat = 0, num_connections = 0\<rparr>,
     \<lparr>ipaddr = ''127.0.0.1'', port_of = 8001, last_heartbeat = 1, num_connections = 0\<rparr>]"

definition page_request :: lb_event where
  "page_request = Browser [''GET / HTTP/1.1'' @ crlf]"

definition two_browsers :: "(int \<times> lb_event) list" where
  "two_browsers = [(3, page_request), (4, page_request)]"

theorem round_robin_fair_witness:
  "lb_answers ''k'' two_browsers ((initial_balancer 7)\<lparr>frontend_servers := two_frontends\<rparr>) =
    Inr (map (\<lambda>h. Some (moved_to h)) (rotate 7 two_frontends),
         (initial_balancer 7)\<lparr>frontend_servers := two_frontends, ctr := 9\<rparr>)"
proof -
  have page: "asks_page page_request" by code_simp
  have "lb_answers ''k'' two_browsers ((initial_balancer 7)\<lparr>frontend_servers := two_frontends\<rparr>) =
    Inr (map (\<lambda>h. Some (moved_to h)) (rotate (ctr ((initial_balancer 7)\<lparr>frontend_servers := two_frontends\<rparr>)) two_frontends),
         (initial_balancer 7)\<lparr>frontend_servers := two_frontends,
           ctr := ctr ((initial_balancer 7)\<lparr>frontend_servers := two_frontends\<rparr>) + length two_frontends\<rparr>)"
    by (subst round_robin_fair [where hs = two_frontends])
      (simp_all add: two_browsers_def two_frontends_def isalive_def page initial_balancer_def)
  then show ?thesis by (simp add: initial_balancer_def two_frontends_def)
qed

end
