(* ===== verification/Cluster.thy ===== *)
theory Cluster
  imports Startup Balancer
begin

text \<open>
  The processes of the whole system as they start from the same configuration files: storage
  servers, coordinator and frontends (\<open>load_config\<close> of \<open>frontend/src/ioutils.cc\<close>), each with its own
  parser. They agree on all addresses, the server that is elected recognises its own address,
  and the others join it.
\<close>

section \<open>What a frontend reads\<close>

text \<open>
  An address that \<open>inet_pton\<close> does not accept leaves 0, the text of which is \<open>0.0.0.0\<close>; \<open>htons\<close>
  keeps the last 16 bits of the port. The second line is the secret of the heartbeats.
\<close>

definition read_sockaddr :: "string \<Rightarrow> sockaddr" where
  "read_sockaddr tmp =
     (let colon = str_find tmp '':''; ip = substr_to tmp colon
      in \<lparr>sin_addr = (if inet_pton_ok ip then ip else INADDR_ANY),
          sin_port = atoi (substr_after tmp colon) mod 2 ^ 16\<rparr>)"

definition load_config :: "bool \<Rightarrow> string option \<Rightarrow> exn + (sockaddr \<times> string)" where
  "load_config with_secret f =
     ebind (open_file f) (\<lambda>s.
       case split s newline of
         [] \<Rightarrow> Inl Process_exit
       | l # ls \<Rightarrow>
           if \<not> with_secret then Inr (read_sockaddr l, [])
           else (case ls of [] \<Rightarrow> Inl Process_exit | secret # _ \<Rightarrow> Inr (read_sockaddr l, secret)))"

section \<open>Lemmas\<close>

lemma strtol_digits_prefix:
  assumes "\<not> isdigit c"
  shows "strtol (nat_digits n @ c # s) = Some (int n)"
proof -
  obtain d ds where ds: "nat_digits n = d # ds" by (cases "nat_digits n") auto
  have dig: "\<And>x. x \<in> set (nat_digits n) \<Longrightarrow> isdigit x" by (rule nat_digits_digits)
  then have d: "isdigit d" and tw: "takeWhile isdigit (ds @ c # s) = ds"
    using assms by (auto simp: ds takeWhile_append)
  then show ?thesis
    using digits_val_nat_digits [of n]
    by (simp add: strtol_def ds tw isdigit_not_isspace isdigit_neq)
qed

lemma atoi_to_string_prefix:
  assumes "0 \<le> n" and "n < 2 ^ 31" and "\<not> isdigit c"
  shows "atoi (to_string n @ c # s) = n"
proof -
  have "strtol (to_string n @ c # s) = strtol (to_string n)"
    using assms strtol_digits_prefix [OF assms(3), of "nat n" s] strtol_to_string [of n] by (simp add: to_string_def)
  then have "atoi (to_string n @ c # s) = atoi (to_string n)" by (simp add: atoi_def)
  then show ?thesis using atoi_to_string [of n] assms by simp
qed

lemma inet_pton_no:
  assumes "inet_pton_ok ip" and "\<not> isdigit c" and "c \<noteq> CHR ''.''"
  shows "c \<notin> set ip"
  using assms by (auto simp: inet_pton_ok_def list_all_iff)

definition coordinator_line :: "string \<Rightarrow> int \<Rightarrow> int \<Rightarrow> int \<Rightarrow> string" where
  "coordinator_line ip fp hb cm = ip @ '':'' @ to_string fp @ '':'' @ to_string hb @ '':'' @ to_string cm"

definition port_ok :: "int \<Rightarrow> bool" where
  "port_ok p = (0 \<le> p \<and> p < 2 ^ 16)"

lemma coordinator_line_split:
  assumes "inet_pton_ok ip"
  shows "split (coordinator_line ip fp hb cm) CHR '':'' = [ip, to_string fp, to_string hb, to_string cm]"
    and "split (coordinator_line ip fp hb cm) newline = [coordinator_line ip fp hb cm]"
    and "split (coordinator_line ip fp hb cm @ [newline]) newline = [coordinator_line ip fp hb cm]"
proof -
  have ip: "CHR '':'' \<notin> set ip" "newline \<notin> set ip"
    using inet_pton_no [OF assms] by (simp_all add: isdigit_def)
  then show "split (coordinator_line ip fp hb cm) CHR '':'' = [ip, to_string fp, to_string hb, to_string cm]"
    by (simp add: coordinator_line_def split_no_delim)
  have n: "newline \<notin> set (coordinator_line ip fp hb cm)"
    using ip by (simp add: coordinator_line_def)
  then show "split (coordinator_line ip fp hb cm) newline = [coordinator_line ip fp hb cm]"
    "split (coordinator_line ip fp hb cm @ [newline]) newline = [coordinator_line ip fp hb cm]"
    by (simp_all add: split_no_delim) (simp add: coordinator_line_def)
qed

text \<open>
  from one line \<open>IP:frontends:heartbeats:messages\<close> the three programs get the same addresses:
  the ports the coordinator listens on are those the storage servers and the frontends connect to.
\<close>

theorem addresses_agree:
  assumes "inet_pton_ok ip" and "port_ok fp" and "port_ok hb" and "port_ok cm"
    and "file = coordinator_line ip fp hb cm @ line_end" and "line_end = [] \<or> line_end = [newline]"
  shows "coordinator_ports file =
      Inr \<lparr>server_ip = ip, frontend_port = fp, storage_heartbeat_port = hb, storage_comm_port = cm\<rparr>
    \<and> load_config False (Some file) = Inr (\<lparr>sin_addr = ip, sin_port = fp\<rparr>, [])
    \<and> (\<exists>cfg. coord_addresses (Some file) no_config = Inr cfg
         \<and> IP_port (heartbeat_addr cfg) = (ip, hb) \<and> IP_port (comm_addr cfg) = (ip, cm))"
proof -
  note split = coordinator_line_split [OF assms(1), of fp hb cm]
  have lines: "split file newline = [coordinator_line ip fp hb cm]"
    using assms(5,6) split(2,3) by auto
  have stoi: "stoi (to_string x) = Inr x" "atoi (to_string x) = x" if "port_ok x" for x
    using that by (auto simp: port_ok_def intro: stoi_to_string atoi_to_string)
  have 1: "coordinator_ports file =
      Inr \<lparr>server_ip = ip, frontend_port = fp, storage_heartbeat_port = hb, storage_comm_port = cm\<rparr>"
    by (simp add: coordinator_ports_def first_line_def lines split(1) at_def stoi(1) assms(2-4))
  have "CHR '':'' \<notin> set ip" using inet_pton_no [OF assms(1)] by (simp add: isdigit_def)
  moreover have "atoi (to_string fp @ CHR '':'' # rest) = fp" for rest
    using assms(2) by (intro atoi_to_string_prefix) (simp_all add: port_ok_def isdigit_def)
  moreover have "fp mod 65536 = fp" using assms(2) by (simp add: port_ok_def)
  ultimately have "read_sockaddr (coordinator_line ip fp hb cm) = \<lparr>sin_addr = ip, sin_port = fp\<rparr>"
    using assms(1) by (simp add: read_sockaddr_def coordinator_line_def substr_after_def)
  then have 2: "load_config False (Some file) = Inr (\<lparr>sin_addr = ip, sin_port = fp\<rparr>, [])"
    by (simp add: load_config_def open_file_def lines)
  have "coord_addresses (Some file) no_config =
      Inr (no_config\<lparr>heartbeat_addr := ip @ '':'' @ to_string hb, comm_addr := ip @ '':'' @ to_string cm\<rparr>)"
    by (simp add: coord_addresses_def open_file_def lines coord_line_def split(1) vec_nth_def)
  moreover have "IP_port (ip @ '':'' @ to_string x) = (ip, x)" if "port_ok x" for x
    by (simp add: IP_port_def substr_after_def stoi(2) [OF that])
  ultimately show ?thesis using 1 2 assms(3,4) by simp
qed

theorem addresses_agree_witness:
  "coordinator_line ''127.0.0.1'' 5001 5002 5003 = ''127.0.0.1:5001:5002:5003''
    \<and> load_config False (Some ''127.0.0.1:5001:5002:5003'') = Inr (\<lparr>sin_addr = ''127.0.0.1'', sin_port = 5001\<rparr>, [])"
proof -
  have line: "coordinator_line ''127.0.0.1'' 5001 5002 5003 = ''127.0.0.1:5001:5002:5003''"
    by (simp add: coordinator_line_def to_string_def nat_digits.simps)
  have ip: "inet_pton_ok ''127.0.0.1''" by code_simp
  have ports: "port_ok 5001" "port_ok 5002" "port_ok 5003" by (simp_all add: port_ok_def)
  from addresses_agree [OF ip ports refl disjI1 [OF refl]]
  have "load_config False (Some (coordinator_line ''127.0.0.1'' 5001 5002 5003 @ [])) =
      Inr (\<lparr>sin_addr = ''127.0.0.1'', sin_port = 5001\<rparr>, [])" by (elim conjE)
  then show ?thesis unfolding line append_Nil2 by (intro conjI refl)
qed

section \<open>The election\<close>

definition primary_text :: "server_config \<Rightarrow> nat \<Rightarrow> string" where
  "primary_text s k = ''+OK PRIMARY '' @ listen_of s @ '' '' @ to_string (int k)"

lemma primary_message_text:
  assumes "config_ok s"
  shows "primary_message (full_id s) k = Inr (primary_text s k @ crlf)"
  using assms by (simp add: primary_message_def split_full_id at_def primary_text_def listen_of_def address_def)

lemma primary_text_chars:
  assumes "inet_pton_ok (sc_ip s)"
  shows "CHR 0x0D \<notin> set (primary_text s k)" and "\<not> contains (primary_text s k) ''STOP''"
    and "substr (primary_text s k) 4 7 = Inr ''PRIMARY''"
    and "split (primary_text s k) CHR '' '' = [''+OK'', ''PRIMARY'', listen_of s, to_string (int k)]"
    and "primary_text s k \<noteq> []" and "\<not> isspace (last (primary_text s k))"
proof -
  have S: "CHR ''S'' \<notin> set (to_string x)" for x by (auto dest!: to_string_chars simp: isdigit_def)
  note no = inet_pton_no [OF assms]
  show "CHR 0x0D \<notin> set (primary_text s k)"
    using no by (simp add: primary_text_def listen_of_def address_def isdigit_def)
  have "CHR ''S'' \<notin> set (primary_text s k)"
    using no by (simp add: primary_text_def listen_of_def address_def isdigit_def S)
  then show "\<not> contains (primary_text s k) ''STOP''" by (rule not_contains_char [rotated]) simp
  show "substr (primary_text s k) 4 7 = Inr ''PRIMARY''"
    by (simp add: substr_def primary_text_def)
  have "CHR '' '' \<notin> set (listen_of s)"
    using no by (simp add: listen_of_def address_def isdigit_def)
  then have "split (listen_of s @ CHR '' '' # to_string (int k)) CHR '' '' = [listen_of s, to_string (int k)]"
    by (simp add: split_no_delim)
  moreover have "split (primary_text s k) CHR '' '' =
      ''+OK'' # ''PRIMARY'' # split (listen_of s @ CHR '' '' # to_string (int k)) CHR '' ''"
    using split_append_delim [of "CHR '' ''" "''+OK''" "''PRIMARY '' @ listen_of s @ '' '' @ to_string (int k)"]
      split_append_delim [of "CHR '' ''" "''PRIMARY''" "listen_of s @ '' '' @ to_string (int k)"]
    by (simp add: primary_text_def)
  ultimately show "split (primary_text s k) CHR '' '' = [''+OK'', ''PRIMARY'', listen_of s, to_string (int k)]"
    by simp
  have "last (to_string (int k)) \<in> set (to_string (int k))" by simp
  from to_string_chars [OF this] have "\<not> isspace (last (to_string (int k)))"
    by (rule disjE) (erule isdigit_not_isspace, simp add: isspace_def)
  then show "primary_text s k \<noteq> []" "\<not> isspace (last (primary_text s k))"
    by (simp_all add: primary_text_def)
qed

text \<open>What a server that was started from the file does when the coordinator announces \<open>ss ! e\<close>.\<close>

lemma announced:
  assumes "\<forall>s \<in> set ss. config_ok s \<and> inet_pton_ok (sc_ip s)" and "distinct (map listen_of ss)"
    and "i < length ss" and "e < length ss" and "int k < 2 ^ 31"
    and "start_server f (Some (storage_file ss)) (int i + 1) n = Inr (m, cfg)"
    and "primary_message (full_id (ss ! e)) k = Inr msg" and "coord_conn c"
  defines "m1 \<equiv> m\<lparr>primary_addr := listen_of (ss ! e), replica_count := int k - 1\<rparr>"
  shows "serve H fd c msg m = Inr ([],
     if i = e
     then m1\<lparr>is_primary := True, primary_recovering := True,
             primary_fd := (if primary_fd m1 > 0 then -1 else primary_fd m1),
             tpc_pending := [], tpc_pos := length (tpc_file m1),
             threads := threads m1 @ [Tpc_check_thread, Primary_recovery_thread (connfd c)]\<rparr>
     else m1\<lparr>is_primary := False, primary_fd := fd, threads := threads m @ [Start_thread fd False]\<rparr>)"
proof -
  let ?t = "primary_text (ss ! e) k"
  have ok: "\<forall>s \<in> set ss. config_ok s" "inet_pton_ok (sc_ip (ss ! e))" "config_ok (ss ! e)"
    using assms(1,4) by simp_all
  note start = start_server_result [OF ok(1) assms(3,6)]
  note chars = primary_text_chars [OF ok(2), of k]
  have msg: "msg = ?t @ crlf" using assms(7) primary_message_text [OF ok(3), of k] by simp
  have count: "stoi (to_string (int k)) = Inr (int k)" using assms(5) by (intro stoi_to_string) simp_all
  have m: "listen_address m = listen_of (ss ! i)" "\<not> is_primary m" "primary_queue m = []"
    using start(1) by (simp_all add: role_def)
  have run: "serve H fd c msg m = ebind (new_primary fd c ?t m) (\<lambda>m'. Inr ([], m'))"
    using assms(8) chars unfolding msg serve_line [OF chars(1,5,6)] by (simp add: dispatch_def)
  have names: "listen_of (ss ! e) = listen_of (ss ! i) \<longleftrightarrow> i = e"
    using assms(2-4) nth_eq_iff_index_eq [of "map listen_of ss" e i] by auto
  show ?thesis
  proof (cases "i = e")
    case True
    have "tpc_pos m1 = length (tpc_file m1)" using start(2) by (simp add: m1_def)
    note elected = become_primary_at_end [OF this, of c]
    have "new_primary fd c ?t m = become_primary c m1"
      using True m by (simp add: new_primary_def chars(4) count Let_def m1_def)
    then show ?thesis using True m run elected by (simp add: m1_def)
  next
    case False
    then show ?thesis using m run names by (simp add: new_primary_def chars(4) count Let_def m1_def)
  qed
qed

text \<open>
  C20: the servers and the coordinator read the storage file with different code, and still agree
  on who is elected: of the servers that are started from the file, the one the coordinator
  announces, and no other, takes the announcement for its own election; the others open a
  connection to it.
\<close>

theorem elected_server_serves:
  assumes "\<forall>s \<in> set ss. config_ok s \<and> inet_pton_ok (sc_ip s)" and "distinct (map listen_of ss)"
    and "i < length ss" and "e < length ss" and "int k < 2 ^ 31"
    and "start_server f (Some (storage_file ss)) (int i + 1) n = Inr (m, cfg)"
    and "primary_message (full_id (ss ! e)) k = Inr msg" and "coord_conn c"
  shows "\<exists>m'. serve H fd c msg m = Inr ([], m')
    \<and> primary_addr m' = listen_of (ss ! e) \<and> replica_count m' = int k - 1
    \<and> (is_primary m' \<longleftrightarrow> i = e)
    \<and> (i \<noteq> e \<longrightarrow> primary_fd m' = fd \<and> Start_thread fd False \<in> set (threads m'))"
  using announced [OF assms, of H fd] by simp

text \<open>
  C21: a server connects to its primary from its own address and replication port, and the
  primary, which knows that address from its own copy of the file, takes the connection for a
  replica exactly when the server is of its partition.
\<close>

theorem replicas_join_primary:
  assumes "\<forall>s \<in> set ss. config_ok s \<and> inet_pton_ok (sc_ip s)" and "distinct (map listen_of ss)"
    and "e < length ss" and "j < length ss" and "e \<noteq> j" and "int k < 2 ^ 31" and "coord_conn c"
    and "distinct (map peer_of ss)" and "sc_last (ss ! j) = to_string port" and "fits_int port"
    and "start_server f (Some (storage_file ss)) (int e + 1) n = Inr (m, cfg)"
    and "start_server f (Some (storage_file ss)) (int j + 1) n' = Inr (r, cfg')"
    and "primary_message (full_id (ss ! e)) k = Inr msg" and "serve H fd c msg m = Inr ([], p)"
  shows "\<exists>b p'. accept_connection (accept_config p cfg) fd' (IP r @ '':'' @ to_string (primary_port r)) p =
       (\<lparr>connfd = fd', coord_conn = False, backend_conn = b, conn_address = peer_of (ss ! j)\<rparr>, p')
    \<and> (if sc_partition (ss ! j) = sc_partition (ss ! e)
       then b \<and> partition_fds p' = [fd'] \<and> alive_replicas p' = [peer_of (ss ! j)]
       else partition_fds p' = [] \<and> alive_replicas p' = [])"
proof -
  have ok: "\<forall>s \<in> set ss. config_ok s" using assms(1) by simp
  note e = start_server_result [OF ok assms(3,11)] and j = start_server_result [OF ok assms(4,12)]
  have "IP r = sc_ip (ss ! j)" "primary_port r = port"
    using j(1) assms(9) atoi_to_string [of port] assms(10) by (simp_all add: role_def fits_int_def)
  then have addr: "IP r @ '':'' @ to_string (primary_port r) = peer_of (ss ! j)"
    by (simp add: peer_of_def assms(9))
  have p: "is_primary p" "partition_fds p = []" "alive_replicas p = []" "server_partition p = server_partition m"
    using announced [OF assms(1,2,3,3,6,11,13,7), of H fd] assms(14) e by (auto simp: role_def)
  have "accept_config p cfg = accept_config m cfg" by (simp add: accept_config_def p(4))
  then have part: "part_addresses (accept_config p cfg) =
      map peer_of (filter (\<lambda>s. sc_partition s = sc_partition (ss ! e)) (others (int e + 1) 1 ss))"
    using e(5) by simp
  have unique: "a < length ss \<Longrightarrow> peer_of (ss ! a) = peer_of (ss ! j) \<longleftrightarrow> a = j" for a
    using assms(4,8) nth_eq_iff_index_eq [of "map peer_of ss" a j] by auto
  have "peer_of (ss ! j) \<in> set (part_addresses (accept_config p cfg)) \<longleftrightarrow>
      (\<exists>a < length ss. a \<noteq> e \<and> sc_partition (ss ! a) = sc_partition (ss ! e) \<and> peer_of (ss ! a) = peer_of (ss ! j))"
    unfolding part using set_others [of e ss] by (auto simp: image_iff)
  also have "\<dots> \<longleftrightarrow> sc_partition (ss ! j) = sc_partition (ss ! e)"
    using unique assms(4,5) by blast
  finally show ?thesis
    unfolding addr using p by (simp add: accept_connection_def Let_def)
qed

section \<open>A small cluster\<close>

definition sample_cluster :: "server_config list" where
  "sample_cluster =
     [\<lparr>sc_partition = 1, sc_ip = ''127.0.0.1'', sc_heartbeat = 8001, sc_comm = 8002, sc_listen = 8003, sc_last = to_string 8004\<rparr>,
      \<lparr>sc_partition = 1, sc_ip = ''127.0.0.1'', sc_heartbeat = 9001, sc_comm = 9002, sc_listen = 9003, sc_last = to_string 9004\<rparr>]"

definition coordinator_link :: conn where
  "coordinator_link = \<lparr>connfd = 4, coord_conn = True, backend_conn = True, conn_address = []\<rparr>"

definition sample_coordinator_file :: string where
  "sample_coordinator_file = coordinator_line ''127.0.0.1'' 5001 5002 5003"

lemma local_ip: "inet_pton_ok ''127.0.0.1''"
  by code_simp

lemma boot_fresh:
  assumes "log_file n = (\<lambda>_. None)" and "table_file n = (\<lambda>_. None)" and "meminfo n = []" and "tpc_file n = []"
  shows "\<exists>m. boot n = Inr m"
  using assms
  by (simp add: boot_def create_files_def load_tablets_startup_def total_avail_memory_def file_sizes_def size_diff_def
      write_log_file_def write_table_file_def process_tpc_log_def upt_rec)

lemma sample_cluster_ok:
  "\<forall>s \<in> set sample_cluster. config_ok s \<and> inet_pton_ok (sc_ip s)"
  "distinct (map listen_of sample_cluster)" "distinct (map peer_of sample_cluster)" "length sample_cluster = 2"
  by (simp_all add: sample_cluster_def config_ok_def fits_int_def local_ip listen_of_def address_def peer_of_def)

lemma sample_start:
  assumes "i < 2"
  shows "\<exists>m cfg. start_server (Some sample_coordinator_file) (Some (storage_file sample_cluster)) (int i + 1) initial_node = Inr (m, cfg)"
proof -
  have ok: "\<forall>s \<in> set sample_cluster. config_ok s" using sample_cluster_ok(1) by simp
  have "port_ok 5001" "port_ok 5002" "port_ok 5003" by (simp_all add: port_ok_def)
  from addresses_agree [OF local_ip this refl disjI1 [OF refl]]
  obtain cfg0 where 0: "coord_addresses (Some sample_coordinator_file) no_config = Inr cfg0"
    by (auto simp: sample_coordinator_file_def)
  from efold_populate [OF ok, of "int i + 1" 1 initial_node cfg0] obtain cfg n where
    1: "populate_addresses (Some (storage_file sample_cluster)) (int i + 1) (initial_node, cfg0) = Inr (n, cfg)"
      "n = own_node (sample_cluster ! i) initial_node"
    using assms sample_cluster_ok(4)
    by (auto simp: populate_addresses_def open_file_def split_storage_file [OF ok] nat_add_distrib)
  obtain m where "boot n = Inr m"
    using boot_fresh [of n] by (auto simp: 1(2) own_node_def initial_node_def)
  then show ?thesis using 0 1(1) by (simp add: start_server_def)
qed

theorem elected_server_serves_witness:
  "\<exists>m cfg m'. start_server (Some sample_coordinator_file) (Some (storage_file sample_cluster)) (int 0 + 1) initial_node = Inr (m, cfg)
    \<and> serve (\<lambda>_. 0) 9 coordinator_link (primary_text (sample_cluster ! 0) 2 @ crlf) m = Inr ([], m') \<and> is_primary m'"
proof -
  obtain m cfg where m: "start_server (Some sample_coordinator_file) (Some (storage_file sample_cluster)) (int 0 + 1) initial_node = Inr (m, cfg)"
    using sample_start [of 0] by auto
  have c: "coord_conn coordinator_link" by (simp add: coordinator_link_def)
  have msg: "primary_message (full_id (sample_cluster ! 0)) 2 = Inr (primary_text (sample_cluster ! 0) 2 @ crlf)"
    using sample_cluster_ok by (intro primary_message_text) simp
  have len: "0 < length sample_cluster" using sample_cluster_ok(4) by simp
  from elected_server_serves [OF sample_cluster_ok(1,2) len len _ m msg c, of "\<lambda>_. 0" 9] m show ?thesis by auto
qed

theorem replicas_join_primary_witness:
  "\<exists>p cfg (r :: node) p' b. accept_connection (accept_config p cfg) 12 (IP r @ '':'' @ to_string (primary_port r)) p =
     (\<lparr>connfd = 12, coord_conn = False, backend_conn = b, conn_address = ''127.0.0.1:'' @ to_string 9004\<rparr>, p')
     \<and> partition_fds p' = [12]"
proof -
  obtain m cfg where m: "start_server (Some sample_coordinator_file) (Some (storage_file sample_cluster)) (int 0 + 1) initial_node = Inr (m, cfg)"
    using sample_start [of 0] by auto
  obtain r cfg' where r: "start_server (Some sample_coordinator_file) (Some (storage_file sample_cluster)) (int 1 + 1) initial_node = Inr (r, cfg')"
    using sample_start [of 1] by auto
  have c: "coord_conn coordinator_link" by (simp add: coordinator_link_def)
  have msg: "primary_message (full_id (sample_cluster ! 0)) 2 = Inr (primary_text (sample_cluster ! 0) 2 @ crlf)"
    using sample_cluster_ok by (intro primary_message_text) simp
  have len: "0 < length sample_cluster" "1 < length sample_cluster" using sample_cluster_ok(4) by simp_all
  have k: "int 2 < 2 ^ 31" by simp
  obtain p where p: "serve (\<lambda>_. 0) 9 coordinator_link (primary_text (sample_cluster ! 0) 2 @ crlf) m = Inr ([], p)"
    using announced [OF sample_cluster_ok(1,2) len(1,1) k m msg c] by blast
  have last: "sc_last (sample_cluster ! 1) = to_string 9004" "fits_int 9004"
    by (simp_all add: sample_cluster_def fits_int_def)
  have facts: "sc_partition (sample_cluster ! 1) = sc_partition (sample_cluster ! 0)"
      "peer_of (sample_cluster ! 1) = ''127.0.0.1:'' @ to_string 9004"
    by (simp_all add: sample_cluster_def peer_of_def)
  from replicas_join_primary [OF sample_cluster_ok(1,2) len(1,2) zero_neq_one k c sample_cluster_ok(3) last m r msg p, of 12]
  obtain b p' where "accept_connection (accept_config p cfg) 12 (IP r @ '':'' @ to_string (primary_port r)) p =
      (\<lparr>connfd = 12, coord_conn = False, backend_conn = b, conn_address = ''127.0.0.1:'' @ to_string 9004\<rparr>, p')"
      "partition_fds p' = [12]"
    unfolding facts if_P [OF refl] by (elim exE conjE)
  then show ?thesis by (intro exI conjI)
qed

end
