(* ===== verification/Server_Threads.thy ===== *)
theory Server_Threads
  imports Server "HOL-Library.Multiset"
begin

text \<open>
  The threads of a storage server and the pool of connection ids they take a place in
  (\<open>create_log_thread\<close>, \<open>create_recovery_thread\<close>, \<open>create_thread\<close> and the begin and end of the thread
  functions in \<open>backend/src/threads.cpp\<close>; the accept loop and \<open>shut_down_func\<close> of
  \<open>backend/table.cpp\<close>), and the life of one connection: the loop of \<open>start_func\<close> over what \<open>poll\<close>
  reports. Each critical section is one step.
\<close>

section \<open>The pool\<close>

text \<open>
  \<open>thread_ids\<close> is the vector \<open>threads\<close> of \<open>pthread_t\<close>, 0 the value its elements start with. A worker
  is the argument structure a thread is started with; \<open>thread_arg\<close> is the id copied from the vector.
\<close>

record pool =
  avail_connections :: "nat list"
  thread_ids :: "nat list"
  active_threads :: "nat list"
  active_fds :: "int list"

definition max_clients :: nat where
  "max_clients = 100"

definition initial_pool :: pool where
  "initial_pool = \<lparr>avail_connections = [0..<max_clients], thread_ids = replicate max_clients 0,
     active_threads = [], active_fds = []\<rparr>"

datatype task = Log_task nat | Recovery_task string nat | Heartbeat_task int | Connection_task conn

record worker =
  conn_id :: nat
  thread_arg :: nat
  work :: task

text \<open>\<open>front\<close> and \<open>pop\<close> of an empty queue are undefined.\<close>

definition take_id :: "pool \<Rightarrow> exn + (nat \<times> pool)" where
  "take_id p =
     (case avail_connections p of
        [] \<Rightarrow> Inl Undefined_behaviour
      | i # is \<Rightarrow> Inr (i, p\<lparr>avail_connections := is\<rparr>))"

definition give_id :: "nat \<Rightarrow> pool \<Rightarrow> pool" where
  "give_id i p = p\<lparr>avail_connections := avail_connections p @ [i]\<rparr>"

text \<open>
  \<open>tid\<close> is the id \<open>pthread_create\<close> stores, \<open>None\<close> its failure. The argument is made before, with the
  id of the thread that had the place last.
\<close>

definition create_worker :: "nat option \<Rightarrow> task \<Rightarrow> pool \<Rightarrow> exn + (worker option \<times> pool)" where
  "create_worker tid w p =
     ebind (take_id p) (\<lambda>(i, p1).
       case tid of
         None \<Rightarrow> Inr (None, give_id i p1)
       | Some t \<Rightarrow> Inr (Some \<lparr>conn_id = i, thread_arg = thread_ids p1 ! i, work = w\<rparr>,
                        p1\<lparr>thread_ids := (thread_ids p1)[i := t]\<rparr>))"

definition create_log_thread :: "nat option \<Rightarrow> nat \<Rightarrow> pool \<Rightarrow> exn + (worker option \<times> pool)" where
  "create_log_thread tid tablet_num = create_worker tid (Log_task tablet_num)"

definition create_recovery_thread :: "nat option \<Rightarrow> string \<Rightarrow> nat \<Rightarrow> pool \<Rightarrow> exn + (worker option \<times> pool)" where
  "create_recovery_thread tid log_str tablet_num = create_worker tid (Recovery_task log_str tablet_num)"

definition create_thread :: "nat option \<Rightarrow> bool \<Rightarrow> bool \<Rightarrow> int \<Rightarrow> pool \<Rightarrow> exn + (worker option \<times> pool)" where
  "create_thread tid heartbeat coord_connection fd =
     create_worker tid
       (if heartbeat then Heartbeat_task fd
        else Connection_task \<lparr>connfd = fd, coord_conn = coord_connection, backend_conn = True, conn_address = []\<rparr>)"

text \<open>
  The begin and the end of a thread; only connections are entered in the lists of active threads
  and descriptors, and \<open>remove\<close> of a list removes every element that is equal.
\<close>

definition thread_begins :: "worker \<Rightarrow> pool \<Rightarrow> pool" where
  "thread_begins w p =
     (case work w of
        Connection_task c \<Rightarrow> p\<lparr>active_threads := active_threads p @ [thread_arg w], active_fds := active_fds p @ [connfd c]\<rparr>
      | _ \<Rightarrow> p)"

definition thread_ends :: "worker \<Rightarrow> pool \<Rightarrow> pool" where
  "thread_ends w p =
     (let p1 = (give_id (conn_id w) p)\<lparr>active_threads := removeAll (thread_arg w) (active_threads p)\<rparr>
      in case work w of
           Connection_task c \<Rightarrow> p1\<lparr>active_fds := removeAll (connfd c) (active_fds p1)\<rparr>
         | _ \<Rightarrow> p1)"

text \<open>What the heartbeat thread does every second.\<close>

definition send_heartbeat :: "int \<Rightarrow> node \<Rightarrow> node" where
  "send_heartbeat fd n = send fd (''HEARTBEAT'' @ crlf) n"

section \<open>The accept loop\<close>

text \<open>
  When no thread can be made, the connection is taken off the lists again: \<open>pop_back\<close> of
  \<open>partition_fds\<close>, which a connection from a server of another partition was not added to.
\<close>

definition undo_accept :: "conn \<Rightarrow> node \<Rightarrow> exn + node" where
  "undo_accept c n =
     (if backend_conn c
      then (if partition_fds n = [] then Inl Undefined_behaviour
            else Inr (n\<lparr>partition_fds := butlast (partition_fds n)\<rparr>))
      else Inr (n\<lparr>frontend_fds := removeAll (connfd c) (frontend_fds n)\<rparr>))"

text \<open>One accepted client; \<open>None\<close>: all ids are taken, the loop sleeps and looks again.\<close>

definition admit ::
  "config \<Rightarrow> nat option \<Rightarrow> int \<Rightarrow> string \<Rightarrow> pool \<times> node \<Rightarrow> (exn + (worker option \<times> pool \<times> node)) option" where
  "admit cfg tid fd addr = (\<lambda>(p, n).
     if fd < 0 then Some (Inr (None, p, n))
     else if avail_connections p = [] then None
     else Some (
       case accept_connection cfg fd addr n of
         (c, n1) \<Rightarrow> ebind (create_worker tid (Connection_task c) p) (\<lambda>(w, p1).
           case w of
             Some w' \<Rightarrow> Inr (w, p1, n1)
           | None \<Rightarrow> ebind (undo_accept c n1) (\<lambda>n2. Inr (None, p1, n2)))))"

section \<open>One connection\<close>

text \<open>What \<open>poll\<close> and \<open>FIONREAD\<close> report, with the bytes \<open>recv\<close> then returns.\<close>

datatype poll_result = Poll_error | Hung_up | Count_error | Data string

text \<open>
  The loop of \<open>start_func\<close>: the result says whether the connection is still open. No data at all
  means that the client has closed it.
\<close>

primrec connection_loop ::
  "(string \<Rightarrow> nat) \<Rightarrow> int \<Rightarrow> conn \<Rightarrow> poll_result list \<Rightarrow> string \<times> node \<Rightarrow> exn + (bool \<times> string \<times> node)" where
  "connection_loop H new_fd c [] s = Inr (True, s)"
| "connection_loop H new_fd c (r # rs) s =
     (case s of (buffer, n) \<Rightarrow>
        case r of
          Data bytes \<Rightarrow>
            if bytes = [] then Inr (False, buffer, close_connection c n)
            else ebind (serve H new_fd c (buffer @ bytes) n) (connection_loop H new_fd c rs)
        | _ \<Rightarrow> Inr (False, buffer, close_connection c n))"

definition start_func :: "(string \<Rightarrow> nat) \<Rightarrow> int \<Rightarrow> conn \<Rightarrow> poll_result list \<Rightarrow> node \<Rightarrow> exn + (bool \<times> string \<times> node)" where
  "start_func H new_fd c rs n = connection_loop H new_fd c rs ([], start_connection c n)"

section \<open>Start and shutdown\<close>

text \<open>The threads \<open>main\<close> makes before it accepts clients, with the ids they get.\<close>

definition main_threads :: "nat \<Rightarrow> nat \<Rightarrow> (nat \<Rightarrow> nat) \<Rightarrow> int \<Rightarrow> int \<Rightarrow> pool \<Rightarrow> exn + (worker list \<times> pool)" where
  "main_threads hb cm log heartbeatfd coordfd p =
     ebind (create_thread (Some hb) True False heartbeatfd p) (\<lambda>(w1, p1).
     ebind (create_thread (Some cm) False True coordfd p1) (\<lambda>(w2, p2).
     ebind (efold (\<lambda>t (ws, q). ebind (create_log_thread (Some (log t)) t q) (\<lambda>(w, q'). Inr (ws @ [w], q')))
       [0, 1, 2, 3, 4] ([w1, w2], p2)) (\<lambda>(ws, q). Inr (map the ws, q))))"

text \<open>
  The interrupt handler tells every active connection, then joins every active thread: \<open>live\<close> are
  the ids of the threads there are; joining anything else is undefined. The exit code is 3.
\<close>

definition shut_down_func :: "nat set \<Rightarrow> pool \<Rightarrow> (int \<times> string) list \<times> exn" where
  "shut_down_func live p =
     (map (\<lambda>fd. (fd, ''-ERR Server shutting down'' @ crlf)) (active_fds p),
      if set (active_threads p) \<subseteq> live then Process_exit else Undefined_behaviour)"

section \<open>Runs of the pool\<close>

text \<open>The pool with the threads that run.\<close>

inductive pool_reach :: "pool \<Rightarrow> worker list \<Rightarrow> bool" where
  start: "pool_reach initial_pool []"
| created: "pool_reach p L \<Longrightarrow> create_worker tid t p = Inr (Some w, p') \<Longrightarrow> pool_reach p' (w # L)"
| failed: "pool_reach p L \<Longrightarrow> create_worker tid t p = Inr (None, p') \<Longrightarrow> pool_reach p' L"
| begins: "pool_reach p L \<Longrightarrow> w \<in> set L \<Longrightarrow> pool_reach (thread_begins w p) L"
| ends: "pool_reach p L \<Longrightarrow> w \<in> set L \<Longrightarrow> pool_reach (thread_ends w p) (remove1 w L)"

section \<open>Lemmas: the pool\<close>

text \<open>The ids that are free and those of running threads are all ids, each once.\<close>

definition pool_ids :: "pool \<Rightarrow> worker list \<Rightarrow> nat list" where
  "pool_ids p L = avail_connections p @ map conn_id L"

definition pool_ok :: "pool \<Rightarrow> worker list \<Rightarrow> bool" where
  "pool_ok p L = (mset (pool_ids p L) = mset [0..<max_clients])"

lemma create_worker_cases:
  assumes "create_worker tid t p = Inr (w, p')"
  obtains (made) i where "avail_connections p = i # avail_connections p'" and "w = Some \<lparr>conn_id = i, thread_arg = thread_ids p ! i, work = t\<rparr>"
  | (failed) i rest where "avail_connections p = i # rest" and "avail_connections p' = rest @ [i]" and "w = None"
  using assms
  by (auto simp: create_worker_def take_id_def give_id_def split: list.splits option.splits elim!: ebind_InrE)

lemma thread_begins_avail [simp]: "avail_connections (thread_begins w p) = avail_connections p"
  by (simp add: thread_begins_def split: task.split)

lemma thread_ends_avail [simp]: "avail_connections (thread_ends w p) = avail_connections p @ [conn_id w]"
  by (simp add: thread_ends_def give_id_def Let_def split: task.split)

lemma mset_ids_remove1: "w \<in> set L \<Longrightarrow> mset (map conn_id (remove1 w L)) + {#conn_id w#} = mset (map conn_id L)"
  by (simp add: mset_remove1 image_mset_Diff)

lemma pool_reach_ok: "pool_reach p L \<Longrightarrow> pool_ok p L"
proof (induction rule: pool_reach.induct)
  case start
  show ?case by (simp add: pool_ok_def pool_ids_def initial_pool_def)
next
  case (created p L tid t w p')
  from created.hyps(2) created.IH show ?case
    by (cases rule: create_worker_cases) (auto simp: pool_ok_def pool_ids_def)
next
  case (failed p L tid t p')
  from failed.hyps(2) failed.IH show ?case
    by (cases rule: create_worker_cases) (auto simp: pool_ok_def pool_ids_def)
next
  case (begins p L w)
  then show ?case by (simp add: pool_ok_def pool_ids_def)
next
  case (ends p L w)
  from mset_ids_remove1 [OF ends.hyps(2)] ends.IH show ?case
    by (simp add: pool_ok_def pool_ids_def)
qed


lemma pool_ok_distinct:
  assumes "pool_ok p L"
  shows "distinct (pool_ids p L)" and "set (pool_ids p L) = {0..<max_clients}" and "length (pool_ids p L) = max_clients"
proof -
  from assms have m: "mset (pool_ids p L) = mset [0..<max_clients]" by (simp add: pool_ok_def)
  from mset_eq_imp_distinct_iff [OF m] show "distinct (pool_ids p L)" by simp
  from mset_eq_setD [OF m] show "set (pool_ids p L) = {0..<max_clients}" by simp
  from mset_eq_length [OF m] show "length (pool_ids p L) = max_clients" by simp
qed

lemma create_fails_iff: "create_worker tid t p = Inl e \<longleftrightarrow> e = Undefined_behaviour \<and> avail_connections p = []"
  by (auto simp: create_worker_def take_id_def split: list.splits option.splits)

section \<open>Lemmas: pieces of a stream\<close>

lemma str_find_Some_append:
  assumes "str_find a p = Some i"
  shows "str_find (a @ b) p = Some i" and "i + length p \<le> length a"
proof -
  from assms have i: "i \<le> length a" "prefix p (drop i a)" "\<forall>j<i. \<not> prefix p (drop j a)"
    by (auto simp: str_find_eq_Some_iff)
  from i(1,2) have len: "i + length p \<le> length a" using prefix_length_le [OF i(2)] by simp
  then show "i + length p \<le> length a" .
  have "\<not> prefix p (drop j (a @ b))" if "j < i" for j
  proof
    assume "prefix p (drop j (a @ b))"
    moreover have "prefix (drop j a) (drop j (a @ b))" using that i(1) by simp
    moreover have "length p \<le> length (drop j a)" using that len by simp
    ultimately have "prefix p (drop j a)" by (rule prefix_length_prefix)
    with i(3) that show False by blast
  qed
  moreover have "prefix p (drop i (a @ b))" using i(1,2) by (simp add: prefix_append)
  ultimately show "str_find (a @ b) p = Some i" using i(1) by (simp add: str_find_eq_Some_iff)
qed

lemma serve_append:
  "serve H f c (a @ b) n = ebind (serve H f c a n) (\<lambda>(r, m). serve H f c (r @ b) m)"
proof (induction H f c a n rule: serve.induct)
  case (1 H f c a n)
  show ?case
  proof (cases "str_find a crlf")
    case None
    then show ?thesis by (simp add: serve.simps [of H f c a n])
  next
    case (Some i)
    note s = str_find_Some_append [OF Some]
    have take_drop: "take i (a @ b) = take i a" "drop (i + 2) (a @ b) = drop (i + 2) a @ b" using s(2) by simp_all
    have "serve H f c (a @ b) n =
        ebind (dispatch H f c (trim_trailing_newline (take i a)) n) (serve H f c (drop (i + 2) a @ b))"
      by (simp only: serve.simps [of H f c "a @ b"] s(1) option.case take_drop)
    moreover have "serve H f c a n =
        ebind (dispatch H f c (trim_trailing_newline (take i a)) n) (serve H f c (drop (i + 2) a))"
      by (simp only: serve.simps [of H f c a] Some option.case)
    moreover have "serve H f c (drop (i + 2) a @ b) =
        (\<lambda>x. ebind (serve H f c (drop (i + 2) a) x) (\<lambda>(r, m). serve H f c (r @ b) m))"
      by (rule ext) (rule 1 [OF Some])
    ultimately show ?thesis by (simp only: ebind_assoc)
  qed
qed

lemma connection_loop_pieces:
  assumes "[] \<notin> set ps"
  shows "connection_loop H f c (map Data ps @ rs) (buffer, n) =
     ebind (serve H f c (buffer @ concat ps) n) (connection_loop H f c rs)
   \<or> ps = []"
  using assms
proof (induction ps arbitrary: buffer n)
  case (Cons q ps)
  show ?case
  proof (cases "ps = []")
    case True
    with Cons.prems show ?thesis by simp
  next
    case False
    have "ebind (serve H f c (buffer @ q) n) (connection_loop H f c (map Data ps @ rs)) =
        ebind (serve H f c (buffer @ q) n) (\<lambda>(r, m). ebind (serve H f c (r @ concat ps) m) (connection_loop H f c rs))"
      using Cons.IH Cons.prems False by (auto simp: ebind_def split: sum.splits)
    moreover have "q \<noteq> []" using Cons.prems by auto
    ultimately show ?thesis
      by (simp add: serve_append [of H f c "buffer @ q" "concat ps", simplified] ebind_assoc case_prod_unfold)
  qed
qed simp

section \<open>Properties\<close>

text \<open>
  C30: a storage server runs at most 100 threads of its pool at once, each in a place of its own;
  making a thread when all are taken is undefined: only the accept loop looks first.
\<close>

theorem thread_places:
  assumes "pool_reach p L"
  shows "distinct (map conn_id L) \<and> length L \<le> max_clients \<and> (\<forall>w \<in> set L. conn_id w < max_clients)
     \<and> (length L = max_clients \<longleftrightarrow> (\<forall>tid log t. create_recovery_thread tid log t p = Inl Undefined_behaviour))
     \<and> (length L = max_clients \<longleftrightarrow> (\<forall>cfg tid addr n. admit cfg tid 0 addr (p, n) = None))"
proof -
  note ok = pool_ok_distinct [OF pool_reach_ok [OF assms]]
  have full: "length L = max_clients \<longleftrightarrow> avail_connections p = []" using ok(3) by (auto simp: pool_ids_def)
  have "create_recovery_thread tid log t p = Inl Undefined_behaviour \<longleftrightarrow> avail_connections p = []" for tid log t
    by (simp add: create_recovery_thread_def create_fails_iff)
  moreover have "admit cfg tid 0 addr (p, n) = None \<longleftrightarrow> avail_connections p = []" for cfg tid addr n
    by (simp add: admit_def)
  moreover have "\<forall>w \<in> set L. conn_id w < max_clients" using ok(2) by (auto simp: pool_ids_def)
  ultimately show ?thesis using ok full by (simp add: pool_ids_def)
qed

text \<open>
  C28: however the network cuts what a client sends into pieces, the server does what it would do
  had it all arrived at once.
\<close>

theorem connection_any_pieces:
  assumes "ps \<noteq> []" and "[] \<notin> set ps"
  shows "start_func H f c (map Data ps @ rs) n = start_func H f c (Data (concat ps) # rs) n"
proof -
  have "concat ps \<noteq> []" using assms by (cases ps) auto
  then show ?thesis
    using connection_loop_pieces [OF assms(2), of H f c rs "[]" "start_connection c n"] assms(1)
    by (simp add: start_func_def del: concat_eq_Nil_conv)
qed


lemma initial_places: "[0..<max_clients] = [0, 1, 2, 3, 4, 5, 6] @ [7..<max_clients]"
proof -
  have "[0..<7] = [0, 1, 2, 3, 4, 5, 6 :: nat]" by (simp add: upt_rec)
  with upt_add_eq_append [of 0 7 93] show ?thesis by (simp add: max_clients_def del: upt_rec_numeral)
qed

lemma create_at:
  "avail_connections p = i # rest \<Longrightarrow> create_worker (Some t) w p =
     Inr (Some \<lparr>conn_id = i, thread_arg = thread_ids p ! i, work = w\<rparr>,
       p\<lparr>avail_connections := rest, thread_ids := (thread_ids p)[i := t]\<rparr>)"
  by (simp add: create_worker_def take_id_def)

text \<open>The first threads take the places from 0 on; each is told that its thread is 0.\<close>

lemma main_threads_run:
  "\<exists>ids. main_threads hb cm log heartbeatfd coordfd initial_pool =
     Inr ([\<lparr>conn_id = 0, thread_arg = 0, work = Heartbeat_task heartbeatfd\<rparr>,
         \<lparr>conn_id = 1, thread_arg = 0, work = Connection_task
             \<lparr>connfd = coordfd, coord_conn = True, backend_conn = True, conn_address = []\<rparr>\<rparr>]
         @ map (\<lambda>t. \<lparr>conn_id = t + 2, thread_arg = 0, work = Log_task t\<rparr>) [0, 1, 2, 3, 4],
       \<lparr>avail_connections = [7..<max_clients], thread_ids = ids, active_threads = [], active_fds = []\<rparr>)"
proof -
  have id: "replicate max_clients 0 ! i = (0 :: nat)" if "i < 7" for i
    using that by (simp add: max_clients_def)
  show ?thesis
    unfolding main_threads_def create_thread_def create_log_thread_def initial_pool_def initial_places
    by (simp add: create_at id)
qed

text \<open>
  the interrupt ends a server that has just started in undefined behaviour, not with its exit
  code: the thread ids to join were copied before the threads were made.
\<close>

theorem interrupt_after_start:
  assumes "main_threads hb cm log heartbeatfd coordfd initial_pool = Inr (ws, p)" and "0 \<notin> live"
  shows "shut_down_func live (thread_begins (ws ! 1) p) =
    ([(coordfd, ''-ERR Server shutting down'' @ crlf)], Undefined_behaviour)"
proof -
  from main_threads_run [of hb cm log heartbeatfd coordfd] assms show ?thesis
    by (auto simp: shut_down_func_def thread_begins_def)
qed

theorem interrupt_after_start_witness:
  "\<exists>ws p. main_threads 1 2 (\<lambda>t. t + 3) 4 5 initial_pool = Inr (ws, p)
     \<and> snd (shut_down_func {1..7} (thread_begins (ws ! 1) p)) = Undefined_behaviour"
proof -
  obtain ws p where run: "main_threads 1 2 (\<lambda>t. t + 3) 4 5 initial_pool = Inr (ws, p)"
    using main_threads_run [of 1 2 "\<lambda>t. t + 3" 4 5] by blast
  from interrupt_after_start [OF this, of "{1..7}"] run show ?thesis by auto
qed

lemma started_reach:
  "pool_reach (initial_pool\<lparr>avail_connections := [1..<max_clients], thread_ids := (replicate max_clients 0)[0 := 7]\<rparr>)
     [\<lparr>conn_id = 0, thread_arg = 0, work = Log_task 3\<rparr>]"
proof (rule pool_reach.created [OF pool_reach.start])
  show "create_worker (Some 7) (Log_task 3) initial_pool =
      Inr (Some \<lparr>conn_id = 0, thread_arg = 0, work = Log_task 3\<rparr>,
        initial_pool\<lparr>avail_connections := [1..<max_clients], thread_ids := (replicate max_clients 0)[0 := 7]\<rparr>)"
    by (simp add: create_at initial_pool_def upt_conv_Cons max_clients_def del: upt_rec_numeral)
qed

theorem thread_places_witness:
  "create_recovery_thread (Some 8) ''log'' 2
     (initial_pool\<lparr>avail_connections := [1..<max_clients], thread_ids := (replicate max_clients 0)[0 := 7]\<rparr>)
     \<noteq> Inl Undefined_behaviour"
proof -
  from thread_places [OF started_reach] have "(1 = max_clients) =
    (\<forall>tid log t. create_recovery_thread tid log t
      (initial_pool\<lparr>avail_connections := [1..<max_clients], thread_ids := (replicate max_clients 0)[0 := 7]\<rparr>) = Inl Undefined_behaviour)"
    by simp
  then show ?thesis by (simp add: create_recovery_thread_def create_fails_iff max_clients_def)
qed

theorem connection_any_pieces_witness:
  "let c = \<lparr>connfd = 7, coord_conn = False, backend_conn = False, conn_address = []\<rparr>
   in start_func (\<lambda>_. 0) 0 c [Data ''REPLICA COU'', Data ''NT p 3'', Data crlf, Hung_up] initial_node =
     start_func (\<lambda>_. 0) 0 c [Data (''REPLICA COUNT p 3'' @ crlf), Hung_up] initial_node"
  using connection_any_pieces [of "[''REPLICA COU'', ''NT p 3'', crlf]" "\<lambda>_. 0" 0
      "\<lparr>connfd = 7, coord_conn = False, backend_conn = False, conn_address = []\<rparr>" "[Hung_up]" initial_node]
  by (simp add: Let_def)

end
