(* ===== verification/Endpoints.thy ===== *)
theory Endpoints
  imports Cluster Server_Threads
begin

text \<open>
  The sockets the processes make when they start (\<open>create_listen_socket\<close>,
  \<open>create_connect_socket_port\<close>, \<open>create_connect_socket\<close> and \<open>get_address\<close> of \<open>backend/src/utils.cpp\<close>,
  the listening sockets of \<open>backend/coordinator.cpp\<close>, \<open>bind_socket_and_listen\<close> of
  \<open>frontend/src/ioutils.cc\<close>, \<open>main\<close> of \<open>frontend/smtp_server.cc\<close>): the calls they make, which
  failures they see, and the addresses the other side gets to see.
\<close>

section \<open>System calls\<close>

text \<open>
  What the calls report, and the calls made. \<open>inet_addr\<close> is that of four numbers; it gives
  \<open>INADDR_NONE\<close> for what is no address. The notations with fewer numbers are not used.
\<close>

record sys =
  sys_socket :: int
  sys_bind :: bool
  sys_listen :: bool
  sys_connect :: bool

datatype sock_call = Bind int sockaddr | Listen int int | Connect int sockaddr | Close int

definition inet_addr :: "string \<Rightarrow> string" where
  "inet_addr ip = (if inet_pton_ok ip then ip else ''255.255.255.255'')"

definition htons :: "int \<Rightarrow> int" where
  "htons port = port mod 2 ^ 16"

definition get_address :: "sockaddr \<Rightarrow> string" where
  "get_address a = sin_addr a @ '':'' @ to_string (sin_port a)"

section \<open>Sockets of the backend\<close>

definition create_listen_socket :: "sys \<Rightarrow> int \<Rightarrow> int \<Rightarrow> sock_call list \<times> (exn + int \<times> int)" where
  "create_listen_socket S port max_conns =
     (let fd = sys_socket S;
          bound = Bind fd \<lparr>sin_addr = INADDR_ANY, sin_port = htons port\<rparr>
      in if fd < 0 then ([], Inl Process_exit)
         else if \<not> sys_bind S then ([bound, Close fd], Inl Process_exit)
         else if \<not> sys_listen S then ([bound, Listen fd max_conns, Close fd], Inl Process_exit)
         else ([bound, Listen fd max_conns], Inr (fd, port)))"

text \<open>The second half of both functions that connect: the address is checked last.\<close>

definition connect_fd :: "sys \<Rightarrow> string \<Rightarrow> int \<Rightarrow> sock_call list \<times> (exn + int)" where
  "connect_fd S ip_address fd =
     (case IP_port ip_address of (ip, port) \<Rightarrow>
        if \<not> inet_pton_ok ip then ([Close fd], Inl Process_exit)
        else let call = Connect fd \<lparr>sin_addr = ip, sin_port = htons port\<rparr>
             in if \<not> sys_connect S then ([call, Close fd], Inl Process_exit) else ([call], Inr fd))"

definition create_connect_socket_port :: "sys \<Rightarrow> string \<Rightarrow> string \<Rightarrow> int \<Rightarrow> sock_call list \<times> (exn + int)" where
  "create_connect_socket_port S ip_address local_ip local_port =
     (let fd = sys_socket S;
          bound = Bind fd \<lparr>sin_addr = inet_addr local_ip, sin_port = htons local_port\<rparr>
      in if fd < 0 then ([], Inl Process_exit)
         else if \<not> sys_bind S then ([bound, Close fd], Inl Process_exit)
         else case connect_fd S ip_address fd of (calls, r) \<Rightarrow> (bound # calls, r))"

definition create_connect_socket_backend :: "sys \<Rightarrow> string \<Rightarrow> sock_call list \<times> (exn + int)" where
  "create_connect_socket_backend S ip_address =
     (let fd = sys_socket S
      in if fd < 0 then ([], Inl Process_exit) else connect_fd S ip_address fd)"

text \<open>One set-up after the other; a failed one ends the process.\<close>

definition then_calls :: "sock_call list \<times> (exn + 'a) \<Rightarrow> ('a \<Rightarrow> sock_call list \<times> (exn + 'b)) \<Rightarrow> sock_call list \<times> (exn + 'b)" where
  "then_calls m f =
     (case m of
        (calls, Inl e) \<Rightarrow> (calls, Inl e)
      | (calls, Inr a) \<Rightarrow> (case f a of (calls', r) \<Rightarrow> (calls @ calls', r)))"

text \<open>
  A storage server: heartbeat connection, communication connection, listening socket. Both
  connections are bound to \<open>127.0.0.1\<close>, whatever address the server has.
\<close>

definition server_sockets :: "sys \<Rightarrow> sys \<Rightarrow> sys \<Rightarrow> net_config \<Rightarrow> sock_call list \<times> (exn + int \<times> int \<times> int)" where
  "server_sockets S1 S2 S3 cfg =
     then_calls (create_connect_socket_port S1 (heartbeat_addr cfg) ''127.0.0.1'' (heartbeat_port cfg)) (\<lambda>heartbeatfd.
     then_calls (create_connect_socket_port S2 (comm_addr cfg) ''127.0.0.1'' (comm_port cfg)) (\<lambda>coordfd.
     then_calls (create_listen_socket S3 (listen_port cfg) (int max_clients)) (\<lambda>(listenfd, port).
       ([], Inr (heartbeatfd, coordfd, listenfd)))))"

text \<open>
  The coordinator: the thread of the storage servers, and that of the frontends, which binds to
  the address of the configuration; its failures shut the process down.
\<close>

definition frontend_max_connections :: int where "frontend_max_connections = 100"
definition storage_max_connections :: int where "storage_max_connections = 100"

definition storage_sockets :: "sys \<Rightarrow> sys \<Rightarrow> coord_ports \<Rightarrow> sock_call list \<times> (exn + int \<times> int)" where
  "storage_sockets S1 S2 ports =
     then_calls (create_listen_socket S1 (storage_heartbeat_port ports) storage_max_connections) (\<lambda>(hb, p).
     then_calls (create_listen_socket S2 (storage_comm_port ports) storage_max_connections) (\<lambda>(cm, q). ([], Inr (hb, cm))))"

definition frontend_socket :: "sys \<Rightarrow> coord_ports \<Rightarrow> sock_call list \<times> (exn + int)" where
  "frontend_socket S ports =
     (let fd = sys_socket S;
          bound = Bind fd \<lparr>sin_addr = inet_addr (server_ip ports), sin_port = htons (frontend_port ports)\<rparr>
      in if fd < 0 then ([], Inl Process_exit)
         else if \<not> sys_bind S then ([bound], Inl Process_exit)
         else if \<not> sys_listen S then ([bound, Listen fd frontend_max_connections], Inl Process_exit)
         else ([bound, Listen fd frontend_max_connections], Inr fd))"

section \<open>Sockets of the frontends\<close>

text \<open>
  The web server and the balancer: the results of \<open>bind\<close> and \<open>listen\<close> are not looked at, and
  the address given is not used. The second socket is for datagrams.
\<close>

definition BACKLOG :: int where
  "BACKLOG = 20"

definition bind_socket_and_listen :: "sys \<Rightarrow> sys option \<Rightarrow> 16 word \<Rightarrow> sock_call list \<times> (exn + int \<times> int option)" where
  "bind_socket_and_listen S U port =
     (let fd = sys_socket S; addr = \<lparr>sin_addr = INADDR_ANY, sin_port = uint port\<rparr>;
          calls = [Bind fd addr, Listen fd BACKLOG]
      in if fd < 0 then ([], Inl Process_exit)
         else case U of
                None \<Rightarrow> (calls, Inr (fd, None))
              | Some T \<Rightarrow>
                  let ufd = sys_socket T
                  in if ufd < 0 then (calls, Inl Process_exit)
                     else (calls @ [Bind ufd addr], Inr (fd, Some ufd)))"

text \<open>The mail server listens on port 2500.\<close>

definition mail_socket :: "sys \<Rightarrow> bool \<Rightarrow> sock_call list \<times> (exn + int)" where
  "mail_socket S reuse_ok =
     (let fd = sys_socket S
      in if fd < 0 \<or> \<not> reuse_ok then ([], Inl Process_exit)
         else ([Bind fd \<lparr>sin_addr = INADDR_ANY, sin_port = 2500\<rparr>, Listen fd 100], Inr fd))"

section \<open>What the other side sees\<close>

text \<open>The address a socket was bound to is the one the other side of its connection gets.\<close>

definition bound_to :: "int \<Rightarrow> sock_call list \<Rightarrow> sockaddr option" where
  "bound_to fd calls =
     (case List.extract (\<lambda>c. case c of Bind fd' a \<Rightarrow> fd' = fd | _ \<Rightarrow> False) calls of
        Some (_, Bind _ a, _) \<Rightarrow> Some a
      | _ \<Rightarrow> None)"

definition seen_address :: "int \<Rightarrow> sock_call list \<Rightarrow> string" where
  "seen_address fd calls = (case bound_to fd calls of None \<Rightarrow> [] | Some a \<Rightarrow> get_address a)"

lemma then_calls_Inr:
  assumes "then_calls m f = (calls, Inr b)"
  obtains c1 a c2 where "m = (c1, Inr a)" and "f a = (c2, Inr b)" and "calls = c1 @ c2"
proof -
  obtain c1 r where m: "m = (c1, r)" by (cases m)
  with assms obtain a where a: "r = Inr a" by (cases r) (auto simp: then_calls_def)
  obtain c2 r2 where f: "f a = (c2, r2)" by (cases "f a")
  show thesis by (rule that [of c1 a c2]) (use assms m a f in \<open>auto simp: then_calls_def\<close>)
qed

lemma connect_port_calls:
  assumes "create_connect_socket_port S ip_address local_ip local_port = (calls, Inr fd)"
  shows "fd = sys_socket S"
    and "\<exists>cs. calls = Bind fd \<lparr>sin_addr = inet_addr local_ip, sin_port = htons local_port\<rparr> # cs"
  using assms
  by (auto simp: create_connect_socket_port_def connect_fd_def Let_def split: prod.splits if_splits)

lemma bound_to_first [simp]: "bound_to fd (Bind fd a # cs) = Some a"
  by (simp add: bound_to_def extract_Cons_code)

lemma server_heartbeat_seen:
  assumes "server_sockets S1 S2 S3 cfg = (calls, Inr (hb, cm, ls))"
    and "0 \<le> heartbeat_port cfg" and "heartbeat_port cfg < 2 ^ 16"
  shows "seen_address hb calls = ''127.0.0.1:'' @ to_string (heartbeat_port cfg)"
proof -
  from assms(1) obtain c1 a where 1: "create_connect_socket_port S1 (heartbeat_addr cfg) ''127.0.0.1'' (heartbeat_port cfg) = (c1, Inr a)"
    and calls: "\<exists>cs. calls = c1 @ cs" and "hb = a"
    unfolding server_sockets_def by (elim then_calls_Inr) (auto split: prod.splits)
  from connect_port_calls(2) [OF 1] calls \<open>hb = a\<close> obtain cs where
    "calls = Bind hb \<lparr>sin_addr = inet_addr ''127.0.0.1'', sin_port = htons (heartbeat_port cfg)\<rparr> # cs" by auto
  then show ?thesis using assms(2,3) local_ip by (simp add: seen_address_def get_address_def inet_addr_def htons_def)
qed

section \<open>The ports of a server\<close>

definition ports_of :: "server_config \<Rightarrow> int \<times> int \<times> int" where
  "ports_of s = (sc_listen s, sc_heartbeat s, sc_comm s)"

definition own_ports :: "net_config \<Rightarrow> int \<times> int \<times> int" where
  "own_ports cfg = (listen_port cfg, heartbeat_port cfg, comm_port cfg)"

lemma efold_populate_ports:
  assumes "\<forall>s \<in> set ss. config_ok s"
    and "efold (populate_line i) (enumerate k (map config_line ss)) (n, cfg) = Inr (n', cfg')"
  shows "own_ports cfg' = (if int k \<le> i \<and> i < int (k + length ss) then ports_of (ss ! (nat i - k)) else own_ports cfg)"
  using assms
proof (induction ss arbitrary: k n cfg)
  case (Cons s ss)
  from Cons.prems(1) have ok: "config_ok s" and oks: "\<forall>s \<in> set ss. config_ok s" by simp_all
  have ports: "atoi (to_string (sc_listen s)) = sc_listen s" "atoi (to_string (sc_heartbeat s)) = sc_heartbeat s"
      "atoi (to_string (sc_comm s)) = sc_comm s"
    using ok by (simp_all add: config_ok_def fits_int_def atoi_to_string)
  obtain n1 cfg1 where step: "populate_line i (k, config_line s) (n, cfg) = Inr (n1, cfg1)"
    and own: "own_ports cfg1 = (if int k = i then ports_of s else own_ports cfg)"
    using populate_config_line [OF ok, of i k "(n, cfg)"]
    by (cases "int k = i") (simp_all add: own_line_def other_line_def own_ports_def ports_of_def ports)
  from Cons.prems(2) step have "efold (populate_line i) (enumerate (Suc k) (map config_line ss)) (n1, cfg1) = Inr (n', cfg')"
    by simp
  note IH = Cons.IH [OF oks this]
  show ?case
  proof (cases "int (Suc k) \<le> i")
    case True
    then have "nat i - k = Suc (nat i - Suc k)" by arith
    then have "(s # ss) ! (nat i - k) = ss ! (nat i - Suc k)" by (simp only: nth_Cons_Suc)
    with IH own True show ?thesis by auto
  next
    case False
    with IH own show ?thesis by auto
  qed
qed auto

lemma start_server_ports:
  assumes "\<forall>s \<in> set ss. config_ok s" and "i < length ss"
    and "start_server f (Some (storage_file ss)) (int i + 1) n = Inr (m, cfg)"
  shows "own_ports cfg = ports_of (ss ! i)"
proof -
  from assms(3) obtain cfg0 n1 where
    "populate_addresses (Some (storage_file ss)) (int i + 1) (n, cfg0) = Inr (n1, cfg)"
    by (auto simp: start_server_def ebind_eq_Inr_iff split: prod.splits)
  then have "efold (populate_line (int i + 1)) (enumerate 1 (map config_line ss)) (n, cfg0) = Inr (n1, cfg)"
    by (simp add: populate_addresses_def open_file_def split_storage_file [OF assms(1)])
  from efold_populate_ports [OF assms(1) this] assms(2) show ?thesis by (simp add: nat_add_distrib)
qed

section \<open>Properties\<close>

lemma address_ip:
  assumes "CHR '':'' \<notin> set ip" and "config_ok s" and "ip @ '':'' @ to_string p = address s q"
  shows "sc_ip s = ip"
proof -
  have "CHR '':'' \<notin> set (sc_ip s)" using assms(2) by (simp add: config_ok_def)
  then have "takeWhile (\<lambda>c. c \<noteq> CHR '':'') (address s q) = sc_ip s"
    by (auto simp: address_def takeWhile_append)
  moreover have "takeWhile (\<lambda>c. c \<noteq> CHR '':'') (ip @ '':'' @ to_string p) = ip"
    using assms(1) by (auto simp: takeWhile_append)
  ultimately show ?thesis unfolding assms(3) by (rule trans [OF sym])
qed

text \<open>
  C17: a storage server binds the connection of its heartbeats to \<open>127.0.0.1\<close>, whatever address
  the storage file gives it. The coordinator sees it at \<open>127.0.0.1\<close> and its own heartbeat port, and
  takes it for the server that the file lists there: itself, when it is listed as a server of the
  local host, or else another one that has this port there. When the file lists no server there,
  the connection is closed and nothing changes.
\<close>

theorem heartbeats_are_local:
  assumes "\<forall>s \<in> set ss. config_ok s" and "distinct (concat (map addresses ss))" and "distinct (map full_id ss)"
    and "i < length ss" and "port_ok (sc_heartbeat (ss ! i))"
    and "start_server f (Some (storage_file ss)) (int i + 1) n = Inr (m, cfg)"
    and "server_sockets S1 S2 S3 cfg = (calls, Inr (hb, cm, ls))"
  shows "\<exists>c0. load_servers (storage_file ss) initial_coord = Inr c0
    \<and> seen_address hb calls = ''127.0.0.1'' @ '':'' @ to_string (sc_heartbeat (ss ! i))
    \<and> (sc_ip (ss ! i) = ''127.0.0.1'' \<longrightarrow> map_of (server_info c0) (seen_address hb calls) = Some (full_id (ss ! i)))
    \<and> (\<forall>s \<in> set ss. seen_address hb calls \<in> set (addresses s) \<longrightarrow>
         map_of (server_info c0) (seen_address hb calls) = Some (full_id s))
    \<and> ((\<forall>s \<in> set ss. seen_address hb calls \<notin> set (addresses s)) \<longrightarrow>
         accept_heartbeat (seen_address hb calls) fd now c0 = Inr c0)"
proof -
  have port: "heartbeat_port cfg = sc_heartbeat (ss ! i)"
    using start_server_ports [OF assms(1,4,6)] by (simp add: own_ports_def ports_of_def)
  have seen: "seen_address hb calls = ''127.0.0.1'' @ '':'' @ to_string (sc_heartbeat (ss ! i))"
    using server_heartbeat_seen [OF assms(7)] assms(5) by (simp add: port port_ok_def)
  have "split (storage_file ss) newline = map config_line ss" by (rule split_storage_file [OF assms(1)])
  with efold_config_lines [OF assms(1-3), of initial_coord] obtain c0 where
    c0: "load_servers (storage_file ss) initial_coord = Inr c0"
    and names: "\<forall>s \<in> set ss. \<forall>a \<in> set (addresses s). map_of (server_info c0) a = Some (full_id s)"
    and others: "\<forall>a. (\<forall>s \<in> set ss. a \<notin> set (addresses s)) \<longrightarrow> map_of (server_info c0) a = None"
    by (auto simp: load_servers_def initial_coord_def)
  have "map_of (server_info c0) (seen_address hb calls) = Some (full_id (ss ! i))" if "sc_ip (ss ! i) = ''127.0.0.1''"
  proof -
    have "seen_address hb calls \<in> set (addresses (ss ! i))" by (simp add: seen addresses_def address_def that)
    with names assms(4) show ?thesis by simp
  qed
  moreover have "accept_heartbeat (seen_address hb calls) fd now c0 = Inr c0"
    if "\<forall>s \<in> set ss. seen_address hb calls \<notin> set (addresses s)"
    using others that by (simp add: accept_heartbeat_def)
  ultimately show ?thesis using c0 seen names by blast
qed

definition all_work :: "int \<Rightarrow> sys" where
  "all_work fd = \<lparr>sys_socket = fd, sys_bind = True, sys_listen = True, sys_connect = True\<rparr>"

definition remote_cluster :: "server_config list" where
  "remote_cluster =
     [\<lparr>sc_partition = 1, sc_ip = ''10.0.0.7'', sc_heartbeat = 8001, sc_comm = 8002, sc_listen = 8003, sc_last = to_string 8004\<rparr>]"

lemma all_work_connects:
  assumes "0 \<le> x" and "inet_pton_ok ip" and "IP_port addr = (ip, p)"
  shows "\<exists>calls. create_connect_socket_port (all_work x) addr l lp = (calls, Inr x)"
  using assms by (simp add: create_connect_socket_port_def connect_fd_def all_work_def Let_def)

lemma all_work_sockets:
  assumes "inet_pton_ok ip" and "IP_port (heartbeat_addr cfg) = (ip, p)" and "IP_port (comm_addr cfg) = (ip, q)"
    and "0 \<le> x" and "0 \<le> y" and "0 \<le> z"
  shows "\<exists>calls. server_sockets (all_work x) (all_work y) (all_work z) cfg = (calls, Inr (x, y, z))"
proof -
  obtain c1 where 1: "create_connect_socket_port (all_work x) (heartbeat_addr cfg) ''127.0.0.1'' (heartbeat_port cfg) = (c1, Inr x)"
    using all_work_connects [OF assms(4,1,2)] by blast
  obtain c2 where 2: "create_connect_socket_port (all_work y) (comm_addr cfg) ''127.0.0.1'' (comm_port cfg) = (c2, Inr y)"
    using all_work_connects [OF assms(5,1,3)] by blast
  obtain c3 where 3: "create_listen_socket (all_work z) (listen_port cfg) (int max_clients) = (c3, Inr (z, listen_port cfg))"
    using assms(6) by (simp add: create_listen_socket_def all_work_def Let_def)
  show ?thesis unfolding server_sockets_def 1 2 3 then_calls_def by simp
qed

lemma length_remote: "length remote_cluster = 1"
  by (simp add: remote_cluster_def)

lemma remote_start:
  "\<exists>m cfg calls. start_server (Some sample_coordinator_file) (Some (storage_file remote_cluster)) (int 0 + 1) initial_node = Inr (m, cfg)
     \<and> server_sockets (all_work 5) (all_work 6) (all_work 7) cfg = (calls, Inr (5, 6, 7))"
proof -
  have ok: "\<forall>s \<in> set remote_cluster. config_ok s"
    by (simp add: remote_cluster_def config_ok_def fits_int_def)
  have "port_ok 5001" "port_ok 5002" "port_ok 5003" by (simp_all add: port_ok_def)
  from addresses_agree [OF local_ip this refl disjI1 [OF refl]]
  obtain cfg0 where 0: "coord_addresses (Some sample_coordinator_file) no_config = Inr cfg0"
    and ip: "IP_port (heartbeat_addr cfg0) = (''127.0.0.1'', 5002)" "IP_port (comm_addr cfg0) = (''127.0.0.1'', 5003)"
    by (auto simp: sample_coordinator_file_def)
  from efold_populate [OF ok, of "int 0 + 1" 1 initial_node cfg0] obtain cfg n where
    1: "populate_addresses (Some (storage_file remote_cluster)) (int 0 + 1) (initial_node, cfg0) = Inr (n, cfg)"
      "n = own_node (remote_cluster ! 0) initial_node"
    and cfg: "heartbeat_addr cfg = heartbeat_addr cfg0" "comm_addr cfg = comm_addr cfg0"
    using length_remote by (auto simp: populate_addresses_def open_file_def split_storage_file [OF ok])
  obtain m where "boot n = Inr m"
    using boot_fresh [of n] by (auto simp: 1(2) own_node_def initial_node_def)
  then have "start_server (Some sample_coordinator_file) (Some (storage_file remote_cluster)) (int 0 + 1) initial_node = Inr (m, cfg)"
    using 0 1(1) by (simp add: start_server_def)
  with all_work_sockets [OF local_ip, of cfg] ip cfg show ?thesis by fastforce
qed

theorem heartbeats_are_local_witness:
  "\<exists>m cfg calls c0.
     start_server (Some sample_coordinator_file) (Some (storage_file remote_cluster)) (int 0 + 1) initial_node = Inr (m, cfg)
     \<and> server_sockets (all_work 5) (all_work 6) (all_work 7) cfg = (calls, Inr (5, 6, 7))
     \<and> load_servers (storage_file remote_cluster) initial_coord = Inr c0
     \<and> accept_heartbeat (seen_address 5 calls) 9 0 c0 = Inr c0"
proof -
  obtain m cfg calls where
    s: "start_server (Some sample_coordinator_file) (Some (storage_file remote_cluster)) (int 0 + 1) initial_node = Inr (m, cfg)"
      "server_sockets (all_work 5) (all_work 6) (all_work 7) cfg = (calls, Inr (5, 6, 7))"
    using remote_start by blast
  have ok: "\<forall>s \<in> set remote_cluster. config_ok s" "distinct (concat (map addresses remote_cluster))"
      "distinct (map full_id remote_cluster)" "0 < length remote_cluster" "port_ok (sc_heartbeat (remote_cluster ! 0))"
      "\<forall>s \<in> set remote_cluster. sc_ip s \<noteq> ''127.0.0.1''"
    by (simp_all add: remote_cluster_def config_ok_def fits_int_def addresses_def address_def port_ok_def)
  from heartbeats_are_local [OF ok(1-5) s, of 9 0] obtain c0 where c0: "load_servers (storage_file remote_cluster) initial_coord = Inr c0"
    and seen: "seen_address 5 calls = ''127.0.0.1'' @ '':'' @ to_string (sc_heartbeat (remote_cluster ! 0))"
    and closed: "(\<forall>s \<in> set remote_cluster. seen_address 5 calls \<notin> set (addresses s)) \<longrightarrow> accept_heartbeat (seen_address 5 calls) 9 0 c0 = Inr c0"
    by blast
  have "\<forall>s \<in> set remote_cluster. seen_address 5 calls \<notin> set (addresses s)"
    using address_ip [of "''127.0.0.1''"] ok(1,6) unfolding seen addresses_def by (auto simp del: append.simps)
  with closed c0 s show ?thesis by blast
qed

text \<open>
  The sockets of the frontends are used whether or not \<open>bind\<close> and \<open>listen\<close> worked: a port that is
  taken is not noticed.
\<close>

theorem taken_port_unnoticed:
  "snd (bind_socket_and_listen S U port) = snd (bind_socket_and_listen (S\<lparr>sys_bind := b, sys_listen := l\<rparr>) U port)"
  "snd (mail_socket S r) = snd (mail_socket (S\<lparr>sys_bind := b, sys_listen := l\<rparr>) r)"
  by (simp_all add: bind_socket_and_listen_def mail_socket_def Let_def split: option.split)

end
