(* ===== verification/Command_Line.thy ===== *)
theory Command_Line
  imports Endpoints
begin

text \<open>
  The command lines of the processes (\<open>parse_cli\<close> of \<open>frontend/src/ioutils.cc\<close>, the \<open>main\<close>
  functions of \<open>backend/table.cpp\<close>, \<open>backend/coordinator.cpp\<close>, \<open>frontend/fserver.cc\<close>,
  \<open>frontend/loadbalancer.cc\<close> and \<open>frontend/smtp_server.cc\<close>): options and files in any order, and
  what each process does up to its loop.
\<close>

section \<open>getopt\<close>

text \<open>
  \<open>getopt\<close> of the GNU library: options may stand between the files, several letters in one
  word, an argument in the same word or the next one; a word \<open>--\<close> ends the options. At the end the
  words that were options stand before the files. \<open>takes_arg\<close> says of a letter whether it is an
  option and needs an argument.
\<close>

datatype opt_event = Opt char | Opt_arg char string | Bad_opt

fun opt_letters :: "(char \<Rightarrow> bool option) \<Rightarrow> string \<Rightarrow> opt_event list \<times> char option" where
  "opt_letters takes_arg [] = ([], None)"
| "opt_letters takes_arg (c # cs) =
     (case takes_arg c of
        Some True \<Rightarrow> if cs = [] then ([], Some c) else ([Opt_arg c cs], None)
      | r \<Rightarrow> (case opt_letters takes_arg cs of
                (es, p) \<Rightarrow> ((if r = None then Bad_opt else Opt c) # es, p)))"

definition is_option :: "string \<Rightarrow> bool" where
  "is_option w = (1 < length w \<and> hd w = CHR ''-'')"

fun getopt :: "(char \<Rightarrow> bool option) \<Rightarrow> string list \<Rightarrow> opt_event list \<times> string list \<times> string list" where
  "getopt takes_arg [] = ([], [], [])"
| "getopt takes_arg (w # ws) =
     (if w = ''--'' then ([], [w], ws)
      else if \<not> is_option w then
        (case getopt takes_arg ws of (es, os, fs) \<Rightarrow> (es, os, w # fs))
      else
        (case opt_letters takes_arg (tl w) of
           (es, None) \<Rightarrow> (case getopt takes_arg ws of (es', os, fs) \<Rightarrow> (es @ es', w # os, fs))
         | (es, Some c) \<Rightarrow>
             (case ws of
                [] \<Rightarrow> (es @ [Bad_opt], [w], [])
              | a # ws' \<Rightarrow> (case getopt takes_arg ws' of (es', os, fs) \<Rightarrow> (es @ Opt_arg c a # es', w # a # os, fs)))))"

section \<open>The frontends\<close>

record cli =
  cli_port :: "16 word"
  cli_verbose :: bool
  cli_config :: string
  cli_backend_config :: string

definition DEFAULT_PORT :: "16 word" where
  "DEFAULT_PORT = 2121"

definition cli_options :: "bool \<Rightarrow> char \<Rightarrow> bool option" where
  "cli_options with_port c =
     (if c = CHR ''p'' \<and> with_port then Some True
      else if c = CHR ''a'' \<or> c = CHR ''v'' then Some False else None)"

fun cli_event :: "opt_event \<Rightarrow> cli \<Rightarrow> exn + cli" where
  "cli_event (Opt_arg c s) x = Inr (x\<lparr>cli_port := word_of_int (atoi s)\<rparr>)"
| "cli_event (Opt c) x = (if c = CHR ''v'' then Inr (x\<lparr>cli_verbose := True\<rparr>) else Inl Process_exit)"
| "cli_event Bad_opt x = Inl Process_exit"

definition parse_cli :: "bool \<Rightarrow> bool \<Rightarrow> string list \<Rightarrow> exn + cli" where
  "parse_cli with_port with_backend args =
     (case getopt (cli_options with_port) args of (es, os, files) \<Rightarrow>
        ebind (efold cli_event es \<lparr>cli_port = DEFAULT_PORT, cli_verbose = False, cli_config = [], cli_backend_config = []\<rparr>) (\<lambda>x.
          if length files \<noteq> (if with_backend then 2 else 1) then Inl Process_exit
          else Inr (x\<lparr>cli_config := hd files, cli_backend_config := (if with_backend then last files else [])\<rparr>)))"

text \<open>
  \<open>main\<close> of the web server up to its accept loop: the balancer and the secret, the coordinator,
  and the sockets. The balancer listens on the port of its own configuration.
\<close>

record frontend_start =
  fs_cli :: cli
  fs_balancer :: sockaddr
  fs_secret :: string
  fs_coordinator :: sockaddr
  fs_sockets :: "int \<times> int option"
  fs_calls :: "sock_call list"

definition fserver_main :: "(string \<Rightarrow> string option) \<Rightarrow> sys \<Rightarrow> sys \<Rightarrow> string list \<Rightarrow> exn + frontend_start" where
  "fserver_main files S U args =
     ebind (parse_cli True True args) (\<lambda>x.
     ebind (load_config True (files (cli_config x))) (\<lambda>(lb, fsecret).
     ebind (load_config False (files (cli_backend_config x))) (\<lambda>(coord, _).
     case bind_socket_and_listen S (Some U) (cli_port x) of (calls, r) \<Rightarrow>
     ebind r (\<lambda>socks.
       Inr \<lparr>fs_cli = x, fs_balancer = lb, fs_secret = fsecret, fs_coordinator = coord, fs_sockets = socks, fs_calls = calls\<rparr>))))"

definition loadbalancer_main :: "(string \<Rightarrow> string option) \<Rightarrow> sys \<Rightarrow> sys \<Rightarrow> string list
    \<Rightarrow> exn + (sockaddr \<times> string \<times> (int \<times> int option) \<times> sock_call list)" where
  "loadbalancer_main files S U args =
     ebind (parse_cli False False args) (\<lambda>x.
     ebind (load_config True (files (cli_config x))) (\<lambda>(lb, fsecret).
     case bind_socket_and_listen S (Some U) (word_of_int (sin_port lb)) of (calls, r) \<Rightarrow>
     ebind r (\<lambda>socks. Inr (lb, fsecret, socks, calls))))"

text \<open>The mail server knows \<open>-v\<close> only, and ignores the rest.\<close>

definition v_only :: "char \<Rightarrow> bool option" where
  "v_only c = (if c = CHR ''v'' then Some False else None)"

definition smtp_main :: "sys \<Rightarrow> bool \<Rightarrow> string list \<Rightarrow> sock_call list \<times> (exn + bool \<times> int)" where
  "smtp_main S reuse_ok args =
     (let debug_mode = (Opt (CHR ''v'') \<in> set (fst (getopt v_only args)))
      in then_calls (mail_socket S reuse_ok) (\<lambda>fd. ([], Inr (debug_mode, fd))))"

section \<open>The backend\<close>

text \<open>
  A storage server counts the letters \<open>v\<close> and takes the words behind as many others; a word that
  is not there is a null pointer. \<open>argc\<close> is not looked at again after the options.
\<close>

definition storage_arguments :: "string list \<Rightarrow> exn + (string \<times> string \<times> int)" where
  "storage_arguments args =
     (if length args < 3 then Inl Process_exit
      else case getopt v_only args of (es, os, fs) \<Rightarrow>
        if Bad_opt \<in> set es then Inl Process_exit
        else let arg_i = length es; argv = os @ fs
             in ebind (vec_nth argv arg_i) (\<lambda>coord_filepath.
                ebind (vec_nth argv (arg_i + 1)) (\<lambda>config_filepath.
                ebind (vec_nth argv (arg_i + 2)) (\<lambda>server_idx.
                  Inr (coord_filepath, config_filepath, atoi server_idx)))))"

definition storage_main :: "(string \<Rightarrow> string option) \<Rightarrow> sys \<Rightarrow> sys \<Rightarrow> sys \<Rightarrow> string list \<Rightarrow> node
    \<Rightarrow> exn + (node \<times> net_config \<times> sock_call list \<times> int \<times> int \<times> int)" where
  "storage_main files S1 S2 S3 args n =
     ebind (storage_arguments args) (\<lambda>(coord_filepath, config_filepath, server_idx).
     ebind (start_server (files coord_filepath) (files config_filepath) server_idx n) (\<lambda>(m, cfg).
     case server_sockets S1 S2 S3 cfg of (calls, r) \<Rightarrow>
     ebind r (\<lambda>fds. Inr (m, cfg, calls, fds))))"

text \<open>The coordinator takes the first two files, the second only after it has read the first.\<close>

definition coordinator_main :: "(string \<Rightarrow> string option) \<Rightarrow> string list \<Rightarrow> exn + (coord_ports \<times> coord)" where
  "coordinator_main files args =
     (if length args < 2 then Inl Process_exit
      else case getopt v_only args of (es, os, fs) \<Rightarrow>
        if Bad_opt \<in> set es then Inl Process_exit
        else ebind (vec_nth fs 0) (\<lambda>server_file.
             ebind (open_file (files server_file)) (\<lambda>s.
             ebind (coordinator_ports s) (\<lambda>ports.
             ebind (vec_nth fs 1) (\<lambda>storage_file.
             ebind (open_file (files storage_file)) (\<lambda>t.
             ebind (load_servers t initial_coord) (\<lambda>c. Inr (ports, c))))))))"

section \<open>Lemmas\<close>

text \<open>Command lines whose only options are words \<open>-v\<close>.\<close>

definition simple_args :: "string list \<Rightarrow> bool" where
  "simple_args args = list_all (\<lambda>w. w = ''-v'' \<or> \<not> is_option w) args"

definition files_of :: "string list \<Rightarrow> string list" where
  "files_of args = filter (\<lambda>w. w \<noteq> ''-v'') args"

lemma getopt_simple:
  assumes "takes_arg (CHR ''v'') = Some False" and "simple_args args"
  shows "\<exists>k. getopt takes_arg args = (replicate k (Opt (CHR ''v'')), replicate k ''-v'', files_of args)"
  using assms(2)
proof (induction args)
  case (Cons w ws)
  from Cons.prems have ws: "simple_args ws" and w: "w = ''-v'' \<or> \<not> is_option w" by (simp_all add: simple_args_def)
  from Cons.IH [OF ws] obtain k where
    k: "getopt takes_arg ws = (replicate k (Opt (CHR ''v'')), replicate k ''-v'', files_of ws)" by blast
  show ?case
  proof (cases "w = ''-v''")
    case True
    then show ?thesis using k assms(1)
      by (intro exI [of _ "Suc k"]) (simp add: is_option_def files_of_def)
  next
    case False
    with w have "\<not> is_option w" "w \<noteq> ''--''" by (auto simp: is_option_def)
    with False k show ?thesis by (intro exI [of _ k]) (simp add: files_of_def)
  qed
qed (simp add: files_of_def)

lemma efold_verbose: "\<exists>b. efold cli_event (replicate k (Opt (CHR ''v''))) x = Inr (x\<lparr>cli_verbose := b\<rparr>)"
proof (induction k arbitrary: x)
  case 0
  then show ?case by (intro exI [of _ "cli_verbose x"]) simp
next
  case (Suc k)
  from Suc [of "x\<lparr>cli_verbose := True\<rparr>"] show ?case by simp
qed

section \<open>Properties\<close>

text \<open>
  The words \<open>-v\<close> may stand anywhere: storage server, coordinator and web server take the files in
  the order they are given.
\<close>

theorem options_anywhere:
  assumes "simple_args args"
  shows "files_of args = [a, b, i] \<Longrightarrow> storage_arguments args = Inr (a, b, atoi i)"
    and "files_of args = [a, b] \<Longrightarrow> coordinator_main files args = start_coordinator (files a) (files b)"
    and "files_of args = [a, b] \<Longrightarrow> \<exists>v. parse_cli True True args =
      Inr \<lparr>cli_port = DEFAULT_PORT, cli_verbose = v, cli_config = a, cli_backend_config = b\<rparr>"
proof -
  from getopt_simple [OF _ assms, of v_only] obtain k where
    k: "getopt v_only args = (replicate k (Opt (CHR ''v'')), replicate k ''-v'', files_of args)"
    by (auto simp: v_only_def)
  have len: "length (files_of args) \<le> length args" by (simp add: files_of_def)
  show "storage_arguments args = Inr (a, b, atoi i)" if "files_of args = [a, b, i]"
    using len that by (auto simp: storage_arguments_def k vec_nth_def nth_append)
  show "coordinator_main files args = start_coordinator (files a) (files b)" if "files_of args = [a, b]"
    using len that by (auto simp: coordinator_main_def k vec_nth_def start_coordinator_def)
  from getopt_simple [OF _ assms, of "cli_options True"] obtain j where
    j: "getopt (cli_options True) args = (replicate j (Opt (CHR ''v'')), replicate j ''-v'', files_of args)"
    by (auto simp: cli_options_def)
  obtain v where v: "efold cli_event (replicate j (Opt (CHR ''v'')))
      \<lparr>cli_port = DEFAULT_PORT, cli_verbose = False, cli_config = [], cli_backend_config = []\<rparr> =
      Inr \<lparr>cli_port = DEFAULT_PORT, cli_verbose = v, cli_config = [], cli_backend_config = []\<rparr>"
    using efold_verbose [of j "\<lparr>cli_port = DEFAULT_PORT, cli_verbose = False, cli_config = [], cli_backend_config = []\<rparr>"]
    by auto
  show "\<exists>v. parse_cli True True args =
      Inr \<lparr>cli_port = DEFAULT_PORT, cli_verbose = v, cli_config = a, cli_backend_config = b\<rparr>" if "files_of args = [a, b]"
    using that by (simp add: parse_cli_def j v)
qed

text \<open>
  The port of the web server is cut to 16 bits, wherever the number comes from: numbers that
  differ by 65536 are the same port.
\<close>

theorem port_wraps:
  assumes "fits_int p" and "\<not> is_option a" and "\<not> is_option b" and "a \<noteq> ''--''" and "b \<noteq> ''--''"
  shows "\<exists>x. parse_cli True True [''-p'', to_string p, a, b] = Inr x \<and> uint (cli_port x) = p mod 65536"
    and "\<exists>x. parse_cli True True [a, b, ''-p'' @ to_string p] = Inr x \<and> uint (cli_port x) = p mod 65536"
proof -
  have p: "atoi (to_string p) = p" using assms(1) by (simp add: fits_int_def atoi_to_string)
  have u: "uint (word_of_int p :: 16 word) = p mod 65536" by (simp add: unsigned_of_int take_bit_eq_mod)
  show "\<exists>x. parse_cli True True [''-p'', to_string p, a, b] = Inr x \<and> uint (cli_port x) = p mod 65536"
    using assms by (simp add: parse_cli_def is_option_def cli_options_def p u)
  show "\<exists>x. parse_cli True True [a, b, ''-p'' @ to_string p] = Inr x \<and> uint (cli_port x) = p mod 65536"
    using assms by (simp add: parse_cli_def is_option_def cli_options_def p u)
qed

text \<open>
  A storage server counts letters where it should count words: with \<open>-vv\<close> it takes the second file
  for the first, and the word behind the last.
\<close>

theorem grouped_options_misread:
  assumes "\<not> is_option a" and "\<not> is_option b" and "\<not> is_option i" and "a \<noteq> ''--''" and "b \<noteq> ''--''" and "i \<noteq> ''--''"
  shows "storage_arguments [''-vv'', a, b, i] = Inl Undefined_behaviour"
    and "\<not> is_option j \<Longrightarrow> j \<noteq> ''--'' \<Longrightarrow> storage_arguments [''-vv'', a, b, i, j] = Inr (b, i, atoi j)"
proof -
  have v: "opt_letters v_only ''vv'' = ([Opt (CHR ''v''), Opt (CHR ''v'')], None)" by (simp add: v_only_def)
  show "storage_arguments [''-vv'', a, b, i] = Inl Undefined_behaviour"
    using assms by (simp add: storage_arguments_def is_option_def [of "''-vv''"] v vec_nth_def del: opt_letters.simps)
  show "storage_arguments [''-vv'', a, b, i, j] = Inr (b, i, atoi j)" if "\<not> is_option j" "j \<noteq> ''--''"
    using assms that by (simp add: storage_arguments_def is_option_def [of "''-vv''"] v vec_nth_def del: opt_letters.simps)
qed

text \<open>What a started server has read of the coordinator's file.\<close>

lemma populate_keeps_addresses:
  assumes "populate_addresses f i s = Inr s'"
  shows "heartbeat_addr (snd s') = heartbeat_addr (snd s) \<and> comm_addr (snd s') = comm_addr (snd s)"
proof -
  from assms obtain t where "efold (populate_line i) t s = Inr s'"
    by (auto simp: populate_addresses_def elim!: ebind_InrE)
  then show ?thesis
    by (rule efold_invariant [where P = "\<lambda>x. heartbeat_addr (snd x) = heartbeat_addr (snd s) \<and> comm_addr (snd x) = comm_addr (snd s)", rotated 2])
       (auto simp: populate_line_def own_line_def other_line_def Let_def split: if_splits prod.splits elim!: ebind_InrE)
qed

lemma start_server_addresses:
  assumes "start_server f g i n = Inr (m, cfg)" and "coord_addresses f no_config = Inr cfg0"
  shows "heartbeat_addr cfg = heartbeat_addr cfg0" and "comm_addr cfg = comm_addr cfg0"
proof -
  from assms obtain n1 where "populate_addresses g i (n, cfg0) = Inr (n1, cfg)"
    by (auto simp: start_server_def elim!: ebind_InrE)
  from populate_keeps_addresses [OF this]
  show "heartbeat_addr cfg = heartbeat_addr cfg0" "comm_addr cfg = comm_addr cfg0" by simp_all
qed

lemma connect_port_connects:
  assumes "create_connect_socket_port S addr local_ip local_port = (calls, Inr fd)" and "IP_port addr = (ip, port)"
    and "port_ok port"
  shows "Connect fd \<lparr>sin_addr = ip, sin_port = port\<rparr> \<in> set calls"
  using assms by (auto simp: create_connect_socket_port_def connect_fd_def Let_def htons_def port_ok_def split: if_splits)

lemma listen_port_bound:
  assumes "create_listen_socket S port k = (calls, Inr (fd, p))" and "port_ok port"
  shows "Bind fd \<lparr>sin_addr = INADDR_ANY, sin_port = port\<rparr> \<in> set calls"
  using assms by (auto simp: create_listen_socket_def Let_def htons_def port_ok_def split: if_splits)

text \<open>Which files a command line names, whatever its options are.\<close>

lemma storage_files_read:
  assumes "getopt v_only args = (es, os, [a, b, i])" and "length es = length os" and "storage_arguments args = Inr r"
  shows "r = (a, b, atoi i)"
  using assms by (auto simp: storage_arguments_def vec_nth_def nth_append split: if_splits)

lemma coordinator_files_read:
  assumes "getopt v_only args = (es, os, [a, b])" and "coordinator_main files args = Inr r"
  shows "start_coordinator (files a) (files b) = Inr r"
  using assms by (simp add: coordinator_main_def vec_nth_def start_coordinator_def split: if_splits)

lemma cli_files_read:
  assumes "getopt (cli_options True) args = (es, os, [a, b])" and "parse_cli True True args = Inr x"
  shows "cli_config x = a" and "cli_backend_config x = b"
  using assms by (auto simp: parse_cli_def elim!: ebind_InrE)

text \<open>
  C23: started with any options and with the same files in their command lines, the processes
  meet, when each gets past its start: a storage server connects its heartbeats and its messages
  to the address and the ports the coordinator has bound for them, and the web server takes for
  the coordinator the address and port that are bound for frontends. The words of options may
  stand anywhere; only for the storage server they must be as many as the letters in them.
\<close>

theorem processes_connect:
  assumes "inet_pton_ok ip" and "port_ok fp" and "port_ok hb" and "port_ok cm"
    and "files cf = Some (coordinator_line ip fp hb cm)"
    and "getopt v_only sargs = (ses, sos, [cf, sf, i])" and "length ses = length sos"
    and "getopt v_only cargs = (ces, cos, [cf, sf])"
    and "getopt (cli_options True) fargs = (fes, fos, [lf, cf])"
    and "storage_main files S1 S2 S3 sargs n = Inr (m, cfg, calls, h, k, l)"
    and "coordinator_main files cargs = Inr (ports, c)"
    and "storage_sockets T1 T2 ports = (ccalls, Inr (th, tk))" and "frontend_socket T3 ports = (fcalls, Inr tf)"
    and "fserver_main files U V fargs = Inr fs"
  shows "Connect h \<lparr>sin_addr = ip, sin_port = hb\<rparr> \<in> set calls \<and> Bind th \<lparr>sin_addr = INADDR_ANY, sin_port = hb\<rparr> \<in> set ccalls
    \<and> Connect k \<lparr>sin_addr = ip, sin_port = cm\<rparr> \<in> set calls \<and> Bind tk \<lparr>sin_addr = INADDR_ANY, sin_port = cm\<rparr> \<in> set ccalls
    \<and> fs_coordinator fs = \<lparr>sin_addr = ip, sin_port = fp\<rparr> \<and> Bind tf \<lparr>sin_addr = ip, sin_port = fp\<rparr> \<in> set fcalls"
proof -
  obtain cfg0 where 0: "coord_addresses (files cf) no_config = Inr cfg0"
    and addr: "IP_port (heartbeat_addr cfg0) = (ip, hb)" "IP_port (comm_addr cfg0) = (ip, cm)"
    and ports: "coordinator_ports (coordinator_line ip fp hb cm) =
        Inr \<lparr>server_ip = ip, frontend_port = fp, storage_heartbeat_port = hb, storage_comm_port = cm\<rparr>"
    and load: "load_config False (files cf) = Inr (\<lparr>sin_addr = ip, sin_port = fp\<rparr>, [])"
    using addresses_agree [OF assms(1-4) refl disjI1 [OF refl]] assms(5) by auto
  from assms(10) obtain r where r: "storage_arguments sargs = Inr r" by (auto simp: storage_main_def elim!: ebind_InrE)
  with storage_files_read [OF assms(6,7)] have "storage_arguments sargs = Inr (cf, sf, atoi i)" by simp
  with assms(10) have start: "start_server (files cf) (files sf) (atoi i) n = Inr (m, cfg)"
    and sock: "server_sockets S1 S2 S3 cfg = (calls, Inr (h, k, l))"
    by (auto simp: storage_main_def elim!: ebind_InrE split: prod.splits)
  note cfg = start_server_addresses [OF start 0]
  from sock obtain c1 c2 c3 where "calls = c1 @ c2 @ c3"
    and "create_connect_socket_port S1 (heartbeat_addr cfg) ''127.0.0.1'' (heartbeat_port cfg) = (c1, Inr h)"
    and "create_connect_socket_port S2 (comm_addr cfg) ''127.0.0.1'' (comm_port cfg) = (c2, Inr k)"
    unfolding server_sockets_def by (elim then_calls_Inr) (auto split: prod.splits)
  then have server: "Connect h \<lparr>sin_addr = ip, sin_port = hb\<rparr> \<in> set calls" "Connect k \<lparr>sin_addr = ip, sin_port = cm\<rparr> \<in> set calls"
    using connect_port_connects addr assms(3,4) by (auto simp: cfg)
  from coordinator_files_read [OF assms(8,11)] have p: "ports = \<lparr>server_ip = ip, frontend_port = fp, storage_heartbeat_port = hb, storage_comm_port = cm\<rparr>"
    using ports assms(5) by (auto simp: start_coordinator_def open_file_def elim!: ebind_InrE)
  from assms(12) obtain d1 e x y where "ccalls = d1 @ e"
    and "create_listen_socket T1 hb storage_max_connections = (d1, Inr (x, y))"
    and e: "then_calls (create_listen_socket T2 cm storage_max_connections) (\<lambda>(cm, q). ([], Inr (x, cm))) = (e, Inr (th, tk))"
    unfolding storage_sockets_def p by (elim then_calls_Inr) (auto split: prod.splits)
  moreover from e obtain d2 d3 z where "e = d2 @ d3" "x = th"
    "create_listen_socket T2 cm storage_max_connections = (d2, Inr (tk, z))"
    by (elim then_calls_Inr) (auto split: prod.splits)
  ultimately have "ccalls = d1 @ d2 @ d3" "create_listen_socket T1 hb storage_max_connections = (d1, Inr (th, y))"
    "create_listen_socket T2 cm storage_max_connections = (d2, Inr (tk, z))" by simp_all
  then have bound: "Bind th \<lparr>sin_addr = INADDR_ANY, sin_port = hb\<rparr> \<in> set ccalls" "Bind tk \<lparr>sin_addr = INADDR_ANY, sin_port = cm\<rparr> \<in> set ccalls"
    using listen_port_bound assms(3,4) by auto
  have front: "Bind tf \<lparr>sin_addr = ip, sin_port = fp\<rparr> \<in> set fcalls"
    using assms(1,2,13) by (auto simp: frontend_socket_def p Let_def inet_addr_def htons_def port_ok_def split: if_splits)
  from assms(14) obtain x where x: "parse_cli True True fargs = Inr x" by (auto simp: fserver_main_def elim!: ebind_InrE)
  with cli_files_read [OF assms(9) x] assms(14) load have "fs_coordinator fs = \<lparr>sin_addr = ip, sin_port = fp\<rparr>"
    by (auto simp: fserver_main_def elim!: ebind_InrE split: prod.splits)
  with server bound front show ?thesis by simp
qed

definition sample_files :: "string \<Rightarrow> string option" where
  "sample_files f =
     (if f = ''c'' then Some sample_coordinator_file
      else if f = ''s'' then Some (storage_file sample_cluster)
      else Some (sample_coordinator_file @ newline # ''secret''))"

lemma full_id_heartbeat:
  assumes "full_id s = full_id t" and "config_ok s" and "config_ok t"
  shows "sc_heartbeat s = sc_heartbeat t"
  using split_full_id [OF assms(2)] split_full_id [OF assms(3)] by (simp add: assms(1))

definition sample_fargs :: "string list" where
  "sample_fargs = [''-v'', ''-p'', ''8000'', ''l'', ''c'']"

lemma sample_fargs: "getopt (cli_options True) sample_fargs =
    ([Opt (CHR ''v''), Opt_arg (CHR ''p'') ''8000''], [''-v'', ''-p'', ''8000''], [''l'', ''c''])"
  by code_simp

lemma sample_mains:
  "\<exists>m cfg calls. storage_main sample_files (all_work 5) (all_work 6) (all_work 7) [''c'', ''-v'', ''s'', ''1''] initial_node
      = Inr (m, cfg, calls, 5, 6, 7)"
  "\<exists>ports c. coordinator_main sample_files [''-v'', ''c'', ''s''] = Inr (ports, c)"
  "\<exists>fs. fserver_main sample_files (all_work 3) (all_work 4) sample_fargs = Inr fs"
  "\<exists>calls. storage_sockets (all_work 8) (all_work 9) ports = (calls, Inr (8, 9))"
  "\<exists>calls. frontend_socket (all_work 10) ports = (calls, Inr 10)"
proof -
  have ports: "port_ok 5001" "port_ok 5002" "port_ok 5003" by (simp_all add: port_ok_def)
  note agree = addresses_agree [OF local_ip ports refl disjI1 [OF refl]]
  obtain m cfg where m: "start_server (Some sample_coordinator_file) (Some (storage_file sample_cluster)) 1 initial_node = Inr (m, cfg)"
    using sample_start [of 0] by auto
  obtain cfg0 where 0: "coord_addresses (Some sample_coordinator_file) no_config = Inr cfg0"
    and ip: "IP_port (heartbeat_addr cfg0) = (''127.0.0.1'', 5002)" "IP_port (comm_addr cfg0) = (''127.0.0.1'', 5003)"
    using agree by (auto simp: sample_coordinator_file_def)
  obtain calls where "server_sockets (all_work 5) (all_work 6) (all_work 7) cfg = (calls, Inr (5, 6, 7))"
    using all_work_sockets [OF local_ip, of cfg] ip start_server_addresses [OF m 0] by fastforce
  moreover have "atoi ''1'' = 1" by code_simp
  moreover have "storage_arguments [''c'', ''-v'', ''s'', ''1''] = Inr (''c'', ''s'', atoi ''1'')"
    by (rule options_anywhere(1)) (simp_all add: simple_args_def files_of_def is_option_def)
  ultimately show "\<exists>m cfg calls. storage_main sample_files (all_work 5) (all_work 6) (all_work 7) [''c'', ''-v'', ''s'', ''1''] initial_node
      = Inr (m, cfg, calls, 5, 6, 7)"
    using m by (simp add: storage_main_def sample_files_def)
  have c: "coordinator_main sample_files [''-v'', ''c'', ''s''] = start_coordinator (sample_files ''c'') (sample_files ''s'')"
    by (rule options_anywhere(2)) (simp_all add: simple_args_def files_of_def is_option_def)
  have ok: "\<forall>s \<in> set sample_cluster. config_ok s" using sample_cluster_ok(1) by simp
  have names: "distinct (concat (map addresses sample_cluster))"
    by (simp add: sample_cluster_def addresses_def address_def)
  have "inj_on full_id (set sample_cluster)"
    using ok by (auto simp: inj_on_def sample_cluster_def dest!: full_id_heartbeat)
  then have ids: "distinct (map full_id sample_cluster)" by (simp add: distinct_map sample_cluster_def)
  obtain c0 where "load_servers (storage_file sample_cluster) initial_coord = Inr c0"
    using storage_file_loaded [OF ok names ids, of 0] unfolding storage_file_def by blast
  then show "\<exists>ports c. coordinator_main sample_files [''-v'', ''c'', ''s''] = Inr (ports, c)"
    unfolding c using agree by (simp add: start_coordinator_def sample_files_def open_file_def sample_coordinator_file_def)
  have "\<exists>x. parse_cli True True sample_fargs = Inr x \<and> cli_config x = ''l'' \<and> cli_backend_config x = ''c''"
    by (simp add: parse_cli_def sample_fargs)
  then obtain x where x: "parse_cli True True sample_fargs = Inr x" "cli_config x = ''l''" "cli_backend_config x = ''c''" by blast
  moreover have "split (sample_coordinator_file @ newline # ''secret'') newline = [sample_coordinator_file, ''secret'']"
  proof -
    have "newline \<notin> set sample_coordinator_file"
      unfolding sample_coordinator_file_def by (rule split_tokens [of _ "coordinator_line ''127.0.0.1'' 5001 5002 5003"]) (simp add: coordinator_line_split(2) [OF local_ip])
    then show ?thesis by (simp add: split_no_delim)
  qed
  ultimately show "\<exists>fs. fserver_main sample_files (all_work 3) (all_work 4) sample_fargs = Inr fs"
    using agree x by (simp add: fserver_main_def sample_files_def load_config_def [of True] open_file_def
        bind_socket_and_listen_def all_work_def Let_def sample_coordinator_file_def)
  show "\<exists>calls. storage_sockets (all_work 8) (all_work 9) ports = (calls, Inr (8, 9))"
    "\<exists>calls. frontend_socket (all_work 10) ports = (calls, Inr 10)"
    by (simp_all add: storage_sockets_def create_listen_socket_def all_work_def then_calls_def frontend_socket_def Let_def)
qed

theorem processes_connect_witness:
  "\<exists>m cfg calls. storage_main sample_files (all_work 5) (all_work 6) (all_work 7) [''c'', ''-v'', ''s'', ''1''] initial_node
      = Inr (m, cfg, calls, 5, 6, 7)
    \<and> Connect 5 \<lparr>sin_addr = ''127.0.0.1'', sin_port = 5002\<rparr> \<in> set calls"
proof -
  have ports: "port_ok 5001" "port_ok 5002" "port_ok 5003" by (simp_all add: port_ok_def)
  have args: "getopt v_only [''c'', ''-v'', ''s'', ''1''] = ([Opt (CHR ''v'')], [''-v''], [''c'', ''s'', ''1''])"
    "length [Opt (CHR ''v'')] = length [''-v'']"
    "getopt v_only [''-v'', ''c'', ''s''] = ([Opt (CHR ''v'')], [''-v''], [''c'', ''s''])"
    by code_simp+
  have f: "sample_files ''c'' = Some (coordinator_line ''127.0.0.1'' 5001 5002 5003)"
    by (simp add: sample_files_def sample_coordinator_file_def)
  obtain m cfg calls where m: "storage_main sample_files (all_work 5) (all_work 6) (all_work 7) [''c'', ''-v'', ''s'', ''1''] initial_node
      = Inr (m, cfg, calls, 5, 6, 7)" using sample_mains(1) by blast
  obtain ports c where c: "coordinator_main sample_files [''-v'', ''c'', ''s''] = Inr (ports, c)" using sample_mains(2) by blast
  obtain fs where fs: "fserver_main sample_files (all_work 3) (all_work 4) sample_fargs = Inr fs" using sample_mains(3) by blast
  obtain cc where cc: "storage_sockets (all_work 8) (all_work 9) ports = (cc, Inr (8, 9))" using sample_mains(4) by blast
  obtain fc where fc: "frontend_socket (all_work 10) ports = (fc, Inr 10)" using sample_mains(5) by blast
  from processes_connect [OF local_ip ports f args sample_fargs m c cc fc fs] m show ?thesis by blast
qed

end
