(* ===== verification/Sockets.thy ===== *)
theory Sockets
  imports Cpp_String "HOL-Library.Word"
begin

text \<open>
  The loops around \<open>write\<close> and \<open>recv\<close>: \<open>do_write_backend\<close> (\<open>backend/src/utils.cpp\<close>), the two \<open>do_write\<close>
  (\<open>frontend/src/message.cc\<close> and \<open>frontend/smtp_server.cc\<close>), \<open>send_response\<close> and \<open>write_status\<close>
  (\<open>frontend/src/ioutils.cc\<close>), \<open>readline\<close> (\<open>frontend/src/chunk.cc\<close>). The system's part is a list of
  answers: what the successive calls return, -1 for a failure and otherwise the number of bytes it
  took, at most as many as were offered.
\<close>

section \<open>Writing\<close>

text \<open>
  The results have the bytes that went out and what the call returned, \<open>None\<close> when the answers end
  first: the call waits. \<open>do_write\<close> of \<open>message.cc\<close> counts in an \<open>unsigned long\<close>.
\<close>

primrec msg_loop :: "int list \<Rightarrow> string \<Rightarrow> nat \<Rightarrow> string \<times> bool option" where
  "msg_loop [] buf sent = ([], if sent < length buf then None else Some True)"
| "msg_loop (n # ns) buf sent =
     (if length buf \<le> sent then ([], Some True)
      else if n < 0 then ([], Some False)
      else case msg_loop ns buf (sent + nat n) of
             (bytes, r) \<Rightarrow> (take (nat n) (drop sent buf) @ bytes, r))"

definition do_write :: "int list \<Rightarrow> string \<Rightarrow> string \<times> bool option" where
  "do_write ns buf = msg_loop ns buf 0"

text \<open>
  \<open>do_write_backend\<close> and \<open>do_write\<close> of the mail server are told the length, and keep it and the
  count in an \<open>int\<close>; their callers pass a \<open>size_t\<close>, which is cut to 32 bits with a sign
  (\<open>int_of_size\<close>). \<open>do_write_backend\<close> returns nothing; its failure is the close of the descriptor.
\<close>

definition int_of_size :: "nat \<Rightarrow> int" where
  "int_of_size n = sint (of_nat n :: 32 word)"

primrec write_loop :: "int list \<Rightarrow> string \<Rightarrow> int \<Rightarrow> int \<Rightarrow> string \<times> bool option" where
  "write_loop [] buf len sent = ([], if sent < len then None else Some True)"
| "write_loop (n # ns) buf len sent =
     (if len \<le> sent then ([], Some True)
      else if n < 0 then ([], Some False)
      else case write_loop ns buf len (sent + n) of
             (bytes, r) \<Rightarrow> (take (nat n) (drop (nat sent) buf) @ bytes, r))"

definition do_write_len :: "int list \<Rightarrow> string \<Rightarrow> int \<Rightarrow> string \<times> bool option" where
  "do_write_len ns buf len = write_loop ns buf len 0"

text \<open>
  \<open>send_response\<close> keeps both the count and the answer in a \<open>size_t\<close>: a failure is not negative
  there, and is added. The text ends at its first zero byte.
\<close>

primrec send_loop :: "int list \<Rightarrow> string \<Rightarrow> 64 word \<Rightarrow> string \<times> bool option" where
  "send_loop [] response sent = ([], if sent < of_nat (length response) then None else Some True)"
| "send_loop (n # ns) response sent =
     (if of_nat (length response) \<le> sent then ([], Some True)
      else case send_loop ns response (sent + word_of_int n) of
             (bytes, r) \<Rightarrow> ((if n < 0 then [] else take (nat n) (drop (unat sent) response)) @ bytes, r))"

definition send_response :: "int list \<Rightarrow> string \<Rightarrow> string \<times> bool option" where
  "send_response ns response = send_loop ns (takeWhile (\<lambda>c. c \<noteq> CHR 0x00) response) 0"

text \<open>One \<open>write\<close> for the text and one for the line end; less than one byte ends the process.\<close>

definition write_status :: "int \<Rightarrow> int \<Rightarrow> string \<Rightarrow> string \<times> bool" where
  "write_status n1 n2 msg =
     (if n1 < 1 then ([], False)
      else if n2 < 1 then (take (nat n1) msg, False)
      else (take (nat n1) msg @ take (nat n2) [CHR 0x0D, CHR 0x0A], True))"

section \<open>Reading a line\<close>

text \<open>The line with its end, and the bytes left; the byte after a carriage return is looked at first.\<close>

fun readline :: "string \<Rightarrow> string \<times> string" where
  "readline [] = ([], [])"
| "readline [c] = ([c], [])"
| "readline (c # d # s) =
     (if c = CHR 0x0D \<and> d = CHR 0x0A then ([c, d], s)
      else case readline (d # s) of (line, rest) \<Rightarrow> (c # line, rest))"

section \<open>Lemmas\<close>

text \<open>The answers respect the sizes asked for.\<close>

primrec answers_ok :: "int list \<Rightarrow> nat \<Rightarrow> bool" where
  "answers_ok [] k = True"
| "answers_ok (n # ns) k = (n \<le> int k \<and> answers_ok ns (k - nat n))"

lemma msg_loop_prefix:
  "sent \<le> length buf \<Longrightarrow> answers_ok ns (length buf - sent) \<Longrightarrow>
   prefix (fst (msg_loop ns buf sent)) (drop sent buf)
   \<and> (snd (msg_loop ns buf sent) = Some True \<longrightarrow> fst (msg_loop ns buf sent) = drop sent buf)"
proof (induction ns arbitrary: sent)
  case (Cons n ns)
  show ?case
  proof (cases "length buf \<le> sent \<or> n < 0")
    case True
    then show ?thesis using Cons.prems by auto
  next
    case False
    define k where "k = sent + nat n"
    have k: "k \<le> length buf" "answers_ok ns (length buf - k)" using Cons.prems False by (auto simp: k_def)
    obtain bytes r where run: "msg_loop ns buf k = (bytes, r)" by fastforce
    have "drop sent buf = take (nat n) (drop sent buf) @ drop k buf"
      using append_take_drop_id [of "nat n" "drop sent buf"] by (simp add: k_def add.commute)
    with Cons.IH [OF k] run False show ?thesis
      by (simp add: k_def [symmetric]) (metis append_take_drop_id same_prefix_prefix same_append_eq)
  qed
qed simp

lemma msg_loop_ends:
  "(\<forall>n \<in> set ns. 0 \<le> n) \<Longrightarrow> length buf \<le> sent + nat (sum_list ns) \<Longrightarrow> snd (msg_loop ns buf sent) = Some True"
proof (induction ns arbitrary: sent)
  case (Cons n ns)
  have "0 \<le> sum_list ns" using Cons.prems(1) by (intro sum_list_nonneg) simp
  with Cons.prems have "length buf \<le> sent + nat n + nat (sum_list ns)" by (simp add: nat_add_distrib)
  with Cons.IH [of "sent + nat n"] Cons.prems(1) show ?case by (simp add: case_prod_unfold)
qed simp

lemma unat_small: "k < 2 ^ 63 \<Longrightarrow> unat (of_nat k :: 64 word) = k"
  by (simp add: unat_of_nat)

lemma send_loop_msg_loop:
  "(\<forall>n \<in> set ns. 0 \<le> n) \<Longrightarrow> length buf < 2 ^ 63 \<Longrightarrow> sent \<le> length buf \<Longrightarrow> answers_ok ns (length buf - sent) \<Longrightarrow>
   send_loop ns buf (of_nat sent) = msg_loop ns buf sent"
proof (induction ns arbitrary: sent)
  case Nil
  then show ?case by (simp add: word_less_nat_alt unat_small)
next
  case (Cons n ns)
  have le: "of_nat (length buf) \<le> (of_nat sent :: 64 word) \<longleftrightarrow> length buf \<le> sent"
    using Cons.prems by (simp add: word_le_nat_alt unat_small)
  have u: "unat (of_nat sent :: 64 word) = sent" using Cons.prems by (simp add: unat_small)
  have n: "(of_nat sent :: 64 word) + word_of_int n = of_nat (sent + nat n)"
  proof -
    from Cons.prems(1) obtain m where "n = int m" using nonneg_int_cases [of n] by auto
    then show ?thesis by simp
  qed
  show ?case
  proof (cases "length buf \<le> sent")
    case True
    then show ?thesis by (simp add: le)
  next
    case False
    have "send_loop ns buf (of_nat (sent + nat n)) = msg_loop ns buf (sent + nat n)"
      using Cons.prems False by (intro Cons.IH) auto
    then show ?thesis using False Cons.prems(1) by (simp add: le n u del: of_nat_add)
  qed
qed


lemma msg_loop_all:
  assumes "\<forall>n \<in> set ns. 0 \<le> n" and "answers_ok ns (length buf - sent)" and "length buf \<le> sent + nat (sum_list ns)"
    and "sent \<le> length buf"
  shows "msg_loop ns buf sent = (drop sent buf, Some True)"
  using msg_loop_prefix [OF assms(4,2)] msg_loop_ends [OF assms(1,3)] by (simp add: prod_eq_iff)

lemma send_loop_append:
  "(\<forall>n \<in> set ns. 0 \<le> n) \<Longrightarrow> length buf < 2 ^ 63 \<Longrightarrow> sent + nat (sum_list ns) < length buf \<Longrightarrow>
   send_loop (ns @ ms) buf (of_nat sent) =
     (case send_loop ms buf (of_nat (sent + nat (sum_list ns))) of
        (bytes, r) \<Rightarrow> (take (nat (sum_list ns)) (drop sent buf) @ bytes, r))"
proof (induction ns arbitrary: sent)
  case (Cons n ns)
  obtain m where n: "n = int m" using Cons.prems(1) nonneg_int_cases [of n] by auto
  have "0 \<le> sum_list ns" using Cons.prems(1) by (intro sum_list_nonneg) simp
  then obtain k where k: "sum_list ns = int k" using nonneg_int_cases by blast
  have sum: "nat (sum_list (int m # ns)) = m + k" by (simp add: k flip: of_nat_add)
  have IH: "send_loop (ns @ ms) buf (of_nat (sent + m)) =
      (case send_loop ms buf (of_nat (sent + m + k)) of (bytes, r) \<Rightarrow> (take k (drop (sent + m) buf) @ bytes, r))"
  proof -
    have "sent + m + nat (sum_list ns) < length buf" using Cons.prems(3) sum by (simp add: n k)
    with Cons.IH [of "sent + m"] Cons.prems(1,2) show ?thesis by (simp add: k)
  qed
  have le: "\<not> of_nat (length buf) \<le> (of_nat sent :: 64 word)"
    using Cons.prems by (simp add: word_le_nat_alt unat_small)
  have u: "unat (of_nat sent :: 64 word) = sent" using Cons.prems by (simp add: unat_small)
  have cut: "take (m + k) (drop sent buf) = take m (drop sent buf) @ take k (drop (sent + m) buf)"
    unfolding take_add drop_drop by (simp only: add.commute)
  show ?case
    by (simp only: append_Cons send_loop.simps le if_False n of_int_of_nat_eq of_nat_add [symmetric] IH u sum)
      (simp add: cut add.assoc case_prod_unfold)
qed (simp split: prod.split)

lemma int_of_size_small: "n < 2 ^ 31 \<Longrightarrow> int_of_size n = int n"
  by (simp add: int_of_size_def signed_of_nat signed_take_bit_int_eq_self)

lemma int_of_size_large: "2 ^ 31 \<le> n \<Longrightarrow> n < 2 ^ 32 \<Longrightarrow> int_of_size n = int n - 2 ^ 32"
proof -
  assume n: "2 ^ 31 \<le> n" "n < 2 ^ 32"
  have "int n + 2 ^ 31 = (int n - 2 ^ 31) + 2 ^ 32" by simp
  then have "(int n + 2 ^ 31) mod 2 ^ 32 = (int n - 2 ^ 31) mod 2 ^ 32" by (simp only: mod_add_self2)
  also have "\<dots> = int n - 2 ^ 31" using n by (intro mod_pos_pos_trivial) auto
  finally have "signed_take_bit 31 (int n) = int n - 2 ^ 32"
    by (simp add: signed_take_bit_eq_take_bit_shift take_bit_eq_mod)
  then show ?thesis by (simp add: int_of_size_def signed_of_nat)
qed

lemma write_loop_msg_loop: "write_loop ns buf (int (length buf)) (int k) = msg_loop ns buf k"
proof (induction ns arbitrary: k)
  case (Cons n ns)
  show ?case
  proof (cases "n < 0")
    case False
    then obtain m where "n = int m" using nonneg_int_cases [of n] by auto
    with Cons.IH [of "k + m"] show ?thesis by simp
  qed simp
qed simp

section \<open>Properties\<close>

text \<open>
  C29: when no \<open>write\<close> fails, the text goes out in order and once, however little each call
  takes: with \<open>do_write\<close> of \<open>message.cc\<close> always; with \<open>send_response\<close> up to the first zero byte;
  with \<open>do_write_backend\<close> and \<open>do_write\<close> of the mail server for fewer than 2147483648 bytes. From
  there on the length is a negative \<open>int\<close>: nothing is sent, and the call succeeds.
\<close>

theorem writes_everything:
  assumes "answers_ok ns (length buf)" and "\<forall>n \<in> set ns. 0 \<le> n" and "length buf \<le> nat (sum_list ns)"
    and "length buf < 2 ^ 63"
  shows "do_write ns buf = (buf, Some True)
    \<and> (CHR 0x00 \<notin> set buf \<longrightarrow> send_response ns buf = (buf, Some True)
         \<and> send_response ns (buf @ CHR 0x00 # rest) = (buf, Some True))
    \<and> (length buf < 2 ^ 31 \<longrightarrow> do_write_len ns buf (int_of_size (length buf)) = (buf, Some True))
    \<and> (2 ^ 31 \<le> length buf \<and> length buf < 2 ^ 32 \<longrightarrow> do_write_len ns buf (int_of_size (length buf)) = ([], Some True))"
proof (intro conjI impI)
  have m: "msg_loop ns buf 0 = (buf, Some True)" using msg_loop_all [of ns buf 0] assms by simp
  then show "do_write ns buf = (buf, Some True)" by (simp add: do_write_def)
  have s: "send_loop ns buf 0 = (buf, Some True)" using send_loop_msg_loop [OF assms(2,4), of 0] assms(1) m by simp
  show "send_response ns buf = (buf, Some True)" if "CHR 0x00 \<notin> set buf"
    using s that by (simp add: send_response_def takeWhile_eq_all_conv [THEN iffD2])
  show "send_response ns (buf @ CHR 0x00 # rest) = (buf, Some True)" if "CHR 0x00 \<notin> set buf"
  proof -
    have "takeWhile (\<lambda>c. c \<noteq> CHR 0x00) (buf @ CHR 0x00 # rest) = buf" using that by (subst takeWhile_append2) auto
    with s show ?thesis by (simp add: send_response_def)
  qed
  show "do_write_len ns buf (int_of_size (length buf)) = (buf, Some True)" if "length buf < 2 ^ 31"
    using write_loop_msg_loop [of ns buf 0] m that by (simp add: do_write_len_def int_of_size_small)
  show "do_write_len ns buf (int_of_size (length buf)) = ([], Some True)" if "2 ^ 31 \<le> length buf \<and> length buf < 2 ^ 32"
    using that by (cases ns) (simp_all add: do_write_len_def int_of_size_large)
qed

theorem writes_everything_witness:
  "do_write [2, 0, 3] ''hello'' = (''hello'', Some True) \<and> do_write_len [2, 0, 3] ''hello'' 5 = (''hello'', Some True)
    \<and> send_response [2, 0, 3] (''hello'' @ CHR 0x00 # ''world'') = (''hello'', Some True)"
proof -
  have "int_of_size (length ''hello'') = 5" using int_of_size_small [of "length ''hello''"] by simp
  with writes_everything [of "[2, 0, 3]" "''hello''" "''world''"] show ?thesis by simp
qed

text \<open>
  a failed write is not seen by \<open>send_response\<close>: the first one ends it as if all had been sent,
  and a later one makes it send a byte twice.
\<close>

theorem failed_write_repeats_byte:
  assumes "\<forall>n \<in> set ns. 0 \<le> n" and "\<forall>n \<in> set ms. 0 \<le> n" and "sum_list ns = int k" and "k < length buf"
    and "length buf < 2 ^ 63" and "CHR 0x00 \<notin> set buf"
    and "answers_ok ms (length buf - (k - 1))" and "length buf - (k - 1) \<le> nat (sum_list ms)"
  shows "send_response (ns @ -1 # ms) buf =
    (if k = 0 then ([], Some True) else (take k buf @ drop (k - 1) buf, Some True))"
proof -
  have buf: "takeWhile (\<lambda>c. c \<noteq> CHR 0x00) buf = buf" using assms(6) by (simp add: takeWhile_eq_all_conv)
  have le: "\<not> of_nat (length buf) \<le> (of_nat k :: 64 word)"
    using assms(4,5) by (simp add: word_le_nat_alt unat_small)
  have split: "send_response (ns @ -1 # ms) buf =
      (case send_loop (-1 # ms) buf (of_nat k) of (bytes, r) \<Rightarrow> (take k buf @ bytes, r))"
    using send_loop_append [OF assms(1,5), of 0 "-1 # ms"] assms(3,4) by (simp add: send_response_def buf del: send_loop.simps)
  show ?thesis
  proof (cases "k = 0")
    case True
    have "send_loop ms buf (-1) = ([], Some True)"
      using assms(5) by (cases ms) (simp_all add: not_less)
    with True split le show ?thesis by (simp add: case_prod_unfold)
  next
    case False
    have "(of_nat k :: 64 word) + of_int (-1) = of_nat (k - 1)" using False by (cases k) simp_all
    then have "send_loop (-1 # ms) buf (of_nat k) = send_loop ms buf (of_nat (k - 1))"
      using le by (simp add: case_prod_unfold)
    moreover have "send_loop ms buf (of_nat (k - 1)) = (drop (k - 1) buf, Some True)"
    proof -
      have "msg_loop ms buf (k - 1) = (drop (k - 1) buf, Some True)"
        using assms by (intro msg_loop_all) auto
      then show ?thesis using send_loop_msg_loop [OF assms(2,5), of "k - 1"] assms(4,7) by simp
    qed
    ultimately show ?thesis using False split by simp
  qed
qed

theorem failed_write_repeats_byte_witness: "send_response [3, -1, 3] ''hello'' = (''helllo'', Some True)"
  using failed_write_repeats_byte [of "[3]" "[3]" 3 "''hello''"] by simp

lemma readline_line:
  assumes "\<not> sublist [CHR 0x0D, CHR 0x0A] (l @ [CHR 0x0D])"
  shows "readline (l @ [CHR 0x0D, CHR 0x0A] @ rest) = (l @ [CHR 0x0D, CHR 0x0A], rest)"
  using assms
proof (induction l)
  case (Cons c l)
  obtain d l' where l: "l @ [CHR 0x0D] = d # l'" by (cases l) auto
  have "\<not> (c = CHR 0x0D \<and> d = CHR 0x0A)"
  proof
    assume "c = CHR 0x0D \<and> d = CHR 0x0A"
    then have "(c # l) @ [CHR 0x0D] = [CHR 0x0D, CHR 0x0A] @ l'" using l by simp
    with Cons.prems show False by (metis prefix_imp_sublist prefixI)
  qed
  moreover have "\<not> sublist [CHR 0x0D, CHR 0x0A] (l @ [CHR 0x0D])"
    using Cons.prems by (metis append_Cons sublist_Cons_right)
  moreover have "readline ((c # l) @ [CHR 0x0D, CHR 0x0A] @ rest) =
      (if c = CHR 0x0D \<and> d = CHR 0x0A then ([c, d], l' @ CHR 0x0A # rest)
       else case readline (l @ [CHR 0x0D, CHR 0x0A] @ rest) of (line, rest) \<Rightarrow> (c # line, rest))"
    using l by (metis (no_types, lifting) append.assoc append_Cons append_Nil readline.simps(3))
  ultimately show ?case using Cons.IH by auto
qed simp

end
