(* ===== verification/Connections.thy ===== *)
theory Connections
  imports Node Sockets
begin

text \<open>
  The tables of open connections that the two frontends keep in arrays of descriptors: the slots
  of the web server (\<open>find_open_fd_idx\<close>, \<open>cleanup\<close>, \<open>sighandler\<close> of \<open>frontend/src/ioutils.cc\<close>, the
  accept loop of \<open>frontend/fserver.cc\<close>) and of the mail server (\<open>main\<close>, the end of \<open>worker\<close> and
  \<open>SIGINT_handler\<close> of \<open>frontend/smtp_server.cc\<close>). Each step of a thread is atomic.
\<close>

section \<open>Slots\<close>

definition first_slot :: "(int \<Rightarrow> bool) \<Rightarrow> int list \<Rightarrow> nat option" where
  "first_slot P xs = (case filter (\<lambda>i. P (xs ! i)) [0..<length xs] of [] \<Rightarrow> None | i # _ \<Rightarrow> Some i)"

section \<open>The web server\<close>

definition MAX_CONCURRENT_CONNECTIONS :: nat where
  "MAX_CONCURRENT_CONNECTIONS = 512"

text \<open>\<open>int fds[512] = { -1 }\<close> sets the first element only; the others are 0.\<close>

definition initial_fds :: "int list" where
  "initial_fds = -1 # replicate (MAX_CONCURRENT_CONNECTIONS - 1) 0"

definition find_open_fd_idx :: "int list \<Rightarrow> nat option" where
  "find_open_fd_idx fds = first_slot (\<lambda>fd. fd \<le> 0) fds"

text \<open>
  \<open>accept\<close> returned \<open>fd\<close>; \<open>None\<close>: there is no slot yet, the loop looks again. The result has the
  slot of the thread that is started, if \<open>fd\<close> is a connection.
\<close>

definition accept_client :: "int \<Rightarrow> int list \<Rightarrow> (nat option \<times> int list) option" where
  "accept_client fd fds =
     (case find_open_fd_idx fds of
        None \<Rightarrow> None
      | Some i \<Rightarrow> Some (if fd \<le> 0 then None else Some i, fds[i := fd]))"

text \<open>
  \<open>answer\<close> is what the two writes of \<open>write_status\<close> return. The result has the bytes that went out
  and the table, \<open>None\<close> when a failed write has ended the process.
\<close>

definition SHUTTING_DOWN :: string where
  "SHUTTING_DOWN = ''-ERR Server shutting down''"

definition cleanup :: "int \<times> int \<Rightarrow> nat \<Rightarrow> bool \<Rightarrow> int list \<Rightarrow> (int \<times> string) list \<times> int list option" where
  "cleanup answer i dirty fds =
     (if dirty then
        (case write_status (fst answer) (snd answer) SHUTTING_DOWN of
           (bytes, ok) \<Rightarrow> ([(fds ! i, bytes)], if ok then Some (fds[i := -1]) else None))
      else ([], Some (fds[i := -1])))"

text \<open>The sockets do not block any more, so a client that does not read fails the write to it.\<close>

definition sighandler :: "(nat \<Rightarrow> int \<times> int) \<Rightarrow> int list \<Rightarrow> (int \<times> string) list \<times> int list option" where
  "sighandler answers fds =
     fold (\<lambda>i (w, r).
         case r of
           None \<Rightarrow> (w, None)
         | Some xs \<Rightarrow>
             if xs ! i \<le> 0 then (w, Some xs)
             else (case cleanup (answers i) i True xs of (w', r') \<Rightarrow> (w @ w', r')))
       [0..<length fds] ([], Some fds)"

text \<open>The table with the set of connections that are open.\<close>

inductive web_reach :: "int list \<Rightarrow> int set \<Rightarrow> bool" where
  start: "web_reach initial_fds {}"
| accept: "web_reach fds L \<Longrightarrow> fd \<notin> L \<Longrightarrow> accept_client fd fds = Some (Some i, fds') \<Longrightarrow>
    web_reach fds' (insert fd L)"
| failed: "web_reach fds L \<Longrightarrow> accept_client fd fds = Some (None, fds') \<Longrightarrow> web_reach fds' L"
| closed: "web_reach fds L \<Longrightarrow> fd \<in> L \<Longrightarrow> i < length fds \<Longrightarrow> fds ! i = fd \<Longrightarrow>
    cleanup answer i False fds = (w, Some fds') \<Longrightarrow> web_reach fds' (L - {fd})"

section \<open>The mail server\<close>

record listener =
  open_connections :: int
  open_fds :: "int list"

definition MAX_CONNECTIONS :: nat where
  "MAX_CONNECTIONS = 10000"

definition new_listener :: listener where
  "new_listener = \<lparr>open_connections = 0, open_fds = replicate MAX_CONNECTIONS (-1)\<rparr>"

definition store_fd :: "int \<Rightarrow> int \<Rightarrow> int list \<Rightarrow> int list" where
  "store_fd old new fds = (case first_slot (\<lambda>x. x = old) fds of None \<Rightarrow> fds | Some i \<Rightarrow> fds[i := new])"

text \<open>\<open>None\<close>: too many connections, the loop waits.\<close>

definition accept_mail :: "int \<Rightarrow> listener \<Rightarrow> listener option" where
  "accept_mail fd l =
     (if open_connections l > int MAX_CONNECTIONS then None
      else Some (l\<lparr>open_connections := open_connections l + 1, open_fds := store_fd (-1) fd (open_fds l)\<rparr>))"

definition worker_ends :: "int \<Rightarrow> listener \<Rightarrow> listener" where
  "worker_ends fd l =
     l\<lparr>open_fds := store_fd fd (-1) (open_fds l), open_connections := open_connections l - 1\<rparr>"

definition SIGINT_handler :: "listener \<Rightarrow> (int \<times> string) list" where
  "SIGINT_handler l =
     map (\<lambda>fd. (fd, ''421 <localhost> Service not available, closing transmission channel'' @ crlf))
       (filter (\<lambda>fd. fd \<noteq> -1) (open_fds l))"

inductive mail_reach :: "listener \<Rightarrow> int set \<Rightarrow> bool" where
  start: "mail_reach new_listener {}"
| accept: "mail_reach l L \<Longrightarrow> 0 \<le> fd \<Longrightarrow> fd \<notin> L \<Longrightarrow> accept_mail fd l = Some l' \<Longrightarrow> mail_reach l' (insert fd L)"
| ends: "mail_reach l L \<Longrightarrow> fd \<in> L \<Longrightarrow> mail_reach (worker_ends fd l) (L - {fd})"

section \<open>Lemmas: slots\<close>

lemma first_slot_SomeD:
  assumes "first_slot P xs = Some i"
  shows "i < length xs" and "P (xs ! i)"
proof -
  from assms obtain rest where "filter (\<lambda>i. P (xs ! i)) [0..<length xs] = i # rest"
    by (auto simp: first_slot_def split: list.splits)
  then have "i \<in> set (filter (\<lambda>i. P (xs ! i)) [0..<length xs])" by simp
  then show "i < length xs" "P (xs ! i)" by simp_all
qed

lemma first_slot_None_iff: "first_slot P xs = None \<longleftrightarrow> (\<forall>x \<in> set xs. \<not> P x)"
proof (cases "first_slot P xs")
  case None
  then show ?thesis
    by (auto simp: first_slot_def filter_empty_conv in_set_conv_nth split: list.splits)
next
  case (Some i)
  with first_slot_SomeD [OF Some] show ?thesis by (auto intro: nth_mem)
qed

text \<open>
  \<open>used\<close> is the part of a table that is not free. Filling a free slot adds the new entry,
  clearing the slot of an entry removes it, and no entry is in two slots.
\<close>

definition used :: "(int \<Rightarrow> bool) \<Rightarrow> int list \<Rightarrow> int list" where
  "used free xs = filter (\<lambda>x. \<not> free x) xs"

lemma used_split: "i < length xs \<Longrightarrow> used free xs =
    used free (take i xs) @ (if free (xs ! i) then [] else [xs ! i]) @ used free (drop (Suc i) xs)"
  by (subst id_take_nth_drop [of i xs]) (simp_all add: used_def)

lemma used_update: "i < length xs \<Longrightarrow> used free (xs[i := x]) =
    used free (take i xs) @ (if free x then [] else [x]) @ used free (drop (Suc i) xs)"
  using used_split [of i "xs[i := x]" free] by simp

lemma set_used: "set (used free xs) = {x \<in> set xs. \<not> free x}"
  by (auto simp: used_def)

lemma used_fill:
  assumes "i < length xs" and "free (xs ! i)" and "\<not> free x" and "x \<notin> set (used free xs)" and "distinct (used free xs)"
  shows "distinct (used free (xs[i := x]))" and "set (used free (xs[i := x])) = insert x (set (used free xs))"
  using assms by (auto simp: used_update used_split [OF assms(1), of free])

lemma used_clear:
  assumes "i < length xs" and "\<not> free (xs ! i)" and "free x" and "distinct (used free xs)"
  shows "distinct (used free (xs[i := x]))" and "set (used free (xs[i := x])) = set (used free xs) - {xs ! i}"
  using assms by (auto simp: used_update used_split [OF assms(1), of free])

lemma used_swap_free:
  assumes "i < length xs" and "free (xs ! i)" and "free x"
  shows "used free (xs[i := x]) = used free xs"
  using assms by (simp add: used_update used_split [OF assms(1), of free])

lemma length_used: "length (used free xs) \<le> length xs"
  by (simp add: used_def)

lemma first_slot_head: "P x \<Longrightarrow> first_slot P (x # xs) = Some 0"
  by (simp add: first_slot_def upt_conv_Cons del: upt_Suc)

lemma all_used: "first_slot free xs = None \<Longrightarrow> used free xs = xs"
  by (simp add: first_slot_None_iff used_def filter_id_conv)

lemma free_left: "first_slot free xs = Some i \<Longrightarrow> length (used free xs) < length xs"
  unfolding used_def using first_slot_SomeD [of free xs i] by (auto intro!: length_filter_less)

section \<open>Properties\<close>

lemma web_reach_inv:
  assumes "web_reach fds L"
  shows "length fds = MAX_CONCURRENT_CONNECTIONS \<and> distinct (used (\<lambda>fd. fd \<le> 0) fds)
    \<and> set (used (\<lambda>fd. fd \<le> 0) fds) = L"
  using assms
proof induction
  case start
  then show ?case by (simp add: initial_fds_def used_def MAX_CONCURRENT_CONNECTIONS_def)
next
  case (accept fds L fd i fds')
  then have i: "first_slot (\<lambda>fd. fd \<le> 0) fds = Some i" and fd: "\<not> fd \<le> 0" and f: "fds' = fds[i := fd]"
    by (auto simp: accept_client_def find_open_fd_idx_def split: option.splits if_splits)
  from first_slot_SomeD [OF i] have s: "i < length fds" "fds ! i \<le> 0" by simp_all
  from accept used_fill [of i fds "\<lambda>fd. fd \<le> 0" fd] s fd show ?case by (simp add: f)
next
  case (failed fds L fd fds')
  then obtain i where i: "first_slot (\<lambda>fd. fd \<le> 0) fds = Some i" and fd: "fd \<le> 0" and f: "fds' = fds[i := fd]"
    by (auto simp: accept_client_def find_open_fd_idx_def split: option.splits if_splits)
  from first_slot_SomeD [OF i] have s: "i < length fds" "fds ! i \<le> 0" by simp_all
  from failed used_swap_free [of i fds "\<lambda>fd. fd \<le> 0" fd] s fd show ?case by (simp add: f)
next
  case (closed fds L fd i answer w fds')
  then have "\<not> fds ! i \<le> 0" by (auto simp: set_used)
  moreover have "fds' = fds[i := -1]" using closed by (simp add: cleanup_def)
  ultimately show ?case using closed used_clear [of i fds "\<lambda>fd. fd \<le> 0" "-1"] by simp
qed

text \<open>
  The handler of the interrupt visits every slot once, as long as the clients take some of the text
  and some of the line end.
\<close>

definition taken :: "int \<times> int \<Rightarrow> bool" where
  "taken answer \<longleftrightarrow> 1 \<le> fst answer \<and> 1 \<le> snd answer"

definition status_bytes :: "int \<times> int \<Rightarrow> string" where
  "status_bytes answer = fst (write_status (fst answer) (snd answer) SHUTTING_DOWN)"

definition sig_round :: "(nat \<Rightarrow> int \<times> int) \<Rightarrow> nat \<Rightarrow> (int \<times> string) list \<times> int list option
    \<Rightarrow> (int \<times> string) list \<times> int list option" where
  "sig_round answers = (\<lambda>i (w, r).
         case r of
           None \<Rightarrow> (w, None)
         | Some xs \<Rightarrow>
             if xs ! i \<le> 0 then (w, Some xs)
             else (case cleanup (answers i) i True xs of (w', r') \<Rightarrow> (w @ w', r')))"

lemma sig_round_apply: "sig_round answers i (w, r) =
    (case r of
       None \<Rightarrow> (w, None)
     | Some xs \<Rightarrow>
         if xs ! i \<le> 0 then (w, Some xs)
         else (case cleanup (answers i) i True xs of (w', r') \<Rightarrow> (w @ w', r')))"
  by (simp add: sig_round_def)

lemma sighandler_rounds: "sighandler answers fds = fold (sig_round answers) [0..<length fds] ([], Some fds)"
  unfolding sighandler_def sig_round_def ..

lemma cleanup_dirty: "cleanup answer i True fds =
    ([(fds ! i, status_bytes answer)], if taken answer then Some (fds[i := -1]) else None)"
  by (simp add: cleanup_def status_bytes_def taken_def write_status_def)

lemma sig_rounds_taken:
  assumes "k \<le> length fds" and "\<forall>j < k. 0 < fds ! j \<longrightarrow> taken (answers j)"
  shows "fold (sig_round answers) [0..<k] ([], Some fds) =
    (map (\<lambda>j. (fds ! j, status_bytes (answers j))) (filter (\<lambda>j. 0 < fds ! j) [0..<k]),
     Some (map (\<lambda>fd. if fd \<le> 0 then fd else -1) (take k fds) @ drop k fds))"
  using assms
proof (induction k)
  case (Suc k)
  then have k: "k < length fds" "take (Suc k) fds = take k fds @ [fds ! k]" by (simp_all add: take_Suc_conv_app_nth)
  let ?pre = "map (\<lambda>fd. if fd \<le> 0 then fd else -1) (take k fds)"
  have nth: "(?pre @ drop k fds) ! k = fds ! k" using k(1) by (simp add: nth_append)
  have upd: "(?pre @ drop k fds)[k := -1] = ?pre @ (-1) # drop (Suc k) fds"
    using k(1) by (simp add: list_update_append Cons_nth_drop_Suc [symmetric])
  have drop: "drop k fds = fds ! k # drop (Suc k) fds" using k(1) by (simp add: Cons_nth_drop_Suc)
  have IH: "fold (sig_round answers) [0..<k] ([], Some fds) =
    (map (\<lambda>j. (fds ! j, status_bytes (answers j))) (filter (\<lambda>j. 0 < fds ! j) [0..<k]), Some (?pre @ drop k fds))"
    using Suc by simp
  show ?case
  proof (cases "0 < fds ! k")
    case True
    then have "taken (answers k)" using Suc.prems(2) by simp
    with True show ?thesis
      using k(2) by (simp add: IH sig_round_apply nth upd cleanup_dirty)
  next
    case False
    then show ?thesis using k(2) by (simp add: IH sig_round_apply nth not_less) (simp add: drop)
  qed
qed simp

lemma sig_rounds_failed: "fold (sig_round answers) is (w, None) = (w, None)"
  by (induction "is") (simp_all add: sig_round_apply)

lemma sig_rounds_fail:
  assumes "k < length fds" and "0 < fds ! k" and "\<not> taken (answers k)" and "\<forall>j < k. 0 < fds ! j \<longrightarrow> taken (answers j)"
  shows "sighandler answers fds =
    (map (\<lambda>j. (fds ! j, status_bytes (answers j))) (filter (\<lambda>j. 0 < fds ! j) [0..<Suc k]), None)"
proof -
  have "[0..<length fds] = [0..<k] @ k # [Suc k..<length fds]"
    using assms(1) by (metis upt_conv_Cons upt_add_eq_append le_add_diff_inverse less_imp_le_nat zero_le)
  moreover have "(map (\<lambda>fd. if fd \<le> 0 then fd else -1) (take k fds) @ drop k fds) ! k = fds ! k"
    using assms(1) by (simp add: nth_append)
  ultimately show ?thesis
    using sig_rounds_taken [OF less_imp_le [OF assms(1)] assms(4)] assms(2,3)
    by (simp add: sighandler_rounds sig_rounds_failed sig_round_apply cleanup_dirty)
qed

lemma slots_used:
  assumes "k \<le> length fds"
  shows "map ((!) fds) (filter (\<lambda>j. 0 < fds ! j) [0..<k]) = used (\<lambda>fd. fd \<le> 0) (take k fds)"
proof -
  have "map ((!) fds) [0..<k] = take k fds"
    using assms by (intro nth_equalityI) simp_all
  then have "filter (\<lambda>fd. \<not> fd \<le> 0) (take k fds) = filter (\<lambda>fd. \<not> fd \<le> 0) (map ((!) fds) [0..<k])" by simp
  also have "\<dots> = map ((!) fds) (filter (\<lambda>j. 0 < fds ! j) [0..<k])"
    by (simp add: filter_map comp_def not_le)
  finally show ?thesis by (simp add: used_def)
qed

abbreviation recorded :: "listener \<Rightarrow> int list" where
  "recorded l \<equiv> used (\<lambda>x. x = -1) (open_fds l)"

definition listener_ok :: "listener \<Rightarrow> int set \<Rightarrow> bool" where
  "listener_ok l L \<longleftrightarrow>
     finite L \<and> (\<forall>fd \<in> L. 0 \<le> fd) \<and> length (open_fds l) = MAX_CONNECTIONS \<and>
     open_connections l = int (card L) \<and> card L \<le> MAX_CONNECTIONS + 1 \<and>
     distinct (recorded l) \<and> set (recorded l) \<subseteq> L \<and> (\<exists>x. L \<subseteq> insert x (set (recorded l)))"

lemma accept_mail_ok:
  assumes ok: "listener_ok l L" and fd: "0 \<le> fd" "fd \<notin> L" and run: "accept_mail fd l = Some l'"
  shows "listener_ok l' (insert fd L)"
proof -
  from ok have L: "finite L" "\<forall>c \<in> L. 0 \<le> c" "length (open_fds l) = MAX_CONNECTIONS" "open_connections l = int (card L)"
      "distinct (recorded l)" "set (recorded l) \<subseteq> L"
    and missing: "\<exists>x. L \<subseteq> insert x (set (recorded l))"
    by (simp_all add: listener_ok_def)
  from run L(4) have free: "card L \<le> MAX_CONNECTIONS"
    and l': "open_connections l' = open_connections l + 1" "open_fds l' = store_fd (-1) fd (open_fds l)"
    by (auto simp: accept_mail_def split: if_splits)
  have card: "card (insert fd L) = card L + 1" using L(1) fd(2) by simp
  have rest: "finite (insert fd L)" "\<forall>c \<in> insert fd L. 0 \<le> c" "length (open_fds l') = MAX_CONNECTIONS"
      "open_connections l' = int (card (insert fd L))" "card (insert fd L) \<le> MAX_CONNECTIONS + 1"
    using L fd free card l' by (simp_all add: store_fd_def split: option.split)
  show ?thesis
  proof (cases "first_slot (\<lambda>x. x = -1) (open_fds l)")
    case None
    then have same: "recorded l' = recorded l" by (simp add: l' store_fd_def)
    have "card (set (recorded l)) = MAX_CONNECTIONS"
      using L(3,5) all_used [OF None] by (simp add: distinct_card)
    then have "set (recorded l) = L" using L free by (intro card_seteq) simp_all
    then have "insert fd L \<subseteq> insert fd (set (recorded l'))" using same by simp
    moreover have "distinct (recorded l')" "set (recorded l') \<subseteq> insert fd L" using same L(5,6) by auto
    ultimately show ?thesis using rest unfolding listener_ok_def by blast
  next
    case (Some i)
    from first_slot_SomeD [OF Some] have i: "i < length (open_fds l)" "open_fds l ! i = -1" by simp_all
    have new: "fd \<noteq> -1" "fd \<notin> set (recorded l)" using L fd by auto
    have "recorded l' = used (\<lambda>x. x = -1) ((open_fds l)[i := fd])" using Some by (simp add: l' store_fd_def)
    with used_fill [of i "open_fds l" "\<lambda>x. x = -1" fd, OF i new L(5)]
    have fill: "distinct (recorded l')" "set (recorded l') = insert fd (set (recorded l))" by simp_all
    with missing have "\<exists>x. insert fd L \<subseteq> insert x (set (recorded l'))" by auto
    with rest fill L(6) show ?thesis unfolding listener_ok_def by blast
  qed
qed

lemma worker_ends_ok:
  assumes ok: "listener_ok l L" and fd: "fd \<in> L"
  shows "listener_ok (worker_ends fd l) (L - {fd})"
proof -
  from ok have L: "finite L" "\<forall>c \<in> L. 0 \<le> c" "length (open_fds l) = MAX_CONNECTIONS" "open_connections l = int (card L)"
      "card L \<le> MAX_CONNECTIONS + 1" "distinct (recorded l)" "set (recorded l) \<subseteq> L"
    and missing: "\<exists>x. L \<subseteq> insert x (set (recorded l))"
    by (simp_all add: listener_ok_def)
  have "card L = Suc (card (L - {fd}))" by (rule card.remove [OF L(1) fd])
  then have rest: "finite (L - {fd})" "\<forall>c \<in> L - {fd}. 0 \<le> c" "length (open_fds (worker_ends fd l)) = MAX_CONNECTIONS"
      "open_connections (worker_ends fd l) = int (card (L - {fd}))" "card (L - {fd}) \<le> MAX_CONNECTIONS + 1"
    using L by (simp_all add: worker_ends_def store_fd_def split: option.split)
  have "distinct (recorded (worker_ends fd l)) \<and> set (recorded (worker_ends fd l)) = set (recorded l) - {fd}"
  proof (cases "first_slot (\<lambda>x. x = fd) (open_fds l)")
    case None
    then have "fd \<notin> set (recorded l)" by (auto simp: first_slot_None_iff used_def)
    with None L(6) show ?thesis by (simp add: worker_ends_def store_fd_def)
  next
    case (Some i)
    from first_slot_SomeD [OF Some] L fd have i: "i < length (open_fds l)" "open_fds l ! i = fd" "fd \<noteq> -1" by auto
    with used_clear [of i "open_fds l" "\<lambda>x. x = -1" "-1"] L(6) Some show ?thesis
      by (simp add: worker_ends_def store_fd_def)
  qed
  with missing L(7) rest show ?thesis unfolding listener_ok_def by blast
qed

lemma mail_reach_ok: "mail_reach l L \<Longrightarrow> listener_ok l L"
proof (induction rule: mail_reach.induct)
  case start
  show ?case by (simp add: listener_ok_def new_listener_def used_def)
qed (simp_all add: accept_mail_ok worker_ends_ok)

text \<open>
  C24: the web server never has more than 512 connections, each in a slot of its own, and it
  stops accepting exactly while all slots are taken. An interrupt tells every open connection once
  and frees all slots when every client takes the text; the first client, in the order of the
  slots, that takes nothing ends the process, and those in later slots are told nothing.
\<close>

theorem web_slots:
  assumes "web_reach fds L"
  shows "card L \<le> MAX_CONCURRENT_CONNECTIONS
    \<and> (accept_client fd fds = None \<longleftrightarrow> card L = MAX_CONCURRENT_CONNECTIONS)
    \<and> ((\<forall>i < length fds. 0 < fds ! i \<longrightarrow> answers i = (int (length SHUTTING_DOWN), 2)) \<longrightarrow>
         (\<exists>told fds'. sighandler answers fds = (map (\<lambda>c. (c, SHUTTING_DOWN @ crlf)) told, Some fds')
            \<and> distinct told \<and> set told = L \<and> (\<forall>c \<in> set fds'. c \<le> 0)))
    \<and> (\<forall>k < length fds. 0 < fds ! k \<and> \<not> taken (answers k) \<and> (\<forall>j < k. 0 < fds ! j \<longrightarrow> taken (answers j)) \<longrightarrow>
         snd (sighandler answers fds) = None
         \<and> map fst (fst (sighandler answers fds)) = used (\<lambda>fd. fd \<le> 0) (take (Suc k) fds))"
proof (intro conjI impI allI)
  let ?u = "used (\<lambda>fd. fd \<le> 0) fds"
  from web_reach_inv [OF assms] have inv: "length fds = MAX_CONCURRENT_CONNECTIONS" "distinct ?u" "set ?u = L"
    by simp_all
  then have card: "card L = length ?u" by (metis distinct_card)
  show "card L \<le> MAX_CONCURRENT_CONNECTIONS"
    using length_used [of "\<lambda>fd. fd \<le> 0" fds] by (simp only: card inv(1))
  have "accept_client fd fds = None \<longleftrightarrow> length ?u = length fds"
  proof (cases "first_slot (\<lambda>fd. fd \<le> 0) fds")
    case None
    then show ?thesis using all_used [OF None] by (simp add: accept_client_def find_open_fd_idx_def)
  next
    case (Some i)
    then show ?thesis using free_left [OF Some] by (simp add: accept_client_def find_open_fd_idx_def)
  qed
  then show "accept_client fd fds = None \<longleftrightarrow> card L = MAX_CONCURRENT_CONNECTIONS"
    by (simp only: card inv(1))
  show "\<exists>told fds'. sighandler answers fds = (map (\<lambda>c. (c, SHUTTING_DOWN @ crlf)) told, Some fds')
      \<and> distinct told \<and> set told = L \<and> (\<forall>c \<in> set fds'. c \<le> 0)"
    if whole: "\<forall>i < length fds. 0 < fds ! i \<longrightarrow> answers i = (int (length SHUTTING_DOWN), 2)"
  proof -
    have bytes: "status_bytes (int (length SHUTTING_DOWN), 2) = SHUTTING_DOWN @ crlf" "taken (int (length SHUTTING_DOWN), 2)"
      by (simp_all add: status_bytes_def write_status_def taken_def SHUTTING_DOWN_def)
    have "map (\<lambda>j. (fds ! j, status_bytes (answers j))) (filter (\<lambda>j. 0 < fds ! j) [0..<length fds]) =
        map (\<lambda>c. (c, SHUTTING_DOWN @ crlf)) (map ((!) fds) (filter (\<lambda>j. 0 < fds ! j) [0..<length fds]))"
      using whole bytes(1) by simp
    also have "\<dots> = map (\<lambda>c. (c, SHUTTING_DOWN @ crlf)) ?u" by (simp only: slots_used [OF order_refl] take_all_iff [THEN iffD2, OF order_refl])
    finally have "sighandler answers fds = (map (\<lambda>c. (c, SHUTTING_DOWN @ crlf)) ?u, Some (map (\<lambda>fd. if fd \<le> 0 then fd else -1) fds))"
      using sig_rounds_taken [OF order_refl, of fds answers] whole bytes(2) by (simp add: sighandler_rounds)
    with inv(2,3) show ?thesis by auto
  qed
  fix k
  assume k: "k < length fds"
    and f: "0 < fds ! k \<and> \<not> taken (answers k) \<and> (\<forall>j < k. 0 < fds ! j \<longrightarrow> taken (answers j))"
  then have run: "sighandler answers fds =
    (map (\<lambda>j. (fds ! j, status_bytes (answers j))) (filter (\<lambda>j. 0 < fds ! j) [0..<Suc k]), None)"
    by (intro sig_rounds_fail) auto
  then show "snd (sighandler answers fds) = None" by simp
  have "map fst (fst (sighandler answers fds)) = map ((!) fds) (filter (\<lambda>j. 0 < fds ! j) [0..<Suc k])"
    by (simp only: run fst_conv map_map comp_def)
  then show "map fst (fst (sighandler answers fds)) = used (\<lambda>fd. fd \<le> 0) (take (Suc k) fds)"
    using slots_used [of "Suc k" fds] k by (simp only: Suc_leI)
qed

theorem web_slots_witness:
  "accept_client 7 initial_fds = Some (Some 0, 7 # replicate 511 0)
    \<and> web_reach (7 # replicate 511 0) {7} \<and> accept_client 8 (7 # replicate 511 0) \<noteq> None
    \<and> snd (sighandler (\<lambda>_. (-1, 0)) (7 # replicate 511 0)) = None"
proof -
  have a: "accept_client 7 initial_fds = Some (Some 0, 7 # replicate 511 0)"
    by (simp add: accept_client_def find_open_fd_idx_def first_slot_head initial_fds_def MAX_CONCURRENT_CONNECTIONS_def)
  have r: "web_reach (7 # replicate 511 0) {7}"
    using web_reach.accept [OF web_reach.start _ a] by simp
  note w = web_slots [OF this, of 8 "\<lambda>_. (-1, 0)"]
  from w have "accept_client 8 (7 # replicate 511 0) = None \<longleftrightarrow> card {7::int} = MAX_CONCURRENT_CONNECTIONS"
    by (elim conjE)
  then have "accept_client 8 (7 # replicate 511 0) \<noteq> None" by (simp add: MAX_CONCURRENT_CONNECTIONS_def)
  moreover have "snd (sighandler (\<lambda>_. (-1, 0)) (7 # replicate 511 0)) = None"
    by (rule conjunct1 [OF mp [OF mp [OF spec [OF conjunct2 [OF conjunct2 [OF conjunct2 [OF w]]], of 0]]]])
      (simp_all add: taken_def)
  ultimately show ?thesis using a r by (intro conjI)
qed

text \<open>
  the mail server never has more than one connection above its limit, and the array of
  descriptors never misses more than one of them: that one alone is not told of a shutdown.
\<close>

theorem mail_slots:
  assumes "mail_reach l L"
  shows "open_connections l = int (card L) \<and> card L \<le> MAX_CONNECTIONS + 1
    \<and> fst ` set (SIGINT_handler l) \<subseteq> L \<and> card (L - fst ` set (SIGINT_handler l)) \<le> 1"
proof -
  have "fst ` set (SIGINT_handler l) = set (recorded l)" by (auto simp: SIGINT_handler_def used_def image_image)
  moreover have "card (L - set (recorded l)) \<le> 1" if "L \<subseteq> insert x (set (recorded l))" for x
    using card_mono [of "{x}" "L - set (recorded l)"] that by auto
  ultimately show ?thesis using mail_reach_ok [OF assms] by (auto simp: listener_ok_def)
qed

theorem mail_slots_witness:
  "\<exists>l. mail_reach l {5} \<and> accept_mail 5 new_listener = Some l \<and> open_connections l = 1"
proof -
  obtain l where l: "accept_mail 5 new_listener = Some l" by (simp add: accept_mail_def new_listener_def)
  from mail_reach.accept [OF mail_reach.start _ _ this] have "mail_reach l {5}" by simp
  with mail_slots [OF this] l show ?thesis by auto
qed

end
