(* ===== verification/Coordinator_Loops.thy ===== *)
theory Coordinator_Loops
  imports Coordinator
begin

text \<open>
  The two threads of the coordinator (\<open>accept_frontend_connections\<close> and
  \<open>accept_storage_connections\<close> of \<open>backend/coordinator.cpp\<close>): what one round of each loop does with
  what \<open>select\<close> reports, in the order of the code, and the shutdown. A round is a sequence of the
  events of \<open>Coordinator\<close>, so what every event keeps holds for the running process.
\<close>

section \<open>Shutdown\<close>

definition shutdown_message :: string where
  "shutdown_message = ''-ERR Server shutting down'' @ crlf"

definition clean_up_storage_thread :: "coord \<Rightarrow> coord" where
  "clean_up_storage_thread c =
     (fold (\<lambda>fd. write_fd fd shutdown_message) (map fst (all_servers c) @ map snd (comm_fd c)) c)
       \<lparr>paused_servers := []\<rparr>"

text \<open>A round goes on with the next one or ends the process, with code 0.\<close>

datatype 'a round = Next 'a | Stopped coord

definition shutdown :: "coord \<Rightarrow> 'a round" where
  "shutdown c = Stopped (clean_up_storage_thread c)"

section \<open>The thread of the frontends\<close>

text \<open>
  What the system reports in one round: the descriptors \<open>fcntl\<close> finds closed, whether \<open>select\<close>
  succeeds, what \<open>accept\<close> returns when there is a new client, and what \<open>do_read_backend\<close> returns
  for the connections with data.
\<close>

record frontend_input =
  fe_closed :: "int list"
  fe_select :: bool
  fe_accept :: "int option"
  fe_read :: "(int \<times> string) list"

definition greet_frontend :: "frontend_input \<Rightarrow> int list \<times> coord \<Rightarrow> int list \<times> coord" where
  "greet_frontend i = (\<lambda>(conns, c).
     case fe_accept i of
       None \<Rightarrow> (conns, c)
     | Some fd \<Rightarrow> (conns @ [fd], write_fd fd (''+OK Server ready'' @ crlf) c))"

definition serve_frontends :: "frontend_input \<Rightarrow> int list \<Rightarrow> coord \<Rightarrow> exn + coord" where
  "serve_frontends i conns =
     efold (\<lambda>fd c. case map_of (fe_read i) fd of None \<Rightarrow> Inr c | Some message \<Rightarrow> frontend_message fd message c) conns"

text \<open>A failed \<open>accept\<close> skips the rest of the round.\<close>

definition frontend_round :: "frontend_input \<Rightarrow> int list \<times> coord \<Rightarrow> exn + (int list \<times> coord) round" where
  "frontend_round i = (\<lambda>(conns, c).
     let open_conns = filter (\<lambda>fd. fd \<notin> set (fe_closed i)) conns in
     if \<not> fe_select i then Inr (shutdown c)
     else if (case fe_accept i of None \<Rightarrow> False | Some fd \<Rightarrow> fd < 0) then Inr (Next (open_conns, c))
     else case greet_frontend i (open_conns, c) of
            (conns', c') \<Rightarrow> ebind (serve_frontends i conns' c') (\<lambda>c''. Inr (Next (conns', c''))))"

section \<open>The thread of the storage servers\<close>

text \<open>New connections come with their address, messages and heartbeats with the time of reading.\<close>

record storage_input =
  st_closed :: "int list"
  st_select :: bool
  st_heartbeat :: "(string \<times> int \<times> int) option"
  st_comm :: "(string \<times> int) option"
  st_read :: "(int \<times> string \<times> int) list"
  st_check :: int

definition close_comm :: "storage_input \<Rightarrow> coord \<Rightarrow> coord" where
  "close_comm i c = fold comm_closed (map fst (filter (\<lambda>(srv, fd). fd \<in> set (st_closed i)) (comm_fd c))) c"

definition close_heartbeats :: "storage_input \<Rightarrow> coord \<Rightarrow> exn + coord" where
  "close_heartbeats i c =
     efold (\<lambda>(fd, srv) c. if fd \<in> set (st_closed i) then heartbeat_closed fd srv c else Inr c) (all_servers c) c"

text \<open>
  A connection from an address that is not known, or of a server that is alive already, ends
  the round: the loop continues before the rest.
\<close>

definition ends_round :: "string \<Rightarrow> coord \<Rightarrow> bool" where
  "ends_round addr c =
     (case map_of (server_info c) addr of
        None \<Rightarrow> True
      | Some srv \<Rightarrow> srv \<in> set (alive_at c (int_at (partition_info c) srv)))"

definition new_heartbeat :: "storage_input \<Rightarrow> coord \<Rightarrow> exn + (bool \<times> coord)" where
  "new_heartbeat i c =
     (case st_heartbeat i of
        None \<Rightarrow> Inr (False, c)
      | Some (addr, fd, now) \<Rightarrow> ebind (accept_heartbeat addr fd now c) (\<lambda>c'. Inr (ends_round addr c, c')))"

definition new_comm :: "storage_input \<Rightarrow> coord \<Rightarrow> exn + coord" where
  "new_comm i c = (case st_comm i of None \<Rightarrow> Inr c | Some (addr, fd) \<Rightarrow> accept_comm addr fd c)"

definition read_heartbeats :: "storage_input \<Rightarrow> coord \<Rightarrow> exn + coord" where
  "read_heartbeats i c =
     efold (\<lambda>(fd, srv) c. case map_of (st_read i) fd of
              None \<Rightarrow> Inr c
            | Some (message, now) \<Rightarrow> heartbeat_message fd srv message now c) (all_servers c) c"

definition read_comm :: "storage_input \<Rightarrow> coord \<Rightarrow> exn + coord" where
  "read_comm i c =
     efold (\<lambda>(srv, fd) c. case map_of (st_read i) fd of
              None \<Rightarrow> Inr c
            | Some (message, now) \<Rightarrow> comm_message srv message c) (comm_fd c) c"

text \<open>
  A round is one step here. In the process the thread of the frontends may run in between, and the
  two share the primaries, the live and the paused servers without a lock of their own.
\<close>

definition storage_round :: "storage_input \<Rightarrow> coord \<Rightarrow> exn + coord round" where
  "storage_round i c =
     ebind (close_heartbeats i (close_comm i c)) (\<lambda>c1.
       if \<not> st_select i then Inr (shutdown c1)
       else ebind (new_heartbeat i c1) (\<lambda>(skip, c2).
         if skip then Inr (Next c2)
         else ebind (new_comm i c2) (\<lambda>c3. ebind (read_heartbeats i c3) (\<lambda>c4.
              ebind (check_failures (st_check i) c4) (\<lambda>c5. ebind (read_comm i c5) (\<lambda>c6. Inr (Next c6)))))))"

section \<open>The process\<close>

text \<open>
  The rounds of the two threads in any order; \<open>Rand\<close> says what \<open>rand()\<close> returns from here on. The
  interrupt handler is a shutdown between two rounds.
\<close>

datatype turn = Frontends frontend_input | Storage storage_input | Rand "nat list" | Interrupt

definition coordinator_turn :: "turn \<Rightarrow> int list \<times> coord \<Rightarrow> exn + (int list \<times> coord) round" where
  "coordinator_turn t = (\<lambda>(conns, c).
     case t of
       Frontends i \<Rightarrow> frontend_round i (conns, c)
     | Storage i \<Rightarrow>
         ebind (storage_round i c) (\<lambda>r. case r of Next c' \<Rightarrow> Inr (Next (conns, c')) | Stopped c' \<Rightarrow> Inr (Stopped c'))
     | Rand rs \<Rightarrow> Inr (Next (conns, c\<lparr>rands := rs\<rparr>))
     | Interrupt \<Rightarrow> Inr (shutdown c))"

primrec coordinator_loop :: "turn list \<Rightarrow> int list \<times> coord \<Rightarrow> exn + (int list \<times> coord) round" where
  "coordinator_loop [] s = Inr (Next s)"
| "coordinator_loop (t # ts) s =
     ebind (coordinator_turn t s) (\<lambda>r. case r of Next s' \<Rightarrow> coordinator_loop ts s' | Stopped c \<Rightarrow> Inr (Stopped c))"

definition coordinator_process :: "string \<Rightarrow> turn list \<Rightarrow> exn + (int list \<times> coord) round" where
  "coordinator_process storage_file turns =
     ebind (load_servers storage_file initial_coord) (\<lambda>c. coordinator_loop turns ([], c))"

section \<open>Lemmas: rounds are events\<close>

text \<open>\<open>leads c c'\<close>: some events lead from one state to the other.\<close>

definition leads :: "coord \<Rightarrow> coord \<Rightarrow> bool" where
  "leads c c' = (\<exists>es. efold handle_event es c = Inr c')"

lemma leads_refl [simp]: "leads c c"
  unfolding leads_def by (rule exI [of _ "[]"]) simp

lemma leads_event: "handle_event e c = Inr c' \<Longrightarrow> leads c c'"
  unfolding leads_def by (rule exI [of _ "[e]"]) simp

lemma leads_trans:
  assumes "leads a b" and "leads b c"
  shows "leads a c"
proof -
  from assms obtain es es' where "efold handle_event es a = Inr b" "efold handle_event es' b = Inr c"
    by (auto simp: leads_def)
  then have "efold handle_event (es @ es') a = Inr c" by (simp add: efold_append)
  then show ?thesis unfolding leads_def by blast
qed

lemma leads_efold:
  assumes "efold f xs c = Inr c'" and "\<And>x a b. f x a = Inr b \<Longrightarrow> leads a b"
  shows "leads c c'"
  using assms(1) by (induction xs arbitrary: c) (auto elim!: ebind_InrE intro: leads_trans assms(2))

lemma leads_fold:
  assumes "\<And>x a. leads a (f x a)"
  shows "leads c (fold f xs c)"
  by (induction xs arbitrary: c) (auto intro: leads_trans assms)

lemmas event_leads =
  leads_event [of "Heartbeat_conn addr fd now" for addr fd now, simplified]
  leads_event [of "Comm_conn addr fd" for addr fd, simplified]
  leads_event [of "Heartbeat_msg fd srv message now" for fd srv message now, simplified]
  leads_event [of "Heartbeat_closed fd srv" for fd srv, simplified]
  leads_event [of "Check now" for now, simplified]
  leads_event [of "Comm_msg srv message" for srv message, simplified]
  leads_event [of "Frontend fd message" for fd message, simplified]

lemma storage_parts_lead:
  "leads c (close_comm i c)"
  "close_heartbeats i c = Inr c' \<Longrightarrow> leads c c'"
  "new_heartbeat i c = Inr (skip, c') \<Longrightarrow> leads c c'"
  "new_comm i c = Inr c' \<Longrightarrow> leads c c'"
  "read_heartbeats i c = Inr c' \<Longrightarrow> leads c c'"
  "read_comm i c = Inr c' \<Longrightarrow> leads c c'"
proof -
  show "leads c (close_comm i c)"
    unfolding close_comm_def by (rule leads_fold) (rule leads_event [of "Comm_closed srv" for srv], simp)
  show "close_heartbeats i c = Inr c' \<Longrightarrow> leads c c'"
    unfolding close_heartbeats_def by (erule leads_efold) (auto intro: event_leads split: if_splits)
  show "new_heartbeat i c = Inr (skip, c') \<Longrightarrow> leads c c'"
    by (auto simp: new_heartbeat_def intro: event_leads split: option.splits elim!: ebind_InrE)
  show "new_comm i c = Inr c' \<Longrightarrow> leads c c'"
    by (auto simp: new_comm_def intro: event_leads split: option.splits)
  show "read_heartbeats i c = Inr c' \<Longrightarrow> leads c c'"
    unfolding read_heartbeats_def by (erule leads_efold) (auto intro: event_leads split: option.splits)
  show "read_comm i c = Inr c' \<Longrightarrow> leads c c'"
    unfolding read_comm_def by (erule leads_efold) (auto intro: event_leads split: option.splits)
qed

lemma storage_round_leads:
  assumes "storage_round i c = Inr (Next c')"
  shows "leads c c'"
proof -
  from assms obtain c1 skip c2 where 1: "close_heartbeats i (close_comm i c) = Inr c1" "new_heartbeat i c1 = Inr (skip, c2)"
    and rest: "c' = c2 \<or> (\<exists>c3 c4 c5. new_comm i c2 = Inr c3 \<and> read_heartbeats i c3 = Inr c4
      \<and> check_failures (st_check i) c4 = Inr c5 \<and> read_comm i c5 = Inr c')"
    by (auto simp: storage_round_def shutdown_def elim!: ebind_InrE split: if_splits)
  from 1 have c2: "leads c c2"
    by (intro leads_trans [OF leads_trans [OF storage_parts_lead(1) storage_parts_lead(2)] storage_parts_lead(3)])
  from rest show ?thesis
  proof (elim disjE exE conjE)
    fix c3 c4 c5
    assume "new_comm i c2 = Inr c3" "read_heartbeats i c3 = Inr c4" "check_failures (st_check i) c4 = Inr c5"
      "read_comm i c5 = Inr c'"
    from leads_trans [OF leads_trans [OF leads_trans [OF leads_trans [OF c2 storage_parts_lead(4) [OF this(1)]]
          storage_parts_lead(5) [OF this(2)]] event_leads(5) [OF this(3)]] storage_parts_lead(6) [OF this(4)]]
    show "leads c c'" .
  qed (simp add: c2)
qed

lemma serve_frontends_leads: "serve_frontends i conns c = Inr c' \<Longrightarrow> leads c c'"
  unfolding serve_frontends_def by (erule leads_efold) (auto intro: event_leads split: option.splits)

lemma leads_primary_ok:
  assumes "leads c c'" and "primary_ok c"
  shows "primary_ok c'"
proof -
  from assms(1) obtain es where "efold handle_event es c = Inr c'" by (auto simp: leads_def)
  with assms(2) show ?thesis
    by (rule efold_invariant [where P = primary_ok, rotated]) (rule handle_event_ok)
qed

lemma frontend_round_primary_ok:
  assumes "frontend_round i (conns, c) = Inr (Next (conns', c'))" and "primary_ok c"
  shows "primary_ok c'"
proof -
  from assms(1) have "c' = c \<or> (\<exists>c1 k. greet_frontend i (k, c) = (conns', c1) \<and> serve_frontends i conns' c1 = Inr c')"
    by (auto simp: frontend_round_def Let_def shutdown_def split: if_splits prod.splits elim!: ebind_InrE)
  moreover have "primary_ok c1" if "greet_frontend i (k, c) = (conns', c1)" for c1 k
    by (rule roles_okI [OF _ assms(2)]) (use that in \<open>auto simp: greet_frontend_def split: option.splits\<close>)
  ultimately show ?thesis using assms(2) serve_frontends_leads leads_primary_ok by blast
qed


lemma coordinator_loop_primary_ok:
  assumes "coordinator_loop ts (conns, c) = Inr (Next (conns', c'))" and "primary_ok c"
  shows "primary_ok c'"
  using assms
proof (induction ts arbitrary: conns c)
  case (Cons t ts)
  from Cons.prems(1) obtain k d where t: "coordinator_turn t (conns, c) = Inr (Next (k, d))"
    and rest: "coordinator_loop ts (k, d) = Inr (Next (conns', c'))"
    by (auto elim!: ebind_InrE split: round.splits)
  have "primary_ok d"
  proof (cases t)
    case (Frontends i)
    with t have "frontend_round i (conns, c) = Inr (Next (k, d))" by (simp add: coordinator_turn_def)
    from frontend_round_primary_ok [OF this Cons.prems(2)] show ?thesis .
  next
    case (Storage i)
    with t have "storage_round i c = Inr (Next d)"
      by (auto simp: coordinator_turn_def elim!: ebind_InrE split: round.splits)
    from leads_primary_ok [OF storage_round_leads [OF this] Cons.prems(2)] show ?thesis .
  next
    case (Rand rs)
    with t have "roles d = roles c" by (auto simp: coordinator_turn_def)
    from roles_okI [OF this Cons.prems(2)] show ?thesis .
  next
    case Interrupt
    with t show ?thesis by (simp add: coordinator_turn_def shutdown_def)
  qed
  from Cons.IH [OF rest this] show ?case .
qed simp

text \<open>The bytes a shutdown writes: one message to every connection of a server.\<close>

lemma fold_write_fd: "out (fold (\<lambda>fd. write_fd fd msg) fds c) = out c @ map (\<lambda>fd. (fd, msg)) fds"
  by (induction fds arbitrary: c) (simp_all add: write_fd_def)

lemma clean_up_out:
  "out (clean_up_storage_thread c) =
     out c @ map (\<lambda>fd. (fd, shutdown_message)) (map fst (all_servers c) @ map snd (comm_fd c))"
  by (simp add: clean_up_storage_thread_def fold_write_fd)

end
