(* ===== verification/Coordinator_Roster.thy ===== *)
theory Coordinator_Roster
  imports Coordinator_Loops
begin

text \<open>
  Who the coordinator counts as a server (\<open>backend/coordinator.cpp\<close>): whatever connects and
  whatever is sent, the servers it calls alive or paused are those of the storage file, each in
  its own partition and once; and what a connection from an address of no server can do.
\<close>

section \<open>The servers of the storage file\<close>

text \<open>
  A name is \<open>known\<close> for a partition when the storage file says so. The empty name, that of
  the addresses the file does not have, counts as one of partition 0.
\<close>

definition known :: "coord \<Rightarrow> string \<Rightarrow> int \<Rightarrow> bool" where
  "known c0 s p = (if s = [] then p = 0 else map_of (partition_info c0) s = Some p)"

definition listed :: "coord \<Rightarrow> string \<Rightarrow> bool" where
  "listed c0 s = (s = [] \<or> map_of (partition_info c0) s \<noteq> None)"

definition parts_in :: "coord \<Rightarrow> (string \<times> int) list \<Rightarrow> bool" where
  "parts_in c0 m \<longleftrightarrow>
     (\<forall>s p. s \<noteq> [] \<longrightarrow> map_of m s = Some p \<longleftrightarrow> map_of (partition_info c0) s = Some p) \<and>
     (\<forall>p. map_of m [] = Some p \<longrightarrow> p = 0)"

definition infos_in :: "coord \<Rightarrow> (string \<times> string) list \<Rightarrow> bool" where
  "infos_in c0 m \<longleftrightarrow> (\<forall>a s. map_of m a = Some s \<longrightarrow> listed c0 s)"

definition conns_in :: "coord \<Rightarrow> (int \<times> string) list \<Rightarrow> bool" where
  "conns_in c0 xs \<longleftrightarrow> (\<forall>(fd, s) \<in> set xs. listed c0 s)"

definition sets_in :: "coord \<Rightarrow> (int \<times> string list) list \<Rightarrow> bool" where
  "sets_in c0 m \<longleftrightarrow> (\<forall>p. distinct (set_at m p) \<and> (\<forall>s \<in> set (set_at m p). known c0 s p))"

definition conforms :: "coord \<Rightarrow> coord \<Rightarrow> bool" where
  "conforms c0 c \<longleftrightarrow>
     parts_in c0 (partition_info c) \<and> infos_in c0 (server_info c) \<and> conns_in c0 (all_servers c) \<and>
     sets_in c0 (alive_servers c) \<and> sets_in c0 (paused_servers c)"

section \<open>Every event keeps the types\<close>

text \<open>What the invariant reads.\<close>

definition roster ::
  "coord \<Rightarrow> (string \<times> int) list \<times> (string \<times> string) list \<times> (int \<times> string) list
     \<times> (int \<times> string list) list \<times> (int \<times> string list) list" where
  "roster c = (partition_info c, server_info c, all_servers c, alive_servers c, paused_servers c)"

lemma typed_roster: "roster c' = roster c \<Longrightarrow> conforms c0 c' = conforms c0 c"
  by (simp add: conforms_def roster_def)

lemma typed_frame:
  assumes "roster c' = roster c" and "conforms c0 c"
  shows "conforms c0 c'"
  using assms typed_roster by blast

lemma roster_frame [frame, simp]:
  "roster (write_fd fd s c) = roster c" "roster (c\<lparr>rands := rs\<rparr>) = roster c"
  "roster (c\<lparr>comm_fd := x\<rparr>) = roster c" "roster (c\<lparr>server_heartbeat := z\<rparr>) = roster c"
  "roster (c\<lparr>primary_server := y\<rparr>) = roster c" "roster (comm_closed srv c) = roster c"
  "roster (send_server msg srv c) = roster c"
  by (simp_all add: roster_def write_fd_def comm_closed_def send_server_def)

lemma roster_fold_send [simp]: "roster (fold (send_server msg) srvs c) = roster c"
  by (induction srvs arbitrary: c) simp_all

lemma announce_roster: "announce_primary p s c = Inr c' \<Longrightarrow> roster c' = roster c"
  by (auto simp: announce_primary_def Let_def elim!: ebind_InrE)

lemma choose_roster:
  assumes "choose_random_server p c = Inr (s, c')"
  shows "roster c' = roster c"
  using assms by (rule choose_serving) simp

lemma elect_roster: "elect p c = Inr c' \<Longrightarrow> roster c' = roster c"
  by (auto simp: elect_def elim!: ebind_InrE dest!: choose_roster announce_roster split: if_splits)

lemma sets_in_update:
  assumes "sets_in c0 m" and "distinct xs" and "\<And>s. s \<in> set xs \<Longrightarrow> known c0 s p"
  shows "sets_in c0 (AList.update p xs m)"
  using assms by (simp add: sets_in_def)

lemma sets_in_delete: "sets_in c0 m \<Longrightarrow> sets_in c0 (AList.delete p m)"
  by (simp add: sets_in_def)

lemma sets_in_removeAll:
  assumes "sets_in c0 m"
  shows "sets_in c0 (AList.update p (removeAll s (set_at m p)) m)"
  using assms by (simp add: sets_in_def distinct_removeAll)

lemma sets_in_add:
  assumes "sets_in c0 m" and "known c0 s p" and "s \<notin> set (set_at m p)"
  shows "sets_in c0 (AList.update p (set_at m p @ [s]) m)"
  using assms by (auto simp: sets_in_def)

text \<open>\<open>partition_info[srv]\<close> of a listed name gives its partition, and inserts the empty name only.\<close>

lemma option_eq_iff: "(\<And>x. a = Some x \<longleftrightarrow> b = Some x) \<Longrightarrow> b = a"
  by (cases a; cases b) auto

lemma parts_in_touch:
  assumes "parts_in c0 m" and "listed c0 s"
  shows "known c0 s (int_at m s)" and "parts_in c0 (touch s 0 m)"
proof -
  have eq: "map_of (partition_info c0) s = map_of m s" if "s \<noteq> []"
    using assms(1) that by (intro option_eq_iff) (simp add: parts_in_def)
  have empty: "int_at m [] = 0"
    using assms(1) by (auto simp: parts_in_def int_at_def split: option.split)
  show "known c0 s (int_at m s)"
  proof (cases "s = []")
    case False
    then show ?thesis using assms(2) eq [OF False] by (auto simp: known_def listed_def int_at_def)
  qed (simp add: known_def empty)
  show "parts_in c0 (touch s 0 m)"
  proof (cases "map_of m s")
    case None
    then have "s = []" using assms(2) eq by (metis listed_def)
    with assms(1) show ?thesis unfolding parts_in_def by simp
  qed (use assms(1) in \<open>simp add: touch_def\<close>)
qed

lemma typed_remember:
  assumes "conforms c0 c" and "listed c0 s"
  shows "conforms c0 (c\<lparr>all_servers := List.insert (fd, s) (all_servers c), partition_info := touch s 0 (partition_info c)\<rparr>)"
  using parts_in_touch(2) assms by (simp add: conforms_def conns_in_def)

lemma typed_alive_add:
  assumes "conforms c0 c" and "known c0 s p" and "s \<notin> set (alive_at c p)"
  shows "conforms c0 (c\<lparr>alive_servers := AList.update p (alive_at c p @ [s]) (alive_servers c)\<rparr>)"
  using assms sets_in_add [of c0 "alive_servers c" s p] by (simp add: conforms_def alive_at_def)

lemma accept_heartbeat_typed:
  assumes run: "accept_heartbeat addr fd now c = Inr c'" and ok: "conforms c0 c"
  shows "conforms c0 c'"
proof (cases "map_of (server_info c) addr")
  case None
  with run ok show ?thesis by (simp add: accept_heartbeat_def)
next
  case (Some srv)
  then have srv: "listed c0 srv" using ok by (simp add: conforms_def infos_in_def)
  define p where "p = int_at (partition_info c) srv"
  have known: "known c0 srv p" unfolding p_def using parts_in_touch(1) srv ok by (simp add: conforms_def)
  define c1 where "c1 = c\<lparr>server_heartbeat := AList.update addr now (server_heartbeat c),
      all_servers := List.insert (fd, srv) (all_servers c),
      partition_info := touch srv 0 (partition_info c)\<rparr>"
  define c2 where "c2 = c1\<lparr>alive_servers := AList.update p (alive_at c1 p @ [srv]) (alive_servers c1)\<rparr>"
  have c1: "conforms c0 c1"
    by (rule typed_frame [OF _ typed_remember [OF ok srv]]) (simp add: c1_def roster_def)
  have c2: "conforms c0 c2" if "srv \<notin> set (alive_at c1 p)"
    unfolding c2_def by (rule typed_alive_add [OF c1 known that])
  have "(if srv \<in> set (alive_at c1 p) then Inr c1
      else if map_of (primary_server c2) p \<noteq> None then Inr c2
      else ebind (choose_random_server p c2) (\<lambda>(s, c3).
             Inr (c3\<lparr>primary_server := AList.update p s (primary_server c3)\<rparr>))) = Inr c'"
    using run by (simp only: accept_heartbeat_def Some option.case c1_def c2_def p_def Let_def)
  then consider "c' = c1" | "srv \<notin> set (alive_at c1 p)" "roster c' = roster c2"
    by (auto split: if_splits elim!: ebind_InrE dest!: choose_roster)
  then show ?thesis using c1 typed_frame [OF _ c2] by cases auto
qed

lemma accept_comm_typed:
  assumes run: "accept_comm addr fd c = Inr c'" and ok: "conforms c0 c"
  shows "conforms c0 c'"
proof -
  define srv where "srv = name_at c addr"
  have srv: "listed c0 srv"
    using ok by (auto simp: srv_def name_at_def conforms_def infos_in_def listed_def split: option.splits)
  define c1 where "c1 = c\<lparr>server_info := touch addr [] (server_info c), partition_info := touch srv 0 (partition_info c)\<rparr>"
  have "conforms c0 c1"
    using ok parts_in_touch(2) srv by (auto simp: c1_def conforms_def infos_in_def listed_def)
  moreover have "roster c' = roster c1"
    using run by (auto simp: accept_comm_def Let_def c1_def srv_def roster_def write_fd_def split: option.splits elim!: ebind_InrE)
  ultimately show ?thesis by (rule typed_frame [rotated])
qed

lemma drop_server_typed:
  assumes "conforms c0 c" and "listed c0 srv"
  shows "conforms c0 (drop_server srv c)"
  using assms parts_in_touch(2) sets_in_removeAll by (simp add: drop_server_def Let_def conforms_def alive_at_def)

lemma handle_server_failure_typed:
  assumes "handle_server_failure srv c = Inr c'" and "conforms c0 c" and "listed c0 srv"
  shows "conforms c0 c'"
proof -
  let ?d = "drop_server srv c"
  have d: "conforms c0 ?d" by (rule drop_server_typed [OF assms(2,3)])
  from assms(1) consider "roster c' = roster ?d"
    | c2 p where "roster c2 = roster ?d" "c' = c2\<lparr>alive_servers := AList.delete p (alive_servers c2), primary_server := AList.delete p (primary_server c2)\<rparr>"
    by (auto simp: handle_server_failure_def Let_def split: if_splits elim!: ebind_InrE dest!: choose_roster announce_roster)
  then show ?thesis
  proof cases
    case 1
    then show ?thesis by (rule typed_frame [OF _ d])
  next
    case 2
    from typed_frame [OF 2(1) d] show ?thesis by (simp add: 2(2) conforms_def sets_in_delete)
  qed
qed

lemma typed_forget:
  assumes "conforms c0 c" and "set xs \<subseteq> set (all_servers c)"
  shows "conforms c0 (c\<lparr>all_servers := xs\<rparr>)"
  using assms by (auto simp: conforms_def conns_in_def)

lemma heartbeat_closed_typed:
  assumes "heartbeat_closed fd srv c = Inr c'" and "conforms c0 c" and "listed c0 srv"
  shows "conforms c0 c'"
  using assms by (auto simp: heartbeat_closed_def elim!: ebind_InrE intro!: typed_forget dest: handle_server_failure_typed)

lemma heartbeat_message_typed:
  assumes "heartbeat_message fd srv message now c = Inr c'" and "conforms c0 c" and "listed c0 srv"
  shows "conforms c0 c'"
  using assms by (auto simp: heartbeat_message_def split: if_splits dest: heartbeat_closed_typed intro: typed_frame [rotated])

lemma check_failures_typed:
  assumes "check_failures now c = Inr c'" and "conforms c0 c"
  shows "conforms c0 c'"
proof -
  let ?f = "\<lambda>(fd, srv) (removed, c). if is_late now srv c
              then ebind (handle_server_failure srv c) (\<lambda>c'. Inr (removed @ [(fd, srv)], c'))
              else Inr (removed, c)"
  from assms(1) obtain removed d where d: "efold ?f (all_servers c) ([], c) = Inr (removed, d)"
    and c': "c' = d\<lparr>all_servers := filter (\<lambda>x. x \<notin> set removed) (all_servers d)\<rparr>"
    by (auto simp: check_failures_def elim!: ebind_InrE)
  have "conforms c0 d" if "efold ?f xs (rm, e) = Inr (removed, d)" "conns_in c0 xs" "conforms c0 e" for xs rm e
    using that
  proof (induction xs arbitrary: rm e)
    case (Cons x xs)
    obtain fd srv where x: "x = (fd, srv)" by (cases x)
    have l: "listed c0 srv" "conns_in c0 xs" using Cons.prems(2) by (auto simp: x conns_in_def)
    show ?case
    proof (cases "is_late now srv e")
      case True
      with Cons.prems(1) obtain e' where e': "handle_server_failure srv e = Inr e'"
        and rest: "efold ?f xs (rm @ [(fd, srv)], e') = Inr (removed, d)"
        by (auto simp: x elim!: ebind_InrE)
      from Cons.IH [OF rest l(2) handle_server_failure_typed [OF e' Cons.prems(3) l(1)]] show ?thesis .
    next
      case False
      with Cons.prems(1) have "efold ?f xs (rm, e) = Inr (removed, d)" by (simp add: x)
      from Cons.IH [OF this l(2) Cons.prems(3)] show ?thesis .
    qed
  qed simp
  from this [OF d _ assms(2)] have "conforms c0 d" using assms(2) by (simp add: conforms_def)
  then show ?thesis unfolding c' by (rule typed_forget) auto
qed

lemma stop_request_typed:
  assumes run: "stop_request fd message c = Inr c'" and ok: "conforms c0 c"
  shows "conforms c0 c'"
proof -
  from run consider "roster c' = roster c"
    | srv p where "map_of (partition_info c) srv = Some p" "srv \<notin> set (paused_at c p)"
        "roster c' = roster (pause_server fd srv p c)"
    by (auto simp: stop_request_def Let_def split: if_splits option.splits dest: elect_roster)
  then show ?thesis
  proof cases
    case 2
    have "known c0 srv p"
      using 2(1) ok by (auto simp: conforms_def parts_in_def known_def)
    with 2(2) ok have "conforms c0 (c\<lparr>paused_servers := AList.update p (paused_at c p @ [srv]) (paused_servers c)\<rparr>)"
      using sets_in_add [of c0 "paused_servers c" srv p] by (simp add: conforms_def paused_at_def)
    moreover have "roster (pause_server fd srv p c) =
        roster (c\<lparr>paused_servers := AList.update p (paused_at c p @ [srv]) (paused_servers c)\<rparr>)"
      by (simp add: pause_server_def send_server_def write_fd_def roster_def)
    ultimately show ?thesis using typed_frame 2(3) by metis
  qed (rule typed_frame [OF _ ok])
qed

lemma start_request_typed:
  assumes run: "start_request fd message c = Inr c'" and ok: "conforms c0 c"
  shows "conforms c0 c'"
proof -
  from run consider "roster c' = roster c" | srv p where "roster c' = roster (resume_server srv p c)"
    by (auto simp: start_request_def Let_def split: if_splits option.splits elim!: ebind_InrE dest: elect_roster)
  then show ?thesis
  proof cases
    case 2
    have "conforms c0 (resume_server srv p c)"
      using ok sets_in_removeAll [of c0 "paused_servers c"] by (simp add: resume_server_def conforms_def paused_at_def)
    then show ?thesis by (rule typed_frame [OF 2])
  qed (rule typed_frame [OF _ ok])
qed

lemma frontend_message_typed:
  assumes "frontend_message fd message c = Inr c'" and "conforms c0 c"
  shows "conforms c0 c'"
proof -
  have helo: "roster c' = roster c" if "helo fd message c = Inr c'"
    using that by (auto simp: helo_def Let_def split: if_splits elim!: ebind_InrE dest!: choose_roster)
  from assms(1) consider "roster c' = roster c" | "helo fd message c = Inr c'"
    | "stop_request fd message c = Inr c'" | "start_request fd message c = Inr c'"
    by (auto simp: frontend_message_def list_servers_def split: if_splits)
  then show ?thesis
    using helo typed_frame stop_request_typed start_request_typed assms(2) by cases metis+
qed

lemma comm_message_typed:
  assumes "comm_message srv message c = Inr c'" and "conforms c0 c"
  shows "conforms c0 c'"
  by (rule typed_frame [OF _ assms(2)])
     (use assms(1) in \<open>auto simp: comm_message_def split: if_splits elim!: ebind_InrE\<close>)

section \<open>Every round keeps the types\<close>

text \<open>A loop over connections whose steps keep the invariant for the servers it is given.\<close>

lemma efold_typed:
  assumes "efold f xs c = Inr c'" and "conforms c0 c" and "\<And>x. x \<in> set xs \<Longrightarrow> P x"
    and "\<And>x a b. P x \<Longrightarrow> f x a = Inr b \<Longrightarrow> conforms c0 a \<Longrightarrow> conforms c0 b"
  shows "conforms c0 c'"
  using assms(1-3) by (induction xs arbitrary: c) (auto elim!: ebind_InrE intro: assms(4))

lemma typed_listed: "conforms c0 c \<Longrightarrow> x \<in> set (all_servers c) \<Longrightarrow> listed c0 (snd x)"
  by (auto simp: conforms_def conns_in_def)

lemma close_comm_typed: "conforms c0 c \<Longrightarrow> conforms c0 (close_comm i c)"
proof -
  have "roster (fold comm_closed xs c) = roster c" for xs by (induction xs arbitrary: c) simp_all
  then show "conforms c0 c \<Longrightarrow> conforms c0 (close_comm i c)" unfolding close_comm_def by (rule typed_frame)
qed

lemma storage_round_typed:
  assumes run: "storage_round i c = Inr (Next c')" and ok: "conforms c0 c"
  shows "conforms c0 c'"
proof -
  let ?c = "close_comm i c"
  have ok': "conforms c0 ?c" by (rule close_comm_typed [OF ok])
  from run obtain c1 skip c2 where 1: "close_heartbeats i ?c = Inr c1" and 2: "new_heartbeat i c1 = Inr (skip, c2)"
    and rest: "c' = c2 \<or> (\<exists>c3 c4 c5. new_comm i c2 = Inr c3 \<and> read_heartbeats i c3 = Inr c4
      \<and> check_failures (st_check i) c4 = Inr c5 \<and> read_comm i c5 = Inr c')"
    by (auto simp: storage_round_def shutdown_def elim!: ebind_InrE split: if_splits)
  have c1: "conforms c0 c1"
    by (rule efold_typed [OF 1 [unfolded close_heartbeats_def] ok' typed_listed [OF ok']])
       (auto dest: heartbeat_closed_typed split: if_splits)
  have c2: "conforms c0 c2"
    using 2 c1 by (auto simp: new_heartbeat_def split: option.splits elim!: ebind_InrE dest: accept_heartbeat_typed)
  from rest show ?thesis
  proof (elim disjE exE conjE)
    fix c3 c4 c5
    assume 3: "new_comm i c2 = Inr c3" and 4: "read_heartbeats i c3 = Inr c4"
      and 5: "check_failures (st_check i) c4 = Inr c5" and 6: "read_comm i c5 = Inr c'"
    have c3: "conforms c0 c3"
      using 3 c2 by (auto simp: new_comm_def split: option.splits dest: accept_comm_typed)
    have "conforms c0 c4"
      by (rule efold_typed [OF 4 [unfolded read_heartbeats_def] c3 typed_listed [OF c3]])
         (auto dest: heartbeat_message_typed split: option.splits)
    from check_failures_typed [OF 5 this] show "conforms c0 c'"
      by (rule efold_typed [where P = "\<lambda>_. True", OF 6 [unfolded read_comm_def]])
         (auto dest: comm_message_typed split: option.splits)
  qed (simp add: c2)
qed

lemma frontend_round_typed:
  assumes "frontend_round i (conns, c) = Inr (Next (conns', c'))" and "conforms c0 c"
  shows "conforms c0 c'"
proof -
  from assms(1) have "c' = c \<or> (\<exists>c1 k. greet_frontend i (k, c) = (conns', c1) \<and> serve_frontends i conns' c1 = Inr c')"
    by (auto simp: frontend_round_def Let_def shutdown_def split: if_splits prod.splits elim!: ebind_InrE)
  then show ?thesis
  proof (elim disjE exE conjE)
    fix c1 k
    assume greet: "greet_frontend i (k, c) = (conns', c1)" and serve: "serve_frontends i conns' c1 = Inr c'"
    have "conforms c0 c1"
      by (rule typed_frame [OF _ assms(2)]) (use greet in \<open>auto simp: greet_frontend_def split: option.splits\<close>)
    then show "conforms c0 c'"
      by (rule efold_typed [where P = "\<lambda>_. True", OF serve [unfolded serve_frontends_def]])
         (auto dest: frontend_message_typed split: option.splits)
  qed (simp add: assms(2))
qed

lemma coordinator_loop_typed:
  assumes "coordinator_loop ts (conns, c) = Inr (Next (conns', c'))" and "conforms c0 c"
  shows "conforms c0 c'"
  using assms
proof (induction ts arbitrary: conns c)
  case (Cons t ts)
  from Cons.prems(1) obtain k d where t: "coordinator_turn t (conns, c) = Inr (Next (k, d))"
    and rest: "coordinator_loop ts (k, d) = Inr (Next (conns', c'))"
    by (auto elim!: ebind_InrE split: round.splits)
  have "conforms c0 d"
  proof (cases t)
    case (Frontends i)
    with t have "frontend_round i (conns, c) = Inr (Next (k, d))" by (simp add: coordinator_turn_def)
    from frontend_round_typed [OF this Cons.prems(2)] show ?thesis .
  next
    case (Storage i)
    with t have "storage_round i c = Inr (Next d)"
      by (auto simp: coordinator_turn_def elim!: ebind_InrE split: round.splits)
    from storage_round_typed [OF this Cons.prems(2)] show ?thesis .
  next
    case (Rand rs)
    with t have "roster d = roster c" by (auto simp: coordinator_turn_def)
    from typed_frame [OF this Cons.prems(2)] show ?thesis .
  next
    case Interrupt
    with t show ?thesis by (simp add: coordinator_turn_def shutdown_def)
  qed
  from Cons.IH [OF rest this] show ?case .
qed simp

text \<open>What is loaded from the storage file is the reference for its own types.\<close>

lemma load_server_adds:
  assumes "load_server line c = Inr c'"
  obtains (found) a1 a2 a3 srv p where "srv \<noteq> []"
    and "server_info c' = AList.update a1 srv (AList.update a2 srv (AList.update a3 srv (server_info c)))"
    and "partition_info c' = AList.update srv p (partition_info c)"
proof -
  have added: thesis
    if "Inr (c\<lparr>server_info := AList.update a1 srv (AList.update a2 srv (AList.update a3 srv (server_info c))),
        partition_info := AList.update srv p (partition_info c), partition_count := k\<rparr>) = (Inr c' :: exn + coord)"
      and "srv \<noteq> []" for a1 a2 a3 srv p k
    by (rule found [OF that(2)]) (use that(1) in auto)
  show thesis
    using assms unfolding load_server_def Let_def by (elim ebind_InrE) (erule added, simp)
qed

lemma load_servers_typed:
  assumes "load_servers text initial_coord = Inr c"
  shows "conforms c c"
proof -
  let ?P = "\<lambda>c. infos_in c (server_info c) \<and> map_of (partition_info c) [] = None"
  have "?P c"
  proof (rule efold_invariant [where P = ?P, OF _ _ assms [unfolded load_servers_def]])
    show "?P initial_coord" by (simp add: initial_coord_def infos_in_def)
    show "?P c'" if "?P c" and "load_server line c = Inr c'" for line c c'
      using that(2)
    proof (rule load_server_adds)
      fix a1 a2 a3 srv p
      assume srv: "srv \<noteq> []"
        and info: "server_info c' = AList.update a1 srv (AList.update a2 srv (AList.update a3 srv (server_info c)))"
        and part: "partition_info c' = AList.update srv p (partition_info c)"
      have "listed c s \<Longrightarrow> listed c' s" "listed c' srv" for s by (auto simp: listed_def part)
      with that(1) srv show "?P c'" by (auto simp: infos_in_def info part)
    qed
  qed
  then show ?thesis
    using load_servers_ok [OF assms] by (simp add: conforms_def parts_in_def conns_in_def sets_in_def set_at_def)
qed

section \<open>Properties\<close>

text \<open>
  C10: Whatever the rounds of the two threads read, accept and find closed, in any order of whole
  rounds, the coordinator lists a server with a name alive or paused only in the partition the
  storage file gives it, and once; the same holds of a primary with a name, which is also alive and
  not paused. The only other name that can appear is the empty one (\<open>stranger_ends_coordinator\<close>).
\<close>

theorem servers_of_the_file:
  assumes "load_servers storage_file initial_coord = Inr c0"
    and "coordinator_process storage_file turns = Inr (Next (conns, c))"
  shows "distinct (alive_at c p) \<and> distinct (paused_at c p)
    \<and> (\<forall>s. s \<noteq> [] \<and> (s \<in> set (alive_at c p) \<or> s \<in> set (paused_at c p)) \<longrightarrow> map_of (partition_info c0) s = Some p)
    \<and> (\<forall>s. s \<noteq> [] \<and> map_of (primary_server c) p = Some s \<longrightarrow>
         map_of (partition_info c0) s = Some p \<and> s \<in> set (alive_at c p) \<and> s \<notin> set (paused_at c p))"
proof -
  from assms have loop: "coordinator_loop turns ([], c0) = Inr (Next (conns, c))"
    by (simp add: coordinator_process_def)
  have "primary_ok c0" using load_servers_ok [OF assms(1)] by (simp add: primary_ok_def)
  from coordinator_loop_primary_ok [OF loop this]
  have prim: "map_of (primary_server c) p = Some s \<Longrightarrow> s \<noteq> [] \<Longrightarrow> s \<in> set (alive_at c p) \<and> s \<notin> set (paused_at c p)" for s
    by (auto simp: primary_ok_def serving_def)
  from coordinator_loop_typed [OF loop load_servers_typed [OF assms(1)]]
  have sets: "sets_in c0 (alive_servers c)" "sets_in c0 (paused_servers c)" by (simp_all add: conforms_def)
  then have in_part: "s \<noteq> [] \<Longrightarrow> s \<in> set (alive_at c p) \<or> s \<in> set (paused_at c p) \<Longrightarrow> map_of (partition_info c0) s = Some p" for s
    by (auto simp: sets_in_def alive_at_def paused_at_def known_def)
  have "distinct (alive_at c p)" "distinct (paused_at c p)"
    using sets by (simp_all add: sets_in_def alive_at_def paused_at_def)
  with prim in_part show ?thesis by blast
qed

definition idle_round :: storage_input where
  "idle_round = \<lparr>st_closed = [], st_select = True, st_heartbeat = None, st_comm = None, st_read = [], st_check = 0\<rparr>"

definition two_arrive :: "turn list" where
  "two_arrive = [Rand [0, 0], Storage (idle_round\<lparr>st_heartbeat := Some (''h:1'', 10, 0)\<rparr>),
     Storage (idle_round\<lparr>st_heartbeat := Some (''h:5'', 11, 0)\<rparr>), Storage (idle_round\<lparr>st_heartbeat := Some (''x:9'', 12, 0)\<rparr>)]"

theorem servers_of_the_file_witness:
  "\<exists>c0 conns c. load_servers storage_servers initial_coord = Inr c0
     \<and> coordinator_process storage_servers two_arrive = Inr (Next (conns, c))
     \<and> alive_at c 1 = [''h:1:2:3:4'', ''h:5:6:7:8''] \<and> distinct (alive_at c 1)
     \<and> map_of (partition_info c0) ''h:5:6:7:8'' = Some 1"
proof -
  have "ends_in (load_servers storage_servers initial_coord) (\<lambda>_. True)" by code_simp
  then obtain c0 where c0: "load_servers storage_servers initial_coord = Inr c0" by (auto elim!: ends_inE)
  have "ends_in (coordinator_process storage_servers two_arrive)
      (\<lambda>r. case r of Next (conns, c) \<Rightarrow> alive_at c 1 = [''h:1:2:3:4'', ''h:5:6:7:8''] | Stopped c \<Rightarrow> False)"
    by code_simp
  then obtain r where run: "coordinator_process storage_servers two_arrive = Inr r"
    and r: "case r of Next (conns, c) \<Rightarrow> alive_at c 1 = [''h:1:2:3:4'', ''h:5:6:7:8''] | Stopped c \<Rightarrow> False"
    by (rule ends_inE)
  then obtain conns c where n: "r = Next (conns, c)" "alive_at c 1 = [''h:1:2:3:4'', ''h:5:6:7:8'']"
    by (auto split: round.splits)
  from servers_of_the_file [OF c0 run [unfolded n(1)], of 1] n(2)
  have "distinct (alive_at c 1)" "map_of (partition_info c0) ''h:5:6:7:8'' = Some 1" by simp_all
  with c0 run n show ?thesis by blast
qed

text \<open>
  C39: an address that is not in the storage file becomes known by a communication connection,
  which is not checked: its heartbeat connection is then taken for that of a server with the
  empty name, which is made the primary of partition 0, and the next communication connection
  of any unknown address ends the coordinator.
\<close>

theorem stranger_ends_coordinator:
  assumes "load_servers storage_file initial_coord = Inr c0" and "map_of (partition_info c0) [] = None"
    and "map_of (server_info c0) addr = None"
    and "map_of (server_info c0) other = None"
  shows "\<exists>c. efold handle_event [Random (r # rs), Comm_conn addr fd1, Heartbeat_conn addr fd2 now] c0 = Inr c
      \<and> alive_at c 0 = [[]] \<and> map_of (primary_server c) 0 = Some []
      \<and> handle_event (Comm_conn other fd3) c = Inl Out_of_range"
proof -
  note c0 = load_servers_ok [OF assms(1)]
  define c1 where "c1 = write_fd fd1 (''-ERR No primary server available'' @ crlf)
     (c0\<lparr>rands := r # rs, server_info := AList.update addr [] (server_info c0),
        comm_fd := AList.update [] fd1 (comm_fd c0), partition_info := AList.update [] 0 (partition_info c0)\<rparr>)"
  have 1: "accept_comm addr fd1 (c0\<lparr>rands := r # rs\<rparr>) = Inr c1"
    using c0 assms(2,3) by (simp add: accept_comm_def name_at_def touch_def int_at_def Let_def c1_def write_fd_def)
  obtain c2 where 2: "accept_heartbeat addr fd2 now c1 = Inr c2" "alive_at c2 0 = [[]]"
      "map_of (primary_server c2) 0 = Some []" "map_of (server_info c2) = (map_of (server_info c0))(addr \<mapsto> [])"
      "int_at (partition_info c2) [] = 0"
    using c0 by (auto simp: accept_heartbeat_def c1_def write_fd_def int_at_def touch_def alive_at_def set_at_def Let_def
        choose_random_server_def paused_at_def)
  have "name_at c2 other = []" using assms(4) 2(4) by (simp add: name_at_def)
  then have "accept_comm other fd3 c2 = Inl Out_of_range"
    using 2(3,5) by (auto simp: accept_comm_def Let_def int_at_def touch_def primary_message_def at_def split: option.splits)
  with 1 2 show ?thesis by (intro exI [of _ c2]) simp
qed

theorem stranger_ends_coordinator_witness:
  "\<exists>c0 c. load_servers storage_servers initial_coord = Inr c0
     \<and> efold handle_event [Random [0], Comm_conn ''x:9'' 10, Heartbeat_conn ''x:9'' 11 0] c0 = Inr c
     \<and> handle_event (Comm_conn ''x:9'' 12) c = Inl Out_of_range"
proof -
  have "ends_in (load_servers storage_servers initial_coord)
      (\<lambda>c0. map_of (partition_info c0) [] = None \<and> map_of (server_info c0) ''x:9'' = None)" by code_simp
  then obtain c0 where "load_servers storage_servers initial_coord = Inr c0"
      "map_of (partition_info c0) [] = None" "map_of (server_info c0) ''x:9'' = None" by (auto elim!: ends_inE)
  from stranger_ends_coordinator [OF this this(3), of 0 "[]" 10 11 0 12] this(1) show ?thesis by blast
qed

end
