(* ===== verification/Tpc_Writes.thy ===== *)
theory Tpc_Writes
  imports Tpc_Safety Backend_Client
begin

text \<open>
  One write at a time through two-phase commit, on one server: how a primary starts it, what a replica
  makes of the \<open>PREPARE\<close> and of the decision, how votes are counted, and what the commit leaves behind,
  for every request that changes the map.
\<close>

section \<open>Where a server is\<close>

definition tablets_up :: "node \<Rightarrow> bool" where
  "tablets_up n \<longleftrightarrow> (\<forall>t < 5. active_tablets n t \<and> \<not> checkpointing n t \<and> \<not> recovering n t)"

text \<open>A request the servers can pass on as a line.\<close>

definition line_ok :: "request \<Rightarrow> bool" where
  "line_ok r \<longleftrightarrow> CHR 0x0D \<notin> set (render r) \<and> \<not> isspace (last (render r))"

definition write_ok :: "request \<Rightarrow> store \<Rightarrow> bool" where
  "write_ok r m \<longleftrightarrow> request_ok r m \<and> changes r m \<and> line_ok r"

text \<open>The frontend that waits for the end of transaction \<open>h\<close> at this server.\<close>

definition waiter :: "string \<Rightarrow> node \<Rightarrow> int list" where
  "waiter h n =
     (case map_of (msg_queue n) h of None \<Rightarrow> [] | Some q \<Rightarrow> if from_frontend q then [mq_fd q] else [])"

definition waits_for :: "request \<Rightarrow> string \<Rightarrow> node \<Rightarrow> bool" where
  "waits_for r h n \<longleftrightarrow>
     (\<forall>q. map_of (msg_queue n) h = Some q \<longrightarrow> from_frontend q \<longrightarrow> mq_opt q = opt_of (keyword r) \<and> 0 \<le> mq_fd q)"

text \<open>After \<open>q\<close> transactions, with the map \<open>m\<close>, nothing pending.\<close>

definition settled_at :: "int \<Rightarrow> store \<Rightarrow> node \<Rightarrow> bool" where
  "settled_at q m n \<longleftrightarrow>
     last_seq n = q \<and> tpc_seq n = q \<and> \<not> tpc_queue_locked n \<and> store_of n = m \<and> lock_inv n \<and> tablets_up n \<and>
     (\<forall>s > q. s \<notin> set (queued_transactions n) \<and> map_of (tpc_queue n) s = None \<and> map_of (tpc_responses n) s = None)"

text \<open>Transaction \<open>q + 1\<close>, the write \<open>r\<close>, is pending; the lock of its key is \<open>l\<close>, all others are free.\<close>

definition pending_at :: "rwlock \<Rightarrow> int \<Rightarrow> store \<Rightarrow> string \<Rightarrow> request \<Rightarrow> node \<Rightarrow> bool" where
  "pending_at l q m h r n \<longleftrightarrow>
     last_seq n = q \<and> tpc_seq n = q + 1 \<and> \<not> tpc_queue_locked n \<and> store_of n = m \<and> tablets_up n \<and>
     map_of (row_locks n) (request_key r) = Some l \<and>
     lock_inv (n\<lparr>row_locks := AList.update (request_key r) Free (row_locks n)\<rparr>) \<and>
     map_of (tpc_queue n) (q + 1) = Some \<lparr>tx_status = ''PREPARE'', tx_command = render r, tx_hash = h\<rparr> \<and>
     (\<forall>s > q + 1. s \<notin> set (queued_transactions n) \<and> map_of (tpc_queue n) s = None \<and> map_of (tpc_responses n) s = None)"

text \<open>The fields of a server that writing does not touch.\<close>

definition wiring :: "node \<Rightarrow> int \<times> int \<times> bool \<times> int list \<times> string \<times> bool \<times> string list" where
  "wiring n = (primary_fd n, primary_port n, primary_recovering n, partition_fds n, IP n, is_primary n, alive_replicas n)"

lemma wiring_fields:
  "wiring p = wiring n \<Longrightarrow> primary_fd p = primary_fd n" "wiring p = wiring n \<Longrightarrow> primary_port p = primary_port n"
  "wiring p = wiring n \<Longrightarrow> partition_fds p = partition_fds n" "wiring p = wiring n \<Longrightarrow> IP p = IP n"
  "wiring p = wiring n \<Longrightarrow> is_primary p = is_primary n" "wiring p = wiring n \<Longrightarrow> alive_replicas p = alive_replicas n"
  by (simp_all add: wiring_def)

section \<open>Lemmas: requests\<close>

lemma tablets_upD: "tablets_up n \<Longrightarrow> active_tablets n (get_tablet row)" "tablets_up n \<Longrightarrow> \<not> checkpointing n (get_tablet row)"
  "tablets_up n \<Longrightarrow> \<not> is_recovering n"
  by (auto simp: tablets_up_def is_recovering_def)

lemma tablets_up_of: "tablets_up n \<Longrightarrow> active_tablets n (tablet_of r)" "tablets_up n \<Longrightarrow> \<not> checkpointing n (tablet_of r)"
  by (simp_all add: tablet_of_def tablets_upD)

lemma store_of_fields: "store_of n = (\<lambda>(row, col). map_of (table n (get_tablet row)) (row, col))"
  by (simp add: store_of_def lookup_def)

lemma render_line:
  assumes "request_ok r m" and "line_ok r"
  shows "CHR 0x0D \<notin> set (render r)" "render r \<noteq> []" "\<not> isspace (last (render r))" "\<not> contains (render r) ''TSEQNUM''"
  using assms request_words(3) [OF assms(1)] render_shape
  by (cases r; auto simp: line_ok_def ordinary_def put_cmd_def cput_cmd_def delete_cmd_def)+

lemma put_write_ok:
  assumes "word row" and "word col" and "val_ok v"
  shows "write_ok (Put row col v) m"
  using assms ordinary_lines(2) [OF assms]
  by (auto simp: write_ok_def changes_def line_ok_def put_cmd_def val_ok_def)

text \<open>The row and the column, as the 2PC queue cuts them out of a command.\<close>

lemma render_row:
  assumes "request_ok r m"
  defines "rest \<equiv> substr_after (render r) (str_find (render r) '' '')"
  shows "substr_to rest (str_find rest '' '') = fst (request_key r)"
    and "substr_between rest (str_find rest '' '') (str_find_from rest '' '' (npos_succ (str_find rest '' ''))) = snd (request_key r)"
proof -
  obtain s where s: "render r = keyword r @ '' '' @ fst (request_key r) @ '' '' @ snd (request_key r) @ s"
    "s = [] \<or> (\<exists>s'. s = CHR '' '' # s')" using request_cuts(3) [OF assms(1)] by blast
  note w = request_words(1,2) [OF assms(1)]
  let ?row = "fst (request_key r)" and ?col = "snd (request_key r)"
  have "CHR '' '' \<notin> set (keyword r)" by (cases r) simp_all
  then have rest: "rest = ?row @ '' '' @ ?col @ s"
    using rcv_cut(1) [of "keyword r" ?row "?col @ s"] w(1) by (simp add: rest_def s(1))
  have sp: "str_find rest '' '' = Some (length ?row)" using w(1) by (simp add: rest word_ok_def)
  show "substr_to rest (str_find rest '' '') = ?row" using rcv_cut(2) [OF _ w(1), of "[]" "?col @ s"] by (simp add: rest)
  have "str_find_from rest '' '' (Suc (length ?row)) = (if s = [] then None else Some (Suc (length ?row) + length ?col))"
    using str_find_from_append [of "?row @ '' ''" "?col @ s" "'' ''"] w(2) s(2) by (auto simp: rest word_ok_def)
  then show "substr_between rest (str_find rest '' '') (str_find_from rest '' '' (npos_succ (str_find rest '' ''))) = ?col"
    using s(2) by (auto simp: sp) (auto simp: rest substr_between_def)
qed

section \<open>Lemmas: applying a commit\<close>

text \<open>The text a frontend is told once the write is applied.\<close>

definition done_text :: "request \<Rightarrow> string" where
  "done_text r = generate_client_response True (opt_of (keyword r))"

lemma done_text_step: "changes r m \<Longrightarrow> snd (kv_step r m) = done_text r"
  by (simp add: done_text_def reply_change)

text \<open>What a reply writes, and what it leaves alone.\<close>

lemma reply_frontend_fields:
  "tpc_queue (reply_frontend b h n) = tpc_queue n" "queued_transactions (reply_frontend b h n) = queued_transactions n"
  "tpc_responses (reply_frontend b h n) = tpc_responses n" "tpc_seq (reply_frontend b h n) = tpc_seq n"
  "tpc_queue_locked (reply_frontend b h n) = tpc_queue_locked n" "active_tablets (reply_frontend b h n) = active_tablets n"
  "checkpointing (reply_frontend b h n) = checkpointing n" "recovering (reply_frontend b h n) = recovering n"
  "primary_fd (reply_frontend b h n) = primary_fd n" "primary_port (reply_frontend b h n) = primary_port n"
  "primary_recovering (reply_frontend b h n) = primary_recovering n" "partition_fds (reply_frontend b h n) = partition_fds n"
  "role (reply_frontend b h n) = role n"
  by (simp_all add: reply_frontend_def do_write_backend_def send_def role_def Let_def split: option.split)

lemma reply_frontend_waiter:
  assumes "tablets_up n" and "waits_for r h n"
  shows "net (reply_frontend True h n) = net n @ map (\<lambda>fd. (fd, done_text r)) (waiter h n)"
    and "waiter h' (reply_frontend True h n) = (if h' = h then [] else waiter h' n)"
  using assms(2) tablets_upD(2) [OF assms(1)]
  by (auto simp: reply_frontend_def waiter_def do_write_backend_def done_text_def waits_for_def Let_def send_def
      split: option.split)

lemma set_msg_success_fields:
  "set_msg_success h d n = n\<lparr>msg_queue := msg_queue (set_msg_success h d n)\<rparr>"
  "waiter h' (set_msg_success h d n) = waiter h' n"
  "waits_for r h' n \<Longrightarrow> waits_for r h' (set_msg_success h d n)"
  by (auto simp: set_msg_success_def waiter_def waits_for_def split: option.split)

lemma commit_step_write:
  fixes k :: int
  assumes "tx_status t = ''COMMIT''" and "tx_command t = render r" and ok: "write_ok r (store_of n)"
    and lock: "map_of (row_locks n) (request_key r) = Some Writer" and act: "active_tablets n (tablet_of r)"
  defines "y \<equiv> log_message (render r) (k + 1) (tablet_of r) (take_transaction k n)"
  shows "tpc_step k t n = Inr (reply_frontend True (tx_hash t)
    (y\<lparr>table := (table n)(tablet_of r := new_table r (table n (tablet_of r))), row_locks := new_locks r (row_locks n)\<rparr>))"
proof -
  have req: "request_ok r (store_of n)" "changes r (store_of n)" using ok by (simp_all add: write_ok_def)
  have y: "row_locks y = row_locks n" "table y = table n"
    by (simp_all add: y_def log_message_def take_transaction_def Let_def)
  have "store_of y = store_of n" by (rule store_of_cong [OF y(2)])
  then have "execute_command (render r) y =
      Inr (y\<lparr>table := (table n)(tablet_of r := new_table r (table n (tablet_of r))), row_locks := new_locks r (row_locks n)\<rparr>)"
    using execute_change [of r y] req lock y by simp
  moreover have "ensure_loaded (tablet_of r) (take_transaction k n) = Inr (take_transaction k n)"
    using act by (simp add: ensure_loaded_def take_transaction_def)
  ultimately show ?thesis
    using assms(1,2) by (simp add: tpc_step_def tpc_commit_step_def Let_def render_row(1) [OF req(1)] y_def tablet_of_def [symmetric])
qed

lemma commit_pending:
  assumes pend: "pending_at Writer q m h r n" and ok: "write_ok r m" and w: "waits_for r h n"
  obtains p where "process_tpc_queue (set_tx_status (q + 1) ''COMMIT'' (set_msg_success h ''COMMIT'' n)) = Inr p"
    and "settled_at (q + 1) (fst (kv_step r m)) p" and "wiring p = wiring n"
    and "net p = net n @ map (\<lambda>fd. (fd, done_text r)) (waiter h n)"
    and "\<And>h'. waiter h' p = (if h' = h then [] else waiter h' n)"
proof -
  let ?k = "request_key r" and ?t = "tablet_of r"
  let ?tx = "\<lparr>tx_status = ''COMMIT'', tx_command = render r, tx_hash = h\<rparr>"
  define n1 where "n1 = set_msg_success h ''COMMIT'' n"
  have n1: "n1 = n\<lparr>msg_queue := msg_queue n1\<rparr>" unfolding n1_def by (rule set_msg_success_fields(1))
  have f: "last_seq n = q" "\<not> tpc_queue_locked n" "store_of n = m" "tablets_up n" "map_of (row_locks n) ?k = Some Writer"
    "map_of (tpc_queue n) (q + 1) = Some (?tx\<lparr>tx_status := ''PREPARE''\<rparr>)"
    "lock_inv (n\<lparr>row_locks := AList.update ?k Free (row_locks n)\<rparr>)" "tpc_seq n = q + 1"
    "\<forall>s > q + 1. s \<notin> set (queued_transactions n) \<and> map_of (tpc_queue n) s = None \<and> map_of (tpc_responses n) s = None"
    using pend by (simp_all add: pending_at_def)
  define n2 where "n2 = set_tx_status (q + 1) ''COMMIT'' n1"
  have n2: "n2 = n\<lparr>msg_queue := msg_queue n1, tpc_queue := AList.update (q + 1) ?tx (tpc_queue n)\<rparr>"
    unfolding n2_def set_tx_status_def by (subst (1 2 3 4) n1) (simp add: f)
  let ?n = "n2\<lparr>tpc_queue_locked := True\<rparr>"
  define y where "y = (log_message (render r) (q + 1 + 1) ?t (take_transaction (q + 1) ?n))
      \<lparr>table := (table ?n)(?t := new_table r (table ?n ?t)), row_locks := new_locks r (row_locks ?n)\<rparr>"
  let ?x = "reply_frontend True h y"
  let ?p = "?x\<lparr>tpc_queue_locked := False\<rparr>"
  have lk: "\<not> tpc_queue_locked n2" "map_of (tpc_queue n2) (last_seq n2 + 1) = Some ?tx"
    by (simp_all add: n2 f)
  have "store_of ?n = store_of n" by (rule store_of_cong) (simp add: n2)
  then have "tpc_step (q + 1) ?tx ?n = Inr ?x"
    using commit_step_write [of ?tx r ?n "q + 1"] ok f(5) tablets_up_of(1) [OF f(4), of r] by (simp add: y_def f(3)) (simp add: n2)
  then have run: "process_tpc_queue n2 = Inr ?p"
    using process_tpc_queue_head [OF lk] by (simp add: n2 f)
  have y: "table y = (table n)(?t := new_table r (table n ?t))" "row_locks y = new_locks r (row_locks n)"
    "last_seq y = q + 1" "tpc_seq y = q + 1" "queued_transactions y = queued_transactions n"
    "tpc_responses y = tpc_responses n" "tpc_queue y = AList.delete (q + 1 + 1) (AList.update (q + 1) ?tx (tpc_queue n))"
    "active_tablets y = active_tablets n" "checkpointing y = checkpointing n" "recovering y = recovering n"
    "msg_queue y = msg_queue n1" "net y = net n" "role y = role n" "primary_fd y = primary_fd n"
    "primary_port y = primary_port n" "primary_recovering y = primary_recovering n" "partition_fds y = partition_fds n"
    by (simp_all add: y_def n2 f log_message_def take_transaction_def role_def Let_def)
  have up: "tablets_up y" using f(4) by (simp add: tablets_up_def y)
  have wy: "waiter h' y = waiter h' n" for h'
    using set_msg_success_fields(2) [of h' h "''COMMIT''" n] by (simp add: waiter_def y n1_def)
  have wp: "waits_for r h y"
    using set_msg_success_fields(3) [OF w, of h "''COMMIT''"] by (simp add: waits_for_def y n1_def)
  note rep = reply_frontend_waiter [OF up wp] reply_frontend_fields reply_frontend_frame
  show thesis
  proof (rule that [of ?p])
    show "process_tpc_queue (set_tx_status (q + 1) ''COMMIT'' (set_msg_success h ''COMMIT'' n)) = Inr ?p"
      using run unfolding n2_def n1_def .
    show "net ?p = net n @ map (\<lambda>fd. (fd, done_text r)) (waiter h n)"
      using rep(1) wy by (simp add: y)
    show "waiter h' ?p = (if h' = h then [] else waiter h' n)" for h'
      using rep(2) [of h'] wy by (simp add: waiter_def)
    show "wiring ?p = wiring n"
      using rep(15) [of True h y] y(13) by (simp add: wiring_def rep y role_def)
    have ch: "changes r (store_of n)" using ok f(3) by (simp add: write_ok_def)
    have store: "store_of ?p = fst (kv_step r m)"
      using store_change [of r n ?p] ch f(3) y(1) by simp
    have "lock_inv ?p"
      by (rule locks_change [OF f(7), of _ r "row_locks n"]) (use ch in \<open>auto simp: y changes_def\<close>)
    then show "settled_at (q + 1) (fst (kv_step r m)) ?p"
      using f(9) store up by (simp add: settled_at_def rep y tablets_up_def)
  qed
qed

section \<open>Lemmas: the messages\<close>

definition prepare_msg :: "string \<Rightarrow> int \<Rightarrow> string \<Rightarrow> string" where
  "prepare_msg h s cmd = decision_line ''PREPARE'' h s @ '':'' @ cmd"

definition vote_msg :: "string \<Rightarrow> string \<Rightarrow> int \<Rightarrow> node \<Rightarrow> string" where
  "vote_msg d h s n = decision_line d h s @ '':'' @ IP n @ '':'' @ to_string (primary_port n)"

text \<open>Names of transactions, numbers and addresses are written with digits, dots and signs.\<close>

definition numeric :: "string \<Rightarrow> bool" where
  "numeric s \<longleftrightarrow> (\<forall>c \<in> set s. isdigit c \<or> c = CHR ''-'' \<or> c = CHR ''.'')"

lemma numeric_to_string [simp]: "numeric (to_string k)"
  unfolding numeric_def by (blast dest: to_string_chars)

lemma numeric_notin: "numeric s \<Longrightarrow> \<not> isdigit c \<Longrightarrow> c \<noteq> CHR ''-'' \<Longrightarrow> c \<noteq> CHR ''.'' \<Longrightarrow> c \<notin> set s"
  by (auto simp: numeric_def)

lemma numeric_nospace: "numeric s \<Longrightarrow> \<forall>c \<in> set s. \<not> isspace c"
  unfolding numeric_def isdigit_def isspace_def by fastforce

lemma numericD:
  assumes "numeric s"
  shows "CHR '':'' \<notin> set s" "CHR ''Q'' \<notin> set s" "CHR 0x0D \<notin> set s" "CHR '' '' \<notin> set s" "CHR ''E'' \<notin> set s"
    "CHR ''N'' \<notin> set s" "CHR ''P'' \<notin> set s"
  by (rule numeric_notin [OF assms]; simp add: isdigit_def)+

lemma numeric_last: "numeric s \<Longrightarrow> s \<noteq> [] \<Longrightarrow> \<not> isspace (last s)"
  by (simp add: numeric_nospace)

lemma dispatch_tpc:
  assumes "\<not> coord_conn c" and "msg = ''TPC:'' @ s" and "\<not> contains msg ''TSEQNUM''" and "take 7 s \<noteq> ''REQUEST''"
  shows "dispatch H f c msg n = handle_tpc msg n"
proof -
  have "\<not> contains msg (''TSEQNUM'' @ ''RETURN'')" using assms(3) contains_front by blast
  then show ?thesis using assms by (simp add: dispatch_def handle_message_def substr_def)
qed

lemma serve_tpc:
  assumes "\<not> coord_conn c" and "msg = ''TPC:'' @ s" and "\<not> contains msg ''TSEQNUM''" and "take 7 s \<noteq> ''REQUEST''"
    and "CHR 0x0D \<notin> set msg" and "\<not> isspace (last msg)"
  shows "serve H f c (msg @ crlf) n = ebind (handle_tpc msg n) (\<lambda>m. Inr ([], m))"
proof -
  have "msg \<noteq> []" using assms(2) by simp
  from serve_line [OF assms(5) this assms(6), of H f c n] show ?thesis
    by (simp only: dispatch_tpc [OF assms(1-4)])
qed

text \<open>A message of numbers after its keywords, with no letter \<open>Q\<close>, is not taken for another one.\<close>

lemma contains_no_char: "c \<in> set p \<Longrightarrow> c \<notin> set s \<Longrightarrow> \<not> contains s p"
  by (rule not_contains_char)

lemma serve_decision:
  assumes "\<not> coord_conn c" and "numeric h" and "d = ''COMMIT'' \<or> d = ''ABORT''"
  shows "serve H f c (decision_line d h s @ crlf) n = ebind (handle_tpc (decision_line d h s) n) (\<lambda>m. Inr ([], m))"
proof (rule serve_tpc [OF assms(1), of _ "d @ '':'' @ h @ '':'' @ to_string s"])
  show "\<not> contains (decision_line d h s) ''TSEQNUM''"
    by (rule not_contains_char [of "CHR ''Q''"])
      (use assms(2,3) numericD(2) [OF numeric_to_string, of s] numericD(2) [of h] in \<open>auto simp: decision_line_def\<close>)
  show "CHR 0x0D \<notin> set (decision_line d h s)"
    using assms(2,3) numericD(3) [of h] by (auto simp: decision_line_def)
  show "\<not> isspace (last (decision_line d h s))"
    using numeric_last [OF numeric_to_string, of s] by (simp add: decision_line_def)
  show "take 7 (d @ '':'' @ h @ '':'' @ to_string s) \<noteq> ''REQUEST''" using assms(3) by auto
qed (simp add: decision_line_def)

lemma serve_vote:
  assumes "\<not> coord_conn c" and "numeric h" and "d = ''YES'' \<or> d = ''NO''" and "numeric (IP x)"
  shows "serve H f c (vote_msg d h s x @ crlf) n = ebind (handle_tpc (vote_msg d h s x) n) (\<lambda>m. Inr ([], m))"
proof (rule serve_tpc [OF assms(1), of _ "d @ '':'' @ h @ '':'' @ to_string s @ '':'' @ IP x @ '':'' @ to_string (primary_port x)"])
  note num = assms(2,4) numeric_to_string [of s] numeric_to_string [of "primary_port x"]
  show "\<not> contains (vote_msg d h s x) ''TSEQNUM''"
    by (rule not_contains_char [of "CHR ''Q''"])
      (use assms(3) num [THEN numericD(2)] in \<open>auto simp: vote_msg_def decision_line_def\<close>)
  show "CHR 0x0D \<notin> set (vote_msg d h s x)"
    using assms(3) num [THEN numericD(3)] by (auto simp: vote_msg_def decision_line_def)
  show "\<not> isspace (last (vote_msg d h s x))"
    using numeric_last [OF numeric_to_string, of "primary_port x"] by (simp add: vote_msg_def)
  show "take 7 (d @ '':'' @ h @ '':'' @ to_string s @ '':'' @ IP x @ '':'' @ to_string (primary_port x)) \<noteq> ''REQUEST''"
    using assms(3) by auto
qed (simp add: vote_msg_def decision_line_def)

lemma serve_prepare:
  assumes "\<not> coord_conn c" and "numeric h" and "\<not> contains cmd ''TSEQNUM''" and "CHR 0x0D \<notin> set cmd"
    and "cmd \<noteq> []" and "\<not> isspace (last cmd)"
  shows "serve H f c (prepare_msg h s cmd @ crlf) n = ebind (handle_tpc (prepare_msg h s cmd) n) (\<lambda>m. Inr ([], m))"
proof (rule serve_tpc [OF assms(1), of _ "''PREPARE:'' @ h @ '':'' @ to_string s @ '':'' @ cmd"])
  note num = assms(2) numeric_to_string [of s]
  have "\<not> contains (decision_line ''PREPARE'' h s) ''TSEQNUM''"
    by (rule not_contains_char [of "CHR ''Q''"]) (use num [THEN numericD(2)] in \<open>auto simp: decision_line_def\<close>)
  then show "\<not> contains (prepare_msg h s cmd) ''TSEQNUM''"
    using assms(3) sublist_sep [of "CHR '':''" "''TSEQNUM''" "decision_line ''PREPARE'' h s" cmd]
    by (simp add: prepare_msg_def contains_iff)
  show "CHR 0x0D \<notin> set (prepare_msg h s cmd)"
    using assms(4) num [THEN numericD(3)] by (auto simp: prepare_msg_def decision_line_def)
  show "\<not> isspace (last (prepare_msg h s cmd))" using assms(5,6) by (simp add: prepare_msg_def)
qed (simp_all add: prepare_msg_def decision_line_def)

section \<open>Lemmas: a replica\<close>

text \<open>A replica's connection to its primary (\<open>new_primary\<close> starts its thread).\<close>

definition to_primary :: "node \<Rightarrow> conn" where
  "to_primary n = \<lparr>connfd = primary_fd n, coord_conn = False, backend_conn = True, conn_address = []\<rparr>"

lemma lock_inv_free:
  assumes "lock_inv n" and "\<And>k'. map_of ls k' = (if k' = k then Some Free else map_of (row_locks n) k')"
  shows "lock_inv (n\<lparr>row_locks := ls\<rparr>)"
  using assms(1) unfolding lock_inv_def by (simp add: assms(2) lookup_def)

lemma settled_lock:
  assumes "settled_at q m n" and "request_ok r m" and x: "row_locks x = row_locks n"
  shows "get_command_locks (render r) x = (True,
    x\<lparr>row_locks := AList.update (request_key r) Writer (row_locks (ensure_lock (request_key r) n))\<rparr>)"
proof -
  let ?k = "request_key r"
  obtain ws where cut: "split (render r) CHR '' '' = keyword r # fst ?k # snd ?k # ws" using request_cuts(2) [OF assms(2)] by blast
  have inv: "lock_inv n" using assms(1) by (simp add: settled_at_def)
  have "map_of (row_locks (ensure_lock ?k x)) ?k = Some Free"
    using lock_invD(1) [OF inv, of ?k] x by (cases "map_of (row_locks n) ?k") (auto simp: ensure_lock_locks)
  moreover have "row_locks (ensure_lock ?k x) = row_locks (ensure_lock ?k n)"
    using x by (simp add: ensure_lock_def)
  moreover have "(ensure_lock ?k x)\<lparr>row_locks := ls\<rparr> = x\<lparr>row_locks := ls\<rparr>" for ls
    by (subst ensure_lock_row) simp
  ultimately show ?thesis by (simp add: get_command_locks_eq [OF cut] Let_def)
qed

lemma replica_prepares:
  assumes set: "settled_at q m n" and rep: "\<not> is_primary n" and h: "numeric h" and q: "0 \<le> q" "q + 1 < 2 ^ 31"
    and ok: "write_ok r m"
  obtains p where "serve H f (to_primary n) (prepare_msg h (q + 1) (render r) @ crlf) n = Inr ([], p)"
    and "pending_at Writer q m h r p" and "q + 1 \<notin> set (queued_transactions p)"
    and "wiring p = wiring n" and "msg_queue p = msg_queue n"
    and "net p = net n @ [(primary_fd n, vote_msg ''YES'' h (q + 1) n @ crlf)]"
proof -
  let ?k = "request_key r" and ?s = "q + 1" and ?cmd = "render r"
  let ?tx = "\<lparr>tx_status = ''PREPARE'', tx_command = ?cmd, tx_hash = h\<rparr>"
  let ?n2 = "(write_to_tpc_log (decision_line ''PREPARE'' h ?s) n)
      \<lparr>tpc_seq := ?s, tpc_queue := AList.update ?s ?tx (tpc_queue n)\<rparr>"
  let ?n3 = "?n2\<lparr>row_locks := AList.update ?k Writer (row_locks (ensure_lock ?k n))\<rparr>"
  let ?p = "do_write_backend (primary_fd n) (vote_msg ''YES'' h ?s n @ crlf) ?n3"
  have f: "last_seq n = q" "\<not> tpc_queue_locked n" "store_of n = m" "tablets_up n" "lock_inv n" "tpc_seq n = q"
    "\<forall>s > q. s \<notin> set (queued_transactions n) \<and> map_of (tpc_queue n) s = None \<and> map_of (tpc_responses n) s = None"
    using set by (simp_all add: settled_at_def)
  have req: "request_ok r m" "line_ok r" using ok by (simp_all add: write_ok_def)
  have lk: "get_command_locks ?cmd ?n2 = (True, ?n3)"
    using settled_lock [OF set req(1), of ?n2] by (simp add: write_to_tpc_log_def Let_def)
  note line = render_line [OF req]
  have stoi: "stoi (to_string ?s) = Inr ?s" using q by (simp add: stoi_to_string)
  have "with_queue_lock (\<lambda>n. map_of (tpc_queue n) ?s \<noteq> None) n = Inr False"
    using f by (simp add: with_queue_lock_def)
  then have run: "replica_prepare (prepare_msg h ?s ?cmd) n = Inr ?p"
    using prepare_cuts [OF numericD(1) [OF h], of ?s ?cmd] lk f(1,6) tablets_upD(3) [OF f(4)]
    by (simp add: replica_prepare_def prepare_msg_def stoi Let_def vote_msg_def write_to_tpc_log_def is_recovering_def)
  have "contains (prepare_msg h ?s ?cmd) ''PREPARE''"
    unfolding contains_iff sublist_def prepare_msg_def decision_line_def
    by (intro exI [of _ "''TPC:''"] exI [of _ "'':'' @ h @ '':'' @ to_string ?s @ '':'' @ ?cmd"]) simp
  then have handle: "handle_tpc (prepare_msg h ?s ?cmd) n = Inr ?p" using rep run by (simp add: handle_tpc_def)
  show thesis
  proof (rule that [of ?p])
    show "serve H f (to_primary n) (prepare_msg h ?s ?cmd @ crlf) n = Inr ([], ?p)"
      by (simp add: serve_prepare [OF _ h line(4,1,2,3)] to_primary_def handle)
    have "lock_inv (n\<lparr>row_locks := AList.update ?k Free (AList.update ?k Writer (row_locks (ensure_lock ?k n)))\<rparr>)"
      by (rule lock_inv_free [OF f(5), of _ ?k]) (simp add: ensure_lock_locks)
    then show "pending_at Writer q m h r ?p"
      using f by (simp add: pending_at_def do_write_backend_def send_def write_to_tpc_log_def Let_def tablets_up_def
          lock_inv_def lookup_def store_of_fields)
  qed (use f in \<open>simp_all add: do_write_backend_def send_def write_to_tpc_log_def Let_def wiring_def\<close>)
qed

lemma decision_split:
  assumes "numeric h" and "CHR '':'' \<notin> set d" and "d \<noteq> []"
  shows "split (decision_line d h s) CHR '':'' = [''TPC'', d, h, to_string s]"
proof -
  have "split (decision_line d h s) CHR '':'' = ''TPC'' # split (d @ '':'' @ h @ '':'' @ to_string s) CHR '':''"
    using split_append_delim [of "CHR '':''" "''TPC''" "d @ '':'' @ h @ '':'' @ to_string s"] by (simp add: decision_line_def)
  then show ?thesis using assms(2) numericD(1) [OF assms(1)] by (simp add: split_no_delim)
qed

lemma pending_frame:
  assumes "pending_at l q m h r n" and "tpc_queue p = tpc_queue n" and "last_seq p = last_seq n"
    and "tpc_seq p = tpc_seq n" and "tpc_queue_locked p = tpc_queue_locked n" and "table p = table n"
    and "active_tablets p = active_tablets n" and "checkpointing p = checkpointing n" and "recovering p = recovering n"
    and "row_locks p = row_locks n" and "set (queued_transactions p) \<subseteq> insert (q + 1) (set (queued_transactions n))"
    and "\<And>s. q + 1 < s \<Longrightarrow> map_of (tpc_responses p) s = map_of (tpc_responses n) s"
  shows "pending_at l q m h r p"
  using assms(1,11,12)
  by (auto simp: pending_at_def assms(2-10) tablets_up_def lock_inv_def lookup_def store_of_fields)

lemma pending_new:
  assumes "pending_at l q m h r n" and "q + 1 \<notin> set (queued_transactions n)"
  shows "already_processed (q + 1) n = Inr False"
  using assms by (simp add: already_processed_def with_queue_lock_def pending_at_def)

lemma replica_commits:
  assumes pend: "pending_at Writer q m h r n" and new: "q + 1 \<notin> set (queued_transactions n)"
    and rep: "\<not> is_primary n" and h: "numeric h" and q: "0 \<le> q" "q + 1 < 2 ^ 31"
    and ok: "write_ok r m" and w: "waits_for r h n"
  obtains p where "serve H f (to_primary n) (decision_line ''COMMIT'' h (q + 1) @ crlf) n = Inr ([], p)"
    and "settled_at (q + 1) (fst (kv_step r m)) p" and "wiring p = wiring n"
    and "net p = net n @ map (\<lambda>fd. (fd, done_text r)) (waiter h n)"
    and "\<And>h'. waiter h' p = (if h' = h then [] else waiter h' n)"
proof -
  let ?msg = "decision_line ''COMMIT'' h (q + 1)"
  let ?n1 = "write_to_tpc_log ?msg (n\<lparr>queued_transactions := List.insert (q + 1) (queued_transactions n)\<rparr>)"
  have cut: "split ?msg CHR '':'' = [''TPC'', ''COMMIT'', h, to_string (q + 1)]" by (rule decision_split [OF h]) simp_all
  have pend1: "pending_at Writer q m h r ?n1"
    by (rule pending_frame [OF pend]) (simp_all add: write_to_tpc_log_def Let_def)
  have w1: "waits_for r h ?n1" using w by (simp add: waits_for_def write_to_tpc_log_def Let_def)
  from commit_pending [OF pend1 ok w1] obtain p where
    p: "process_tpc_queue (set_tx_status (q + 1) ''COMMIT'' (set_msg_success h ''COMMIT'' ?n1)) = Inr p"
    "settled_at (q + 1) (fst (kv_step r m)) p" "wiring p = wiring ?n1"
    "net p = net ?n1 @ map (\<lambda>fd. (fd, done_text r)) (waiter h ?n1)"
    "\<And>h'. waiter h' p = (if h' = h then [] else waiter h' ?n1)" by blast
  have n1: "wiring ?n1 = wiring n" "net ?n1 = net n" "waiter h' ?n1 = waiter h' n" for h'
    by (simp_all add: wiring_def write_to_tpc_log_def Let_def waiter_def)
  have free: "\<not> tpc_queue_locked (set_msg_success h ''COMMIT'' ?n1)"
    using pend1 tpc_part_eqD(2) [OF set_status_frame(5)] by (simp add: pending_at_def)
  have "replica_decision ?msg n = Inr p"
    using p(1) pending_new [OF pend new] q free
    by (simp add: replica_decision_def cut stoi_to_string Let_def with_queue_lock_def)
  moreover have "\<not> contains ?msg ''PREPARE''"
    by (rule not_contains_char [of "CHR ''E''"])
      (use numericD(5) [OF h] numericD(5) [OF numeric_to_string] in \<open>simp_all add: decision_line_def\<close>)
  moreover have "contains ?msg ''COMMIT''"
    unfolding contains_iff sublist_def decision_line_def
    by (intro exI [of _ "''TPC:''"] exI [of _ "'':'' @ h @ '':'' @ to_string (q + 1)"]) simp
  ultimately have "handle_tpc ?msg n = Inr p" using rep by (simp add: handle_tpc_def)
  then have "serve H f (to_primary n) (?msg @ crlf) n = Inr ([], p)"
    by (simp add: serve_decision [OF _ h] to_primary_def)
  from that [OF this p(2)] p(3-5) n1 show thesis by simp
qed

section \<open>Lemmas: a request arrives\<close>

lemma not_contains_sep:
  assumes "c \<notin> set xs" and "\<not> contains s (c # p)"
  shows "\<not> contains (xs @ s) (c # p)"
  using assms by (induction xs) (auto simp: contains_iff sublist_Cons_right)

text \<open>A request a replica passes on, its name before it, is not taken for another message.\<close>

lemma numeric_hd: "numeric h \<Longrightarrow> h = [] \<or> (\<exists>x xs. h = x # xs \<and> (isdigit x \<or> x = CHR ''-'' \<or> x = CHR ''.''))"
  by (cases h) (auto simp: numeric_def)

lemma forwarded_word:
  assumes "numeric h"
  shows "take 7 (drop 4 (h @ '' '' @ render r)) \<noteq> ''REQUEST''"
proof -
  consider "length h < 4" | "length h = 4" | "4 < length h" by linarith
  then show ?thesis
  proof cases
    case 1
    then have "length h = 0 \<or> length h = 1 \<or> length h = 2 \<or> length h = 3" by arith
    then show ?thesis by (cases r) (auto simp: put_cmd_def cput_cmd_def delete_cmd_def)
  next
    case 2
    then show ?thesis by simp
  next
    case 3
    have "CHR ''R'' \<notin> set h" by (rule numeric_notin [OF assms]) (simp_all add: isdigit_def)
    then have "h ! 4 \<noteq> CHR ''R''" using 3 nth_mem [of 4 h] by metis
    moreover have "drop 4 (h @ '' '' @ render r) = h ! 4 # drop 5 h @ '' '' @ render r"
      using 3 Cons_nth_drop_Suc [of 4 h] by simp
    ultimately show ?thesis by simp
  qed
qed

lemma dispatch_forwarded:
  assumes "\<not> coord_conn c" and h: "numeric h" and ok: "ordinary (render r)"
  shows "dispatch H f c (h @ '' '' @ render r) n = command_message H c (h @ '' '' @ render r) n"
proof -
  let ?m = "h @ '' '' @ render r"
  have no: "\<not> contains ?m ''TSEQNUM''" "\<not> contains ?m ''TSEQNUMRETURN''" "\<not> contains ?m ''REPLICA COUNT''"
    using ok numeric_notin [OF h, of "CHR ''T''"] numeric_notin [OF h, of "CHR ''R''"]
      not_contains_sep [of _ "h @ '' ''" "render r"]
    by (simp_all add: ordinary_def isdigit_def)
  have len: "4 \<le> length ?m" by (cases r) (simp_all add: put_cmd_def cput_cmd_def delete_cmd_def)
  have "take 9 ?m \<noteq> ''CHECK_ACK''" "take 7 ?m \<noteq> ''LOGFILE''" "take 10 ?m \<noteq> ''CHECKPOINT''"
    "take 10 ?m \<noteq> ''CHECK_DONE''" "take 3 ?m \<noteq> ''TPC''"
    using numeric_hd [OF h] by (auto simp: isdigit_def)
  then show ?thesis
    using assms(1) no len forwarded_word [OF h, of r] by (simp add: dispatch_def substr_def)
qed

lemma request_arrives:
  assumes set: "settled_at q m n" and ok: "request_ok r m" "line_ok r" and c: "\<not> coord_conn c" and h: "numeric h"
  shows "serve H f c (on_conn c h (render r) @ crlf) n =
     ebind (if changes r m
            then handle_message H (hash_on c h) (render r) (connfd c) (backend_conn c) False (ensure_lock (request_key r) n)
            else Inr (do_write_backend (connfd c) (snd (kv_step r m)) n)) (\<lambda>p. Inr ([], p))"
proof -
  have n: "store_of n = m" "tablets_up n" "lock_inv n" using set by (simp_all add: settled_at_def)
  note line = render_line [OF ok]
  note req = request_words(3) [OF ok(1)]
  have "CHR 0x0D \<notin> set (on_conn c h (render r))" "on_conn c h (render r) \<noteq> []" "\<not> isspace (last (on_conn c h (render r)))"
    using line numericD(3) [OF h] by (simp_all add: on_conn_def)
  note served = serve_line [OF this]
  have "dispatch H f c (on_conn c h (render r)) n = command_message H c (on_conn c h (render r)) n"
  proof (cases "backend_conn c")
    case True
    then show ?thesis using dispatch_forwarded [OF c h req] by (simp add: on_conn_def)
  next
    case False
    then show ?thesis using dispatch_request [OF _ req] c by (simp add: on_conn_def client_def)
  qed
  then show ?thesis
    using request_command [OF tablets_up_of [OF n(2)] n(3), of r h H c] ok(1) numericD(4) [OF h] n(1) by (simp add: served)
qed

lemma settled_ensure_lock:
  assumes "settled_at q m n"
  shows "settled_at q m (ensure_lock k n)"
proof -
  have inv: "lock_inv n" using assms by (simp add: settled_at_def)
  have "map_of (row_locks (ensure_lock k n)) k' = (if k' = k then Some Free else map_of (row_locks n) k')" for k'
    using lock_invD(1) [OF inv, of k] by (auto simp: ensure_lock_locks)
  from lock_inv_free [OF inv this] have "lock_inv (ensure_lock k n)" by (subst ensure_lock_row)
  moreover have "tablets_up (ensure_lock k n) = tablets_up n" "store_of (ensure_lock k n) = store_of n"
    by (simp_all add: tablets_up_def store_of_fields ensure_lock_def)
  ultimately show ?thesis using assms by (simp add: settled_at_def) (simp add: ensure_lock_def)
qed

text \<open>What changes nothing is answered at once.\<close>

lemma unchanged_answered:
  assumes set: "settled_at q m n" and ok: "request_ok r m" "line_ok r" and c: "client c" and un: "\<not> changes r m"
  obtains p where "serve H f c (render r @ crlf) n = Inr ([], p)" and "settled_at q m p" and "wiring p = wiring n"
    and "net p = net n @ [(connfd c, snd (kv_step r m))]" and "\<And>h'. waiter h' p = waiter h' n"
proof (rule that [of "do_write_backend (connfd c) (snd (kv_step r m)) n"])
  show "serve H f c (render r @ crlf) n = Inr ([], do_write_backend (connfd c) (snd (kv_step r m)) n)"
    using request_arrives [OF set ok, of c "[]" H f] c un by (simp add: client_def on_conn_def numeric_def)
qed (use set in \<open>simp_all add: settled_at_def do_write_backend_def send_def wiring_def waiter_def tablets_up_def
    lock_inv_def lookup_def store_of_fields\<close>)

text \<open>What changes something a replica passes on to its primary.\<close>

lemma replica_forwards:
  fixes H :: "string \<Rightarrow> nat"
  assumes set: "settled_at q m n" and ok: "write_ok r m" and c: "client c" "0 \<le> connfd c"
    and rep: "\<not> is_primary n" "0 \<le> primary_fd n"
  defines "h \<equiv> create_hash H n (render r)"
  obtains p where "serve H f c (render r @ crlf) n = Inr ([], p)" and "settled_at q m p" and "wiring p = wiring n"
    and "net p = net n @ [(primary_fd n, h @ '' '' @ render r @ crlf)]"
    and "\<And>h'. waiter h' p = (if h' = h then [connfd c] else waiter h' n)" and "waits_for r h p"
proof -
  let ?n = "ensure_lock (request_key r) n"
  let ?q = "\<lparr>mq_fd = connfd c, from_frontend = True, tpc_success = ''PREPARE'', original_ipport = [],
    mq_opt = opt_of (keyword r), mq_row = [], mq_col = []\<rparr>"
  let ?p = "?n\<lparr>net := net n @ [(primary_fd n, h @ '' '' @ render r @ crlf)], msg_queue := AList.update h ?q (msg_queue n)\<rparr>"
  have n: "primary_fd ?n = primary_fd n" "net ?n = net n" "msg_queue ?n = msg_queue n" "is_primary ?n = is_primary n"
    "create_hash H ?n s = create_hash H n s" "wiring ?n = wiring n" for s
    by (simp_all add: ensure_lock_def create_hash_def wiring_def)
  have req: "request_ok r m" "changes r m" "line_ok r" using ok by (simp_all add: write_ok_def)
  have word: "substr_to (render r) (str_find (render r) '' '') = keyword r"
    using request_cuts(1) [OF req(1)] by (simp add: command_parts_def Let_def)
  show thesis
  proof (rule that [of ?p])
    show "serve H f c (render r @ crlf) n = Inr ([], ?p)"
      using request_arrives [OF set req(1,3), of c "[]" H f] c rep req(2)
      by (simp add: client_def on_conn_def numeric_def handle_message_def replica_command_def n word send_def
          h_def [symmetric])
    have "settled_at q m ?n" by (rule settled_ensure_lock [OF set])
    then show "settled_at q m ?p" by (simp add: settled_at_def tablets_up_def lock_inv_def lookup_def store_of_fields)
    show "wiring ?p = wiring n" using n(6) by (simp add: wiring_def)
  qed (use c n in \<open>simp_all add: waiter_def waits_for_def\<close>)
qed

section \<open>Lemmas: the primary\<close>

lemma forward_all:
  assumes "primary_fd n \<notin> set (partition_fds n)"
  shows "forward_msg s n = n\<lparr>net := net n @ map (\<lambda>fd. (fd, s)) (partition_fds n)\<rparr>"
proof -
  have "fold (\<lambda>fd m. if fd = primary_fd m then m else do_write_backend fd s m) fds x =
      x\<lparr>net := net x @ map (\<lambda>fd. (fd, s)) fds\<rparr>" if "primary_fd x \<notin> set fds" for fds x
    using that by (induction fds arbitrary: x) (auto simp: do_write_backend_def send_def)
  with assms show ?thesis by (simp add: forward_msg_def)
qed

text \<open>A primary that can start a transaction.\<close>

definition can_lead :: "node \<Rightarrow> bool" where
  "can_lead n \<longleftrightarrow> is_primary n \<and> \<not> primary_recovering n \<and> partition_fds n \<noteq> [] \<and> primary_fd n \<notin> set (partition_fds n) \<and>
     length (alive_replicas n) = length (partition_fds n)"

lemma can_lead_wiring: "wiring n = wiring m \<Longrightarrow> can_lead n = can_lead m"
  by (simp add: can_lead_def wiring_def)

lemma numeric_hash [simp]: "numeric (create_hash H n s)"
  by (simp add: create_hash_def)

lemma primary_starts:
  fixes H :: "string \<Rightarrow> nat"
  assumes set: "settled_at q m n" and lead: "can_lead n" and c: "\<not> coord_conn c" "\<not> backend_conn c \<Longrightarrow> 0 \<le> connfd c"
    and ok: "write_ok r m" and h0: "numeric h0"
  defines "h \<equiv> (if backend_conn c then h0 else create_hash H n (render r))"
  obtains p where "serve H f c (on_conn c h0 (render r) @ crlf) n = Inr ([], p)"
    and "pending_at Free q m h r p" and "q + 1 \<notin> set (queued_transactions p)"
    and "wiring p = wiring n" and "responses_of p (q + 1) = []" and "replicas_of p (q + 1) = alive_replicas n"
    and "net p = net n @ map (\<lambda>fd. (fd, prepare_msg h (q + 1) (render r) @ crlf)) (partition_fds n)"
    and "\<And>h'. waiter h' p = (if h' = h then (if backend_conn c then [] else [connfd c]) else waiter h' n)"
    and "waits_for r h p"
proof -
  let ?k = "request_key r" and ?s = "q + 1" and ?cmd = "render r"
  let ?tx = "\<lparr>tx_status = ''PREPARE'', tx_command = ?cmd, tx_hash = h\<rparr>"
  let ?q = "\<lparr>mq_fd = connfd c, from_frontend = \<not> backend_conn c, tpc_success = ''PREPARE'', original_ipport = ''NA'',
    mq_opt = opt_of (keyword r), mq_row = fst ?k, mq_col = snd ?k\<rparr>"
  let ?ls = "file_lines (decision_line ''PREPARE'' h ?s @ [newline])"
  define L where "L = row_locks (ensure_lock ?k n)"
  let ?p = "n\<lparr>row_locks := L, tpc_seq := ?s, msg_queue := AList.update h ?q (msg_queue n),
     tpc_start_time := map_put ?s (clock n) (tpc_start_time n), tpc_queue := AList.update ?s ?tx (tpc_queue n),
     tpc_replicas := AList.update ?s (alive_replicas n) (tpc_replicas n),
     tpc_file := tpc_file n @ ?ls, tpc_pos := length (tpc_file n) + length ?ls,
     net := net n @ map (\<lambda>fd. (fd, prepare_msg h ?s ?cmd @ crlf)) (partition_fds n)\<rparr>"
  have f: "last_seq n = q" "\<not> tpc_queue_locked n" "store_of n = m" "tablets_up n" "lock_inv n" "tpc_seq n = q"
    "\<forall>s > q. s \<notin> set (queued_transactions n) \<and> map_of (tpc_queue n) s = None \<and> map_of (tpc_responses n) s = None"
    using set by (simp_all add: settled_at_def)
  have req: "request_ok r m" "changes r m" "line_ok r" using ok by (simp_all add: write_ok_def)
  have n0: "ensure_lock ?k n = n\<lparr>row_locks := L\<rparr>" unfolding L_def by (rule ensure_lock_row)
  have locks: "map_of L k' = (if k' = ?k then Some Free else map_of (row_locks n) k')" for k'
    using lock_invD(1) [OF f(5), of ?k] by (auto simp: L_def ensure_lock_locks)
  have hash: "(if backend_conn c then h0 else create_hash H (n\<lparr>row_locks := L\<rparr>) ?cmd) = h"
    by (simp add: h_def create_hash_def)
  have hash': "(if backend_conn c then hash_on c h0 else create_hash H (n\<lparr>row_locks := L\<rparr>) ?cmd) = h"
    using hash by (simp add: hash_on_def split: if_splits)
  have starts: "primary_command H (hash_on c h0) ?cmd (connfd c) (backend_conn c) (n\<lparr>row_locks := L\<rparr>) = Inr ?p"
    using lead f(2,6) unfolding primary_command_def hash'
    by (simp add: request_cuts(1) [OF req(1)] can_lead_def start_tpc_def with_queue_lock_def case_prod_unfold
        Let_def forward_all write_to_tpc_log_def prepare_msg_def)
  show thesis
  proof (rule that [of ?p])
    show "serve H f c (on_conn c h0 ?cmd @ crlf) n = Inr ([], ?p)"
      using request_arrives [OF set req(1,3) c(1) h0, of H f] starts req(2) lead
      by (simp add: n0 handle_message_def can_lead_def)
    have "lock_inv (n\<lparr>row_locks := AList.update ?k Free L\<rparr>)"
      by (rule lock_inv_free [OF f(5), of _ ?k]) (simp add: locks)
    then show "pending_at Free q m h r ?p"
      using f locks by (simp add: pending_at_def tablets_up_def lock_inv_def lookup_def store_of_fields)
    show "waiter h' ?p = (if h' = h then (if backend_conn c then [] else [connfd c]) else waiter h' n)" for h'
      by (simp add: waiter_def)
  qed (use f c(2) in \<open>simp_all add: wiring_def responses_of_def replicas_of_def waits_for_def\<close>)
qed

definition voter :: "node \<Rightarrow> string" where
  "voter x = IP x @ '':'' @ to_string (primary_port x)"

lemma vote_split:
  assumes "numeric h" and "numeric (IP x)" and "CHR '':'' \<notin> set d" and "d \<noteq> []"
  shows "split (vote_msg d h s x) CHR '':'' = [''TPC'', d, h, to_string s, IP x, to_string (primary_port x)]"
proof -
  have "vote_msg d h s x = ''TPC'' @ CHR '':'' # d @ CHR '':'' # h @ CHR '':'' # to_string s @ CHR '':'' # IP x @
      CHR '':'' # to_string (primary_port x)"
    by (simp add: vote_msg_def decision_line_def)
  then show ?thesis
    using assms(3) numericD(1) [OF assms(1)] numericD(1) [OF assms(2)]
      split_append_delim [of "CHR '':''" "''TPC''" "d @ CHR '':'' # h @ CHR '':'' # to_string s @ CHR '':'' # IP x @
      CHR '':'' # to_string (primary_port x)"]
    by (simp add: split_no_delim)
qed

text \<open>A yes for the pending transaction is counted; the last one makes the primary commit.\<close>

lemma yes_vote:
  assumes pend: "pending_at l q m h r n" and new: "q + 1 \<notin> set (queued_transactions n)"
    and lead: "can_lead n" and h: "numeric h" and q: "0 \<le> q" "q + 1 < 2 ^ 31" and x: "numeric (IP x)" "\<not> coord_conn c"
  defines "rs \<equiv> List.insert (voter x) (responses_of n (q + 1))"
  defines "n1 \<equiv> n\<lparr>tpc_responses := AList.update (q + 1) rs (tpc_responses n)\<rparr>"
  shows "serve H f c (vote_msg ''YES'' h (q + 1) x @ crlf) n =
     ebind (if length rs = length (replicas_of n (q + 1)) \<or> length (alive_replicas n) \<le> length rs
            then (case get_command_locks (render r) n1 of (success, n2) \<Rightarrow>
                    if success then primary_commit_transaction (q + 1) h n2 else primary_abort_transaction (q + 1) h n2)
            else Inr n1) (\<lambda>p. Inr ([], p))"
proof -
  let ?msg = "vote_msg ''YES'' h (q + 1) x"
  have t: "map_of (tpc_queue n) (q + 1) = Some \<lparr>tx_status = ''PREPARE'', tx_command = render r, tx_hash = h\<rparr>"
    using pend by (simp add: pending_at_def)
  have yes: "contains ?msg ''YES''"
    unfolding contains_iff sublist_def vote_msg_def decision_line_def
    by (intro exI [of _ "''TPC:''"] exI [of _ "'':'' @ h @ '':'' @ to_string (q + 1) @ '':'' @ IP x @ '':'' @ to_string (primary_port x)"]) simp
  have cut: "split ?msg CHR '':'' = [''TPC'', ''YES'', h, to_string (q + 1), IP x, to_string (primary_port x)]"
    by (rule vote_split [OF h x(1)]) simp_all
  have "replicas_of n1 (q + 1) = replicas_of n (q + 1)" "alive_replicas n1 = alive_replicas n"
    by (simp_all add: n1_def replicas_of_def)
  then have "handle_tpc ?msg n =
     (if length rs = length (replicas_of n (q + 1)) \<or> length (alive_replicas n) \<le> length rs
      then (case get_command_locks (render r) n1 of (success, n2) \<Rightarrow>
              if success then primary_commit_transaction (q + 1) h n2 else primary_abort_transaction (q + 1) h n2)
      else Inr n1)"
    using lead q pending_new [OF pend new]
    by (simp add: handle_tpc_def can_lead_def primary_vote_def yes cut t stoi_to_string Let_def rs_def n1_def voter_def)
  then show ?thesis by (simp add: serve_vote [OF x(2) h _ x(1)])
qed

lemma primary_commits:
  assumes pend: "pending_at Free q m h r n" and new: "q + 1 \<notin> set (queued_transactions n)"
    and lead: "can_lead n" and h: "numeric h" and q: "0 \<le> q" "q + 1 < 2 ^ 31" and x: "numeric (IP x)" "\<not> coord_conn c"
    and ok: "write_ok r m" and w: "waits_for r h n"
    and all: "length (alive_replicas n) \<le> length (List.insert (voter x) (responses_of n (q + 1)))"
  obtains p where "serve H f c (vote_msg ''YES'' h (q + 1) x @ crlf) n = Inr ([], p)"
    and "settled_at (q + 1) (fst (kv_step r m)) p" and "wiring p = wiring n"
    and "net p = net n @ map (\<lambda>fd. (fd, decision_line ''COMMIT'' h (q + 1) @ crlf)) (partition_fds n) @
      map (\<lambda>fd. (fd, done_text r)) (waiter h n)"
    and "\<And>h'. waiter h' p = (if h' = h then [] else waiter h' n)"
proof -
  let ?k = "request_key r" and ?s = "q + 1"
  let ?line = "decision_line ''COMMIT'' h ?s"
  define rs where "rs = AList.update ?s (List.insert (voter x) (responses_of n ?s)) (tpc_responses n)"
  define n2 where "n2 = n\<lparr>tpc_responses := rs, row_locks := AList.update ?k Writer (row_locks n)\<rparr>"
  define n3 where "n3 = n2\<lparr>queued_transactions := List.insert ?s (queued_transactions n2),
      tpc_responses := AList.delete ?s rs, tpc_start_time := AList.delete ?s (tpc_start_time n2),
      tpc_file := tpc_file n2 @ file_lines (?line @ [newline]), tpc_pos := length (tpc_file n2) + length (file_lines (?line @ [newline])),
      net := net n2 @ map (\<lambda>fd. (fd, ?line @ crlf)) (partition_fds n2)\<rparr>"
  obtain ws where cut: "split (render r) CHR '' '' = keyword r # fst ?k # snd ?k # ws"
    using request_cuts(2) [of r m] ok by (auto simp: write_ok_def)
  have lock: "map_of (row_locks n) ?k = Some Free" using pend by (simp add: pending_at_def)
  have lk: "get_command_locks (render r) (n\<lparr>tpc_responses := rs\<rparr>) = (True, n2)"
    using lock by (simp add: get_command_locks_eq [OF cut] Let_def ensure_lock_def n2_def)
  have "lock_inv (n\<lparr>row_locks := AList.update ?k Free (row_locks n)\<rparr>)" using pend by (simp add: pending_at_def)
  then have pend2: "pending_at Writer q m h r n2"
    using pend by (simp add: pending_at_def n2_def rs_def tablets_up_def lock_inv_def lookup_def store_of_fields)
  have pend3: "pending_at Writer q m h r n3"
    by (rule pending_frame [OF pend2]) (simp_all add: n3_def n2_def)
  have new2: "already_processed ?s n2 = Inr False"
    by (rule pending_new [OF pend2]) (use new in \<open>simp add: n2_def\<close>)
  have n3w: "wiring n3 = wiring n" "waiter h' n3 = waiter h' n" "waits_for r h n3"
    "net n3 = net n @ map (\<lambda>fd. (fd, ?line @ crlf)) (partition_fds n)" for h'
    using w by (simp_all add: n3_def n2_def wiring_def waiter_def waits_for_def)
  from commit_pending [OF pend3 ok n3w(3)] obtain p where
    p: "process_tpc_queue (set_tx_status ?s ''COMMIT'' (set_msg_success h ''COMMIT'' n3)) = Inr p"
    "settled_at ?s (fst (kv_step r m)) p" "wiring p = wiring n3"
    "net p = net n3 @ map (\<lambda>fd. (fd, done_text r)) (waiter h n3)"
    "\<And>h'. waiter h' p = (if h' = h then [] else waiter h' n3)" by blast
  have free: "\<not> tpc_queue_locked (set_msg_success h ''COMMIT'' n3)"
    using pend3 tpc_part_eqD(2) [OF set_status_frame(5)] by (simp add: pending_at_def)
  have "primary_fd n2 \<notin> set (partition_fds n2)" using lead by (simp add: can_lead_def n2_def)
  then have "primary_commit_transaction ?s h n2 = Inr p"
    using p(1) new2 free
    by (simp add: primary_commit_transaction_def primary_decide_def take_decision_def forward_all write_to_tpc_log_def Let_def
        with_queue_lock_def Let_def n3_def n2_def)
  then have "serve H f c (vote_msg ''YES'' h ?s x @ crlf) n = Inr ([], p)"
    using yes_vote [OF pend new lead h q x, of H f] all lk by (simp add: rs_def)
  from that [OF this p(2)] p(3-5) n3w show thesis by simp
qed

section \<open>Lemmas: a vote against\<close>

text \<open>The primary has not locked the key when it aborts, but it unlocks it.\<close>

lemma abort_unlocks:
  assumes pend: "pending_at Free q m h r n" and new: "q + 1 \<notin> set (queued_transactions n)" and ok: "request_ok r m"
  shows "primary_abort_transaction (q + 1) h n = Inl Undefined_behaviour"
proof -
  let ?s = "q + 1" and ?k = "request_key r"
  let ?tx = "\<lparr>tx_status = ''ABORT'', tx_command = render r, tx_hash = h\<rparr>"
  let ?n1 = "n\<lparr>queued_transactions := List.insert ?s (queued_transactions n),
      tpc_responses := AList.delete ?s (tpc_responses n), tpc_start_time := AList.delete ?s (tpc_start_time n)\<rparr>"
  define n2 where "n2 = set_msg_success h ''ABORT'' (forward_msg (decision_line ''ABORT'' h ?s @ crlf)
      (write_to_tpc_log (decision_line ''ABORT'' h ?s) ?n1))"
  have "tpc_queue n2 = tpc_queue n" "last_seq n2 = last_seq n" "tpc_queue_locked n2 = tpc_queue_locked n"
    using tpc_part_eqD [OF set_status_frame(5)] by (simp_all add: n2_def forward_msg_frame write_to_tpc_log_def Let_def)
  then have q2: "map_of (tpc_queue n2) ?s = Some (?tx\<lparr>tx_status := ''PREPARE''\<rparr>)" "last_seq n2 = q" "\<not> tpc_queue_locked n2"
    using pend by (simp_all add: pending_at_def)
  have "row_locks (fold (\<lambda>fd m. if fd = primary_fd m then m else do_write_backend fd t m) fds y) = row_locks y" for t fds y
    by (induction fds arbitrary: y) (simp_all add: do_write_backend_def)
  then have "row_locks n2 = row_locks n"
    by (simp add: n2_def set_msg_success_def forward_msg_def write_to_tpc_log_def Let_def split: option.split)
  then have lock: "map_of (row_locks n2) ?k = Some Free" using pend by (simp add: pending_at_def)
  define n3 where "n3 = set_tx_status ?s ''ABORT'' n2"
  have n3: "n3 = n2\<lparr>tpc_queue := AList.update ?s ?tx (tpc_queue n2)\<rparr>"
    by (simp add: n3_def set_tx_status_def q2)
  have "tpc_step ?s ?tx (n3\<lparr>tpc_queue_locked := True\<rparr>) = Inl Undefined_behaviour"
    using lock by (simp add: tpc_step_def tpc_abort_step_def Let_def take_transaction_def n3 render_row [OF ok])
  then have "process_tpc_queue n3 = Inl Undefined_behaviour"
    using process_tpc_queue_head [of n3 ?tx] q2 by (simp add: n3)
  then show ?thesis
    using pending_new [OF pend new] q2(3)
    by (simp add: primary_abort_transaction_def primary_decide_def take_decision_def Let_def with_queue_lock_def n2_def n3_def)
qed

lemma no_vote:
  assumes pend: "pending_at Free q m h r n" and new: "q + 1 \<notin> set (queued_transactions n)"
    and lead: "can_lead n" and h: "numeric h" and q: "0 \<le> q" "q + 1 < 2 ^ 31" and x: "numeric (IP x)" "\<not> coord_conn c"
    and ok: "request_ok r m"
  shows "serve H f c (vote_msg ''NO'' h (q + 1) x @ crlf) n = Inl Undefined_behaviour"
proof -
  let ?msg = "vote_msg ''NO'' h (q + 1) x"
  obtain t where t: "map_of (tpc_queue n) (q + 1) = Some t" using pend by (simp add: pending_at_def)
  have no: "contains ?msg ''NO''"
    unfolding contains_iff sublist_def vote_msg_def decision_line_def
    by (intro exI [of _ "''TPC:''"] exI [of _ "'':'' @ h @ '':'' @ to_string (q + 1) @ '':'' @ IP x @ '':'' @ to_string (primary_port x)"]) simp
  have yes: "\<not> contains ?msg ''YES''"
    by (rule not_contains_char [of "CHR ''E''"])
      (use numericD(5) [OF h] numericD(5) [OF x(1)] numericD(5) [OF numeric_to_string] in
        \<open>simp_all add: vote_msg_def decision_line_def\<close>)
  have cut: "split ?msg CHR '':'' = [''TPC'', ''NO'', h, to_string (q + 1), IP x, to_string (primary_port x)]"
    by (rule vote_split [OF h x(1)]) simp_all
  have "handle_tpc ?msg n = Inl Undefined_behaviour"
    using lead q pending_new [OF pend new] abort_unlocks [OF pend new ok]
    by (simp add: handle_tpc_def can_lead_def primary_vote_def yes no cut t stoi_to_string)
  then show ?thesis by (simp add: serve_vote [OF x(2) h _ x(1)])
qed

end
