(* ===== verification/Replication.thy ===== *)
theory Replication
  imports Tpc_Writes
begin

text \<open>
  The servers of one partition at work together: a primary, its replicas and the connections
  between them, on which every \<open>write\<close> is delivered in order, but on different connections in any
  order. A request of a client, at whichever server, gets the answer of the key-value store, and a
  change reaches every server of the partition before the servers come to rest.
\<close>

section \<open>The cluster\<close>

text \<open>
  \<open>down ! i\<close> and \<open>up ! i\<close> are the writes under way from the primary to replica \<open>i\<close> and back, \<open>rest\<close>
  the bytes each end has read that are not a line yet; \<open>links ! i\<close> is the primary's connection.
\<close>

record cluster =
  prim :: node
  reps :: "node list"
  links :: "conn list"
  down :: "string list list"
  up :: "string list list"
  rest_down :: "string list"
  rest_up :: "string list"

text \<open>What a step of a server, from \<open>n\<close> to \<open>m\<close>, wrote to a descriptor.\<close>

definition written :: "node \<Rightarrow> node \<Rightarrow> int \<Rightarrow> string list" where
  "written n m fd = map snd (filter (\<lambda>w. fst w = fd) (drop (length (net n)) (net m)))"

text \<open>A step of the primary, or of a replica: what it wrote to the others is on its way.\<close>

definition primary_steps :: "node \<Rightarrow> cluster \<Rightarrow> cluster" where
  "primary_steps m S =
     S\<lparr>prim := m, down := map2 (\<lambda>c ws. ws @ written (prim S) m (connfd c)) (links S) (down S)\<rparr>"

definition replica_steps :: "nat \<Rightarrow> node \<Rightarrow> cluster \<Rightarrow> cluster" where
  "replica_steps i m S =
     S\<lparr>reps := (reps S)[i := m], up := (up S)[i := up S ! i @ written (reps S ! i) m (primary_fd (reps S ! i))]\<rparr>"

datatype delivery = To_replica nat | To_primary nat

text \<open>The writes under way that \<open>e\<close> is about, in order.\<close>

definition under_way :: "delivery \<Rightarrow> cluster \<Rightarrow> string list" where
  "under_way e S =
     (case e of
        To_replica i \<Rightarrow> if i < length (down S) then down S ! i else []
      | To_primary i \<Rightarrow> if i < length (up S) then up S ! i else [])"

text \<open>The next one arrives; on a connection with nothing under way, nothing happens.\<close>

definition deliver :: "(string \<Rightarrow> nat) \<Rightarrow> int \<Rightarrow> delivery \<Rightarrow> cluster \<Rightarrow> exn + cluster" where
  "deliver H f e S =
     (case under_way e S of
        [] \<Rightarrow> Inr S
      | s # ss \<Rightarrow>
          (case e of
             To_replica i \<Rightarrow>
               ebind (serve H f (to_primary (reps S ! i)) (rest_down S ! i @ s) (reps S ! i)) (\<lambda>(r, m).
                 Inr (replica_steps i m (S\<lparr>down := (down S)[i := ss], rest_down := (rest_down S)[i := r]\<rparr>)))
           | To_primary i \<Rightarrow>
               ebind (serve H f (links S ! i) (rest_up S ! i @ s) (prim S)) (\<lambda>(r, m).
                 Inr (primary_steps m (S\<lparr>up := (up S)[i := ss], rest_up := (rest_up S)[i := r]\<rparr>)))))"

text \<open>How many of the deliveries found something to deliver.\<close>

primrec moves :: "(string \<Rightarrow> nat) \<Rightarrow> int \<Rightarrow> delivery list \<Rightarrow> cluster \<Rightarrow> nat" where
  "moves H f [] S = 0"
| "moves H f (e # es) S =
     (if under_way e S = [] then 0 else 1) + (case deliver H f e S of Inl x \<Rightarrow> 0 | Inr S' \<Rightarrow> moves H f es S')"

text \<open>A client's line, at the primary (\<open>None\<close>) or at a replica.\<close>

definition client_line :: "(string \<Rightarrow> nat) \<Rightarrow> int \<Rightarrow> nat option \<Rightarrow> conn \<Rightarrow> string \<Rightarrow> cluster \<Rightarrow> exn + cluster" where
  "client_line H f e c line S =
     (case e of
        None \<Rightarrow> ebind (serve H f c line (prim S)) (\<lambda>(r, m). Inr (primary_steps m S))
      | Some i \<Rightarrow> ebind (serve H f c line (reps S ! i)) (\<lambda>(r, m). Inr (replica_steps i m S)))"

definition server :: "nat option \<Rightarrow> cluster \<Rightarrow> node" where
  "server e S = (case e of None \<Rightarrow> prim S | Some i \<Rightarrow> reps S ! i)"

definition quiet :: "cluster \<Rightarrow> bool" where
  "quiet S \<longleftrightarrow> (\<forall>ws \<in> set (down S) \<union> set (up S). ws = [])"

text \<open>What a server has written to a descriptor up to now.\<close>

definition told :: "int \<Rightarrow> node \<Rightarrow> string list" where
  "told fd n = map snd (filter (\<lambda>w. fst w = fd) (net n))"

section \<open>Where the servers are\<close>

definition wired :: "cluster \<Rightarrow> bool" where
  "wired S \<longleftrightarrow>
     length (links S) = length (reps S) \<and> length (down S) = length (reps S) \<and> length (up S) = length (reps S) \<and>
     rest_down S = replicate (length (reps S)) [] \<and> rest_up S = replicate (length (reps S)) [] \<and>
     can_lead (prim S) \<and> partition_fds (prim S) = map connfd (links S) \<and> distinct (map connfd (links S)) \<and>
     (\<forall>c \<in> set (links S). \<not> coord_conn c \<and> backend_conn c) \<and> distinct (map voter (reps S)) \<and>
     (\<forall>x \<in> set (reps S). \<not> is_primary x \<and> 0 \<le> primary_fd x \<and> numeric (IP x))"

text \<open>All servers have the same map and nothing is under way.\<close>

definition synced :: "int \<Rightarrow> store \<Rightarrow> cluster \<Rightarrow> bool" where
  "synced q m S \<longleftrightarrow>
     wired S \<and> quiet S \<and> (\<forall>x \<in> insert (prim S) (set (reps S)). settled_at q m x \<and> (\<forall>h. waiter h x = []))"

text \<open>The descriptors of the connections between the servers, at the primary and at the replicas.\<close>

definition topology :: "cluster \<Rightarrow> int list \<times> int list" where
  "topology S = (map connfd (links S), map primary_fd (reps S))"

text \<open>Who has asked: where, on which descriptor, and what he had been told before.\<close>

record asker =
  asked_at :: "nat option"
  asker_fd :: int
  had :: "string list"
  fds_of :: "int list \<times> int list"

definition foreign :: "asker \<Rightarrow> bool" where
  "foreign a \<longleftrightarrow>
     (case asked_at a of
        None \<Rightarrow> asker_fd a \<notin> set (fst (fds_of a))
      | Some i \<Rightarrow> i < length (snd (fds_of a)) \<and> asker_fd a \<noteq> snd (fds_of a) ! i)"

definition waiting :: "asker \<Rightarrow> nat option \<Rightarrow> int list" where
  "waiting a e = (if e = asked_at a then [asker_fd a] else [])"

definition awaits :: "request \<Rightarrow> string \<Rightarrow> int list \<Rightarrow> node \<Rightarrow> bool" where
  "awaits r h ws n \<longleftrightarrow> waits_for r h n \<and> (\<forall>h'. waiter h' n = (if h' = h then ws else []))"

text \<open>Where a replica is in the transaction, with what is under way to it and from it.\<close>

datatype stage = Asked | Voting | Counted | Ordered | Done

fun to_go :: "stage \<Rightarrow> nat" where
  "to_go Asked = 3" | "to_go Voting = 2" | "to_go Counted = 1" | "to_go Ordered = 1" | "to_go Done = 0"

definition prepared :: "int \<Rightarrow> store \<Rightarrow> string \<Rightarrow> request \<Rightarrow> int list \<Rightarrow> node \<Rightarrow> bool" where
  "prepared q m h r ws n \<longleftrightarrow> pending_at Writer q m h r n \<and> q + 1 \<notin> set (queued_transactions n) \<and> awaits r h ws n"

definition stage_ok :: "int \<Rightarrow> store \<Rightarrow> string \<Rightarrow> request \<Rightarrow> int list \<Rightarrow> stage \<Rightarrow> node \<Rightarrow> string list \<Rightarrow> string list \<Rightarrow> bool" where
  "stage_ok q m h r ws st n ds us \<longleftrightarrow>
     (case st of
        Asked \<Rightarrow> settled_at q m n \<and> awaits r h ws n \<and> ds = [prepare_msg h (q + 1) (render r) @ crlf] \<and> us = []
      | Voting \<Rightarrow> prepared q m h r ws n \<and> ds = [] \<and> us = [vote_msg ''YES'' h (q + 1) n @ crlf]
      | Counted \<Rightarrow> prepared q m h r ws n \<and> ds = [] \<and> us = []
      | Ordered \<Rightarrow> prepared q m h r ws n \<and> ds = [decision_line ''COMMIT'' h (q + 1) @ crlf] \<and> us = []
      | Done \<Rightarrow> settled_at (q + 1) (fst (kv_step r m)) n \<and> (\<forall>h'. waiter h' n = []) \<and> ds = [] \<and> us = [])"

definition collects :: "int \<Rightarrow> store \<Rightarrow> string \<Rightarrow> request \<Rightarrow> int list \<Rightarrow> node \<Rightarrow> bool" where
  "collects q m h r ws p \<longleftrightarrow>
     pending_at Free q m h r p \<and> q + 1 \<notin> set (queued_transactions p) \<and>
     length (replicas_of p (q + 1)) = length (alive_replicas p) \<and> awaits r h ws p"

definition counted :: "stage list \<Rightarrow> cluster \<Rightarrow> string set" where
  "counted sts S = {voter (reps S ! i) | i. i < length (reps S) \<and> sts ! i = Counted}"

text \<open>
  The invariant of a transaction: before the decision the primary has the votes of the replicas
  that are \<open>Counted\<close>, and one at least is missing; after it, it has the new map. The client has the
  answer when the server he asked has the new map.
\<close>

definition running :: "int \<Rightarrow> store \<Rightarrow> string \<Rightarrow> request \<Rightarrow> asker \<Rightarrow> stage list \<Rightarrow> cluster \<Rightarrow> bool" where
  "running q m h r a sts S \<longleftrightarrow>
     wired S \<and> topology S = fds_of a \<and> length sts = length (reps S) \<and>
     (\<forall>i < length (reps S). stage_ok q m h r (waiting a (Some i)) (sts ! i) (reps S ! i) (down S ! i) (up S ! i)) \<and>
     (\<forall>j. asked_at a = Some j \<longrightarrow> told (asker_fd a) (reps S ! j) = had a @ (if sts ! j = Done then [done_text r] else [])) \<and>
     ((set sts \<subseteq> {Asked, Voting, Counted} \<and> \<not> set sts \<subseteq> {Counted} \<and> collects q m h r (waiting a None) (prim S) \<and>
       (asked_at a = None \<longrightarrow> told (asker_fd a) (prim S) = had a) \<and>
       distinct (responses_of (prim S) (q + 1)) \<and> set (responses_of (prim S) (q + 1)) = counted sts S)
    \<or> (set sts \<subseteq> {Ordered, Done} \<and> settled_at (q + 1) (fst (kv_step r m)) (prim S) \<and> (\<forall>h'. waiter h' (prim S) = []) \<and>
       (asked_at a = None \<longrightarrow> told (asker_fd a) (prim S) = had a @ [done_text r])))"

section \<open>Lemmas: what has been written\<close>

lemma written_append: "net m = net n @ ws \<Longrightarrow> written n m fd = map snd (filter (\<lambda>w. fst w = fd) ws)"
  by (simp add: written_def)

lemma told_append: "net m = net n @ ws \<Longrightarrow> told fd m = told fd n @ map snd (filter (\<lambda>w. fst w = fd) ws)"
  by (simp add: told_def)

lemma told_cong: "net m = net n \<Longrightarrow> told fd m = told fd n"
  by (simp add: told_def)

lemma written_none: "net m = net n \<Longrightarrow> written n m fd = []"
  by (simp add: written_def)

lemma filter_others: "fd \<notin> connfd ` set ls \<Longrightarrow> filter (\<lambda>w. fst w = fd) (map (\<lambda>l. (connfd l, t)) ls) = []"
  by (auto simp: filter_empty_conv)

lemma filter_one: "distinct xs \<Longrightarrow> x \<in> set xs \<Longrightarrow> filter (\<lambda>y. y = x) xs = [x]"
  by (induction xs) (auto simp: filter_empty_conv)

lemma written_broadcast:
  assumes "net p = net n @ map (\<lambda>c. (connfd c, t)) cs @ ws" and "distinct (map connfd cs)" and "c \<in> set cs"
    and "connfd c \<notin> fst ` set ws"
  shows "written n p (connfd c) = [t]"
proof -
  have "filter (\<lambda>w. fst w = connfd c) ws = []" using assms(4) by (force simp: filter_empty_conv)
  moreover have "filter (\<lambda>d. connfd d = connfd c) cs = [c]"
  proof -
    have "filter (\<lambda>d. connfd d = connfd c) cs = filter (\<lambda>d. d = c) cs"
      using assms(2,3) by (intro filter_cong) (auto simp: distinct_map dest: inj_onD)
    then show ?thesis using assms(2,3) filter_one [of cs c] by (simp add: distinct_map)
  qed
  ultimately show ?thesis by (simp add: written_append [OF assms(1)] filter_map o_def)
qed

lemma map2_same_length: "length xs = length ys \<Longrightarrow> (\<And>x y. x \<in> set xs \<Longrightarrow> f x y = y) \<Longrightarrow> map2 f xs ys = ys"
  by (induction xs ys rule: list_induct2) simp_all

section \<open>Lemmas: a replica reads\<close>

lemma voter_wiring: "wiring p = wiring n \<Longrightarrow> voter p = voter n"
  by (simp add: voter_def wiring_def)

lemma waits_no_one: "waiter h r = [] \<Longrightarrow> waits_for q h r"
  unfolding waits_for_def by (intro allI impI) (simp add: waiter_def)

lemma awaits_none: "\<forall>h'. waiter h' n = [] \<Longrightarrow> awaits r h [] n"
  by (simp add: awaits_def waits_no_one)

lemma stage_down:
  assumes "stage_ok q m h r ws st n ds us" and "ds \<noteq> []"
  shows "st = Asked \<or> st = Ordered"
  using assms by (cases st) (simp_all add: stage_ok_def)

lemma stage_up:
  assumes "stage_ok q m h r ws st n ds us" and "us \<noteq> []"
  shows "st = Voting"
  using assms by (cases st) (simp_all add: stage_ok_def)

lemma to_go_update:
  "i < length sts \<Longrightarrow> to_go st' + 1 = to_go (sts ! i) \<Longrightarrow>
     sum_list (map to_go (sts[i := st'])) + 1 = sum_list (map to_go sts)"
  using elem_le_sum_list [of i "map to_go sts"] by (simp add: map_update sum_list_update)

lemma map_same_update:
  "i < length xs \<Longrightarrow> f p = f (xs ! i) \<Longrightarrow> map f (xs[i := p]) = map f xs"
  by (simp add: map_update) (metis length_map list_update_id nth_map)

lemma counted_cong:
  assumes "map voter (reps S') = map voter (reps S)" and "\<And>j. j < length (reps S) \<Longrightarrow> (sts' ! j = Counted) = (sts ! j = Counted)"
  shows "counted sts' S' = counted sts S"
proof -
  have len: "length (reps S') = length (reps S)" using assms(1) by (metis length_map)
  have "voter (reps S' ! j) = voter (reps S ! j)" if "j < length (reps S)" for j
    using assms(1) that len by (metis nth_map)
  then show ?thesis
    using assms(2) len unfolding counted_def by (intro Collect_cong ex_cong1) auto
qed

lemma wired_replica:
  assumes "wired S" and "i < length (reps S)" and "wiring p = wiring (reps S ! i)"
    and "reps T = (reps S)[i := p]" and "length (down T) = length (reps S)" and "length (up T) = length (reps S)"
    and "rest_down T = rest_down S" and "rest_up T = rest_up S" and "prim T = prim S" and "links T = links S"
  shows "wired T" and "topology T = topology S"
proof -
  have "reps S ! i \<in> set (reps S)" using assms(2) by simp
  then have p: "\<not> is_primary p" "numeric (IP p)" "0 \<le> primary_fd p"
    using assms(1,3) by (simp_all add: wired_def wiring_def)
  have "map voter ((reps S)[i := p]) = map voter (reps S)"
    using map_same_update [where f = voter, OF assms(2) voter_wiring [OF assms(3)]] .
  then show "wired T"
    using assms p set_update_subset_insert [of "reps S" i p] by (auto simp: wired_def)
  show "topology T = topology S"
    using map_same_update [where f = primary_fd, OF assms(2) wiring_fields(1) [OF assms(3)]] assms(4,10)
    by (simp add: topology_def)
qed

lemma foreignD:
  assumes "foreign a" and "topology S = fds_of a"
  shows "asked_at a = None \<Longrightarrow> asker_fd a \<notin> connfd ` set (links S)"
    and "asked_at a = Some i \<Longrightarrow> i < length (reps S)"
    and "asked_at a = Some i \<Longrightarrow> asker_fd a \<noteq> primary_fd (reps S ! i)"
  using assms by (auto simp: foreign_def topology_def dest!: sym [of "(_, _)"])

text \<open>A replica reads its next write.\<close>

lemma running_replica:
  assumes run: "running q m h r a sts S" and nxt: "under_way (To_replica i) S = s # ss"
    and h: "numeric h" and q: "0 \<le> q" "q + 1 < 2 ^ 31" and ok: "write_ok r m" and fgn: "foreign a"
  shows "\<exists>S' sts'. deliver H f (To_replica i) S = Inr S' \<and> running q m h r a sts' S' \<and>
     sum_list (map to_go sts') + 1 = sum_list (map to_go sts)"
proof -
  let ?x = "reps S ! i" and ?ws = "waiting a (Some i)"
  have wired: "wired S" and len: "length sts = length (reps S)" and top: "topology S = fds_of a"
    and st: "\<And>j. j < length (reps S) \<Longrightarrow> stage_ok q m h r (waiting a (Some j)) (sts ! j) (reps S ! j) (down S ! j) (up S ! j)"
    and tld: "\<And>j. asked_at a = Some j \<Longrightarrow> told (asker_fd a) (reps S ! j) = had a @ (if sts ! j = Done then [done_text r] else [])"
    using run by (simp_all add: running_def)
  have lens: "length (down S) = length (reps S)" "length (up S) = length (reps S)" "rest_down S = replicate (length (reps S)) []"
    using wired by (simp_all add: wired_def)
  have i: "i < length (reps S)" and ds: "down S ! i = s # ss"
    using nxt lens by (auto simp: under_way_def split: if_splits)
  have x: "\<not> is_primary ?x" "numeric (IP ?x)"
    using wired nth_mem [OF i] by (simp_all add: wired_def)
  have fd: "asked_at a = Some i \<Longrightarrow> asker_fd a \<noteq> primary_fd ?x" using foreignD(3) [OF fgn top] .
  let ?before = "\<lambda>sts. set sts \<subseteq> {Asked, Voting, Counted} \<and> \<not> set sts \<subseteq> {Counted}"
    and ?after = "\<lambda>sts. set sts \<subseteq> {Ordered, Done}"
    and ?P = "collects q m h r (waiting a None) (prim S) \<and> (asked_at a = None \<longrightarrow> told (asker_fd a) (prim S) = had a) \<and>
       distinct (responses_of (prim S) (q + 1)) \<and> set (responses_of (prim S) (q + 1)) = counted sts S"
    and ?Q = "settled_at (q + 1) (fst (kv_step r m)) (prim S) \<and> (\<forall>h'. waiter h' (prim S) = []) \<and>
       (asked_at a = None \<longrightarrow> told (asker_fd a) (prim S) = had a @ [done_text r])"
  have finish: "\<exists>S' sts'. deliver H f (To_replica i) S = Inr S' \<and> running q m h r a sts' S' \<and>
     sum_list (map to_go sts') + 1 = sum_list (map to_go sts)"
    if serve: "serve H f (to_primary ?x) s ?x = Inr ([], p)" and p: "wiring p = wiring ?x"
      and ok': "stage_ok q m h r ?ws st' p ss (up S ! i @ written ?x p (primary_fd ?x))"
      and tp: "asked_at a = Some i \<Longrightarrow> told (asker_fd a) p = told (asker_fd a) ?x @ (if st' = Done then [done_text r] else [])"
      and w: "to_go st' + 1 = to_go (sts ! i)" and cnt: "st' \<noteq> Counted" "sts ! i \<noteq> Counted"
      and phase: "sts ! i = Asked \<and> st' = Voting \<or> sts ! i = Ordered \<and> st' = Done"
    for p st'
  proof -
    let ?S = "replica_steps i p (S\<lparr>down := (down S)[i := ss], rest_down := (rest_down S)[i := []]\<rparr>)"
    let ?sts = "sts[i := st']"
    have del: "deliver H f (To_replica i) S = Inr ?S"
      using nxt serve lens(3) i by (simp add: deliver_def)
    have "(rest_down S)[i := []] = rest_down S"
      using lens(3) i by (simp add: list_update_same_conv)
    note wT = wired_replica [of S i p ?S, OF wired i p]
    have wS: "wired ?S" "topology ?S = fds_of a"
      using wT lens top \<open>(rest_down S)[i := []] = rest_down S\<close> by (simp_all add: replica_steps_def)
    have "(?sts ! j = Counted) = (sts ! j = Counted)" if "j < length (reps S)" for j
      using cnt len that by (cases "j = i") simp_all
    then have c: "counted ?sts ?S = counted sts S"
      by (intro counted_cong)
        (use map_same_update [where f = voter, OF i voter_wiring [OF p]] in \<open>simp_all add: replica_steps_def\<close>)
    have mem: "sts ! i \<in> set sts" "st' \<in> set ?sts" using i len by (simp_all add: set_update_memI)
    have sub: "set ?sts \<subseteq> insert st' (set sts)" by (rule set_update_subset_insert)
    have T: "prim ?S = prim S" "length (reps ?S) = length (reps S)" by (simp_all add: replica_steps_def)
    have stages: "stage_ok q m h r (waiting a (Some j)) (?sts ! j) (reps ?S ! j) (down ?S ! j) (up ?S ! j)" if "j < length (reps S)" for j
      using st [OF that] ok' that lens len by (cases "j = i") (simp_all add: replica_steps_def)
    have answer: "told (asker_fd a) (reps ?S ! j) = had a @ (if ?sts ! j = Done then [done_text r] else [])" if "asked_at a = Some j" for j
      using tld [OF that] tp that phase foreignD(2) [OF fgn top that] len by (cases "j = i") (auto simp: replica_steps_def)
    have "?before sts \<or> ?after sts" using run unfolding running_def by blast
    then have same: "?before ?sts = ?before sts" "?after ?sts = ?after sts" using phase mem sub by auto
    have "(?before sts \<and> ?P) \<or> (?after sts \<and> ?Q)" using run unfolding running_def by blast
    then have "(?before ?sts \<and> ?P) \<or> (?after ?sts \<and> ?Q)" unfolding same .
    then have "running q m h r a ?sts ?S"
      using len wS stages answer unfolding running_def T c by simp
    with del to_go_update [OF _ w] i len show ?thesis by auto
  qed
  from stage_down [OF st [OF i]] ds consider "sts ! i = Asked" | "sts ! i = Ordered" by auto
  then show ?thesis
  proof cases
    case 1
    with st [OF i] ds have a: "settled_at q m ?x" "awaits r h ?ws ?x" "s = prepare_msg h (q + 1) (render r) @ crlf" "ss = []" "up S ! i = []"
      by (simp_all add: stage_ok_def)
    from replica_prepares [OF a(1) x(1) h q ok, of H f] obtain p where
      p: "serve H f (to_primary ?x) s ?x = Inr ([], p)" "pending_at Writer q m h r p"
      "q + 1 \<notin> set (queued_transactions p)" "wiring p = wiring ?x" "msg_queue p = msg_queue ?x"
      "net p = net ?x @ [(primary_fd ?x, vote_msg ''YES'' h (q + 1) ?x @ crlf)]" unfolding a(3) by blast
    have "vote_msg ''YES'' h (q + 1) ?x = vote_msg ''YES'' h (q + 1) p"
      using p(4) by (simp add: vote_msg_def wiring_def)
    moreover have "awaits r h ?ws p" using a(2) p(5) by (simp add: awaits_def waiter_def waits_for_def)
    ultimately show ?thesis
      using a p 1 fd told_append [OF p(6), of "asker_fd a"] written_append [OF p(6)]
      by (intro finish [where p = p and st' = Voting]) (auto simp: stage_ok_def prepared_def)
  next
    case 2
    with st [OF i] ds have a: "pending_at Writer q m h r ?x" "q + 1 \<notin> set (queued_transactions ?x)" "awaits r h ?ws ?x"
      "s = decision_line ''COMMIT'' h (q + 1) @ crlf" "ss = []" "up S ! i = []"
      by (simp_all add: stage_ok_def prepared_def)
    have w: "waits_for r h ?x" "waiter h' ?x = (if h' = h then ?ws else [])" for h' using a(3) by (simp_all add: awaits_def)
    from replica_commits [OF a(1,2) x(1) h q ok w(1), of H f] obtain p where
      p: "serve H f (to_primary ?x) s ?x = Inr ([], p)" "settled_at (q + 1) (fst (kv_step r m)) p" "wiring p = wiring ?x"
      "net p = net ?x @ map (\<lambda>fd. (fd, done_text r)) (waiter h ?x)" "\<And>h'. waiter h' p = (if h' = h then [] else waiter h' ?x)"
      unfolding a(4) by blast
    have none: "waiter h' p = []" for h' using p(5) [of h'] w(2) [of h'] by simp
    have net: "net p = net ?x @ map (\<lambda>fd. (fd, done_text r)) ?ws" using p(4) w(2) [of h] by simp
    have "written ?x p (primary_fd ?x) = []"
      using written_append [OF net, of "primary_fd ?x"] fd by (auto simp: waiting_def split: if_splits)
    then show ?thesis
      using a p none 2 told_append [OF net, of "asker_fd a"]
      by (intro finish [where p = p and st' = Done]) (auto simp: stage_ok_def waiting_def)
  qed
qed

section \<open>Lemmas: the primary reads a vote\<close>

lemma wired_primary:
  assumes "wired S" and "wiring p = wiring (prim S)" and "reps T = reps S" and "links T = links S" and "prim T = p"
    and "length (down T) = length (reps S)" and "length (up T) = length (reps S)"
    and "rest_down T = rest_down S" and "rest_up T = rest_up S"
  shows "wired T" and "topology T = topology S"
  using assms can_lead_wiring [OF assms(2)] wiring_fields(3) [OF assms(2)] by (simp_all add: wired_def topology_def)

lemma counted_all:
  assumes "distinct (map voter (reps S))" and "card (counted sts S) = length (reps S)" and "i < length (reps S)"
  shows "sts ! i = Counted"
proof -
  have sub: "counted sts S \<subseteq> set (map voter (reps S))" by (auto simp: counted_def)
  have "card (set (map voter (reps S))) = length (reps S)" using distinct_card [OF assms(1)] by simp
  then have "counted sts S = set (map voter (reps S))" using sub assms(2) by (intro card_subset_eq) simp_all
  then have "voter (reps S ! i) \<in> counted sts S" using assms(3) by simp
  then obtain j where j: "j < length (reps S)" "voter (reps S ! j) = voter (reps S ! i)" "sts ! j = Counted"
    by (auto simp: counted_def)
  then have "j = i" using assms(1,3) nth_eq_iff_index_eq [OF assms(1), of j i] by simp
  then show ?thesis using j by simp
qed

lemma counted_vote:
  assumes "i < length (reps S)" and "length sts = length (reps S)" and "reps S' = reps S"
  shows "counted (sts[i := Counted]) S' = insert (voter (reps S ! i)) (counted sts S)"
proof (rule set_eqI)
  fix x
  have "(\<exists>j. x = voter (reps S ! j) \<and> j < length (reps S) \<and> sts[i := Counted] ! j = Counted) \<longleftrightarrow>
      x = voter (reps S ! i) \<or> (\<exists>j. x = voter (reps S ! j) \<and> j < length (reps S) \<and> sts ! j = Counted)"
    using assms(1,2) by (auto simp: nth_list_update)
  then show "x \<in> counted (sts[i := Counted]) S' \<longleftrightarrow> x \<in> insert (voter (reps S ! i)) (counted sts S)"
    by (simp add: counted_def assms(3))
qed

lemma running_primary:
  assumes run: "running q m h r a sts S" and nxt: "under_way (To_primary i) S = s # ss"
    and h: "numeric h" and q: "0 \<le> q" "q + 1 < 2 ^ 31" and ok: "write_ok r m" and fgn: "foreign a"
  shows "\<exists>S' sts'. deliver H f (To_primary i) S = Inr S' \<and> running q m h r a sts' S' \<and>
     sum_list (map to_go sts') + 1 = sum_list (map to_go sts)"
proof -
  let ?x = "reps S ! i" and ?P = "prim S" and ?k = "length (reps S)" and ?ws = "waiting a None" and ?m = "fst (kv_step r m)"
  have wired: "wired S" and len: "length sts = ?k" and top: "topology S = fds_of a"
    and st: "\<And>j. j < ?k \<Longrightarrow> stage_ok q m h r (waiting a (Some j)) (sts ! j) (reps S ! j) (down S ! j) (up S ! j)"
    and tld: "\<And>j. asked_at a = Some j \<Longrightarrow> told (asker_fd a) (reps S ! j) = had a @ (if sts ! j = Done then [done_text r] else [])"
    using run by (simp_all add: running_def)
  have lens: "length (links S) = ?k" "length (down S) = ?k" "length (up S) = ?k" "rest_up S = replicate ?k []"
    and lead: "can_lead ?P" and fds: "partition_fds ?P = map connfd (links S)" "distinct (map connfd (links S))"
    and vs: "distinct (map voter (reps S))"
    using wired by (simp_all add: wired_def)
  note fd = foreignD [OF fgn top]
  have i: "i < ?k" and us: "up S ! i = s # ss" using nxt lens by (auto simp: under_way_def split: if_splits)
  have rest: "(rest_up S)[i := []] = rest_up S" using lens(4) i by (simp add: list_update_same_conv)
  have x: "numeric (IP ?x)" "\<not> coord_conn (links S ! i)"
    using wired nth_mem [OF i] nth_mem [of i "links S"] i lens(1) by (simp_all add: wired_def)
  have sti: "sts ! i = Voting" using stage_up [OF st [OF i]] us by simp
  with st [OF i] us have s: "s = vote_msg ''YES'' h (q + 1) ?x @ crlf" "ss = []" "down S ! i = []"
    and xp: "prepared q m h r (waiting a (Some i)) ?x"
    by (simp_all add: stage_ok_def)
  have "Voting \<in> set sts" using sti i len by (metis nth_mem)
  with run have phase: "set sts \<subseteq> {Asked, Voting, Counted}" "collects q m h r ?ws ?P"
    "asked_at a = None \<longrightarrow> told (asker_fd a) ?P = had a"
    and resp: "distinct (responses_of ?P (q + 1))" "set (responses_of ?P (q + 1)) = counted sts S"
    unfolding running_def by auto
  have P: "pending_at Free q m h r ?P" "q + 1 \<notin> set (queued_transactions ?P)"
    "length (replicas_of ?P (q + 1)) = length (alive_replicas ?P)" "waits_for r h ?P"
    "\<And>h'. waiter h' ?P = (if h' = h then ?ws else [])"
    using phase(2) by (simp_all add: collects_def awaits_def)
  have alive: "length (alive_replicas ?P) = ?k" using lead fds(1) lens(1) by (simp add: can_lead_def)
  let ?rs = "List.insert (voter ?x) (responses_of ?P (q + 1))"
  let ?U = "S\<lparr>up := (up S)[i := ss], rest_up := (rest_up S)[i := []]\<rparr>"
  let ?sts = "sts[i := Counted]"
  have rs: "distinct ?rs" "set ?rs = counted ?sts ?U"
    using resp counted_vote [OF i len, of ?U] by simp_all
  then have rlen: "length ?rs = card (counted ?sts ?U)" by (metis distinct_card)
  have del: "deliver H f (To_primary i) S =
      ebind (serve H f (links S ! i) (vote_msg ''YES'' h (q + 1) ?x @ crlf) ?P) (\<lambda>(r, p).
        Inr (primary_steps p (S\<lparr>up := (up S)[i := ss], rest_up := (rest_up S)[i := r]\<rparr>)))"
    using nxt lens(4) i by (simp add: deliver_def s(1))
  show ?thesis
  proof (cases "length ?rs < ?k")
    case True
    let ?P' = "?P\<lparr>tpc_responses := AList.update (q + 1) ?rs (tpc_responses ?P)\<rparr>"
    let ?S = "S\<lparr>prim := ?P', down := down S, up := (up S)[i := ss], rest_up := (rest_up S)[i := []]\<rparr>"
    have "serve H f (links S ! i) (vote_msg ''YES'' h (q + 1) ?x @ crlf) ?P = Inr ([], ?P')"
      using yes_vote [OF P(1,2) lead h q x, of H f] P(3) alive True by simp
    moreover have "map2 (\<lambda>c ws. ws @ written ?P ?P' (connfd c)) (links S) (down S) = down S"
      using lens by (intro map2_same_length) (simp_all add: written_none)
    ultimately have "deliver H f (To_primary i) S = Inr ?S" by (simp add: del primary_steps_def)
    moreover have "running q m h r a ?sts ?S"
    proof -
      have "wired ?S" "topology ?S = topology S"
        by (rule wired_primary [OF wired]; use lens rest in \<open>simp add: wiring_def\<close>)+
      moreover have "stage_ok q m h r (waiting a (Some j)) (?sts ! j) (reps S ! j) (down S ! j) ((up S)[i := ss] ! j)" if "j < ?k" for j
        using st [OF that] s xp that lens len by (cases "j = i") (simp_all add: stage_ok_def)
      moreover have "set ?sts \<subseteq> {Asked, Voting, Counted}" using phase(1) set_update_subset_insert [of sts i Counted] by blast
      moreover have "\<not> set ?sts \<subseteq> {Counted}"
      proof
        assume "set ?sts \<subseteq> {Counted}"
        then have all: "?sts ! j = Counted" if "j < ?k" for j using that len
          by (metis length_list_update nth_mem singletonD subsetD)
        have "set (map voter (reps S)) \<subseteq> set ?rs"
        proof
          fix y assume "y \<in> set (map voter (reps S))"
          then obtain j where "j < ?k" "y = voter (reps S ! j)" by (auto simp: in_set_conv_nth)
          with all [of j] show "y \<in> set ?rs" unfolding rs(2) counted_def by auto
        qed
        then have "card (set (map voter (reps S))) \<le> card (set ?rs)" by (intro card_mono) simp_all
        then show False using True rs(1) distinct_card [OF vs] distinct_card [OF rs(1)] by simp
      qed
      moreover have "pending_at Free q m h r ?P'"
        by (rule pending_frame [OF P(1)]) auto
      moreover have "counted ?sts ?S = counted ?sts ?U" by (simp add: counted_def)
      moreover have "told (asker_fd a) (reps S ! j) = had a @ (if ?sts ! j = Done then [done_text r] else [])"
        if "asked_at a = Some j" for j
        using tld [OF that] fd(2) [OF that] sti len by (cases "j = i") simp_all
      moreover have "told (asker_fd a) ?P' = told (asker_fd a) ?P" by (rule told_cong) simp
      ultimately show ?thesis
        using P phase(3) len rs top
        by (simp add: running_def collects_def replicas_of_def responses_of_def awaits_def waits_for_def waiter_def)
    qed
    ultimately show ?thesis using to_go_update [of i sts Counted] sti i len by auto
  next
    case False
    let ?line = "decision_line ''COMMIT'' h (q + 1) @ crlf"
    have "counted ?sts ?U \<subseteq> set (map voter (reps S))" by (auto simp: counted_def)
    then have "card (counted ?sts ?U) \<le> card (set (map voter (reps S)))" by (intro card_mono) simp_all
    then have "card (counted ?sts ?U) \<le> ?k" using distinct_card [OF vs] by simp
    then have full: "card (counted ?sts ?U) = length (reps ?U)" using False rlen by simp
    have all: "?sts ! j = Counted" if "j < ?k" for j
      by (rule counted_all [OF _ full]) (use vs that in simp_all)
    have others: "prepared q m h r (waiting a (Some j)) (reps S ! j)"
      "down S ! j = []" "(up S)[i := ss] ! j = []" if "j < ?k" for j
      using st [OF that] all [OF that] s xp that lens len by (cases "j = i"; simp add: stage_ok_def)+
    have enough: "length (alive_replicas ?P) \<le> length ?rs" using False alive by simp
    from primary_commits [OF P(1,2) lead h q x ok P(4) enough, of H f] obtain p where
      p: "serve H f (links S ! i) (vote_msg ''YES'' h (q + 1) ?x @ crlf) ?P = Inr ([], p)"
      "settled_at (q + 1) ?m p" "wiring p = wiring ?P"
      "net p = net ?P @ map (\<lambda>fd. (fd, ?line)) (partition_fds ?P) @ map (\<lambda>fd. (fd, done_text r)) (waiter h ?P)"
      "\<And>h'. waiter h' p = (if h' = h then [] else waiter h' ?P)" by blast
    have net: "net p = net ?P @ map (\<lambda>c. (connfd c, ?line)) (links S) @ map (\<lambda>fd. (fd, done_text r)) ?ws"
      using p(4) P(5) [of h] fds(1) by (simp add: o_def)
    have "written ?P p (connfd c) = [?line]" if "c \<in> set (links S)" for c
      by (rule written_broadcast [OF net fds(2) that]) (use fd(1) that in \<open>force simp: waiting_def split: if_splits\<close>)
    moreover have "down S ! j = []" if "j < ?k" for j by (rule others(2) [OF that])
    ultimately have down: "map2 (\<lambda>c ws. ws @ written ?P p (connfd c)) (links S) (down S) = replicate ?k [?line]"
      using lens by (intro nth_equalityI) simp_all
    let ?S = "S\<lparr>prim := p, down := replicate ?k [?line], up := (up S)[i := ss], rest_up := (rest_up S)[i := []]\<rparr>"
    let ?sts' = "replicate ?k Ordered"
    have "deliver H f (To_primary i) S = Inr ?S" by (simp add: del p(1) primary_steps_def down)
    moreover have "running q m h r a ?sts' ?S"
    proof -
      have "wired ?S" "topology ?S = topology S"
        by (rule wired_primary [OF wired p(3)]; use lens rest in simp)+
      moreover have "stage_ok q m h r (waiting a (Some j)) (?sts' ! j) (reps S ! j) (replicate ?k [?line] ! j) ((up S)[i := ss] ! j)"
        if "j < ?k" for j
        using others [OF that] that by (simp add: stage_ok_def)
      moreover have "waiter h' p = []" for h' using p(5) [of h'] P(5) [of h'] by simp
      moreover have "told (asker_fd a) p = had a @ [done_text r]" if "asked_at a = None"
        using told_append [OF net, of "asker_fd a"] phase(3) that filter_others [OF fd(1) [OF that]] by (simp add: waiting_def)
      moreover have "sts ! j \<noteq> Done" if "j < ?k" for j
        using all [OF that] sti that len by (cases "j = i") simp_all
      ultimately show ?thesis
        using p(2) top tld fd(2) by (auto simp: running_def)
    qed
    moreover have "sum_list (map to_go ?sts') + 1 = sum_list (map to_go sts)"
    proof -
      have "?sts = replicate ?k Counted" by (rule nth_equalityI) (use all len in simp_all)
      then have "sum_list (map to_go ?sts) = ?k" by (simp add: sum_list_replicate)
      then show ?thesis using to_go_update [of i sts Counted] sti i len by (simp add: sum_list_replicate)
    qed
    ultimately show ?thesis by blast
  qed
qed

lemma running_deliver:
  assumes run: "running q m h r a sts S" and h: "numeric h" and q: "0 \<le> q" "q + 1 < 2 ^ 31"
    and ok: "write_ok r m" and fgn: "foreign a"
  shows "\<exists>S' sts'. deliver H f e S = Inr S' \<and> running q m h r a sts' S' \<and>
     sum_list (map to_go sts') + (if under_way e S = [] then 0 else 1) = sum_list (map to_go sts)"
proof (cases "under_way e S")
  case Nil
  then show ?thesis using run by (simp add: deliver_def) blast
next
  case (Cons s ss)
  then show ?thesis
    using running_replica [OF run _ h q ok fgn, of _ s ss H f] running_primary [OF run _ h q ok fgn, of _ s ss H f]
    by (cases e) simp_all
qed

lemma to_go_zero: "sum_list (map to_go sts) = 0 \<longleftrightarrow> set sts \<subseteq> {Done}"
proof -
  have "to_go st = 0 \<longleftrightarrow> st = Done" for st by (cases st) simp_all
  then show ?thesis by (auto simp: sum_list_eq_0_iff)
qed

lemma quiet_iff:
  "wired S \<Longrightarrow> quiet S \<longleftrightarrow> (\<forall>i < length (reps S). down S ! i = [] \<and> up S ! i = [])"
  by (auto simp: quiet_def wired_def all_set_conv_all_nth ball_Un)

lemma running_quiet:
  assumes run: "running q m h r a sts S"
  shows "quiet S \<longleftrightarrow> set sts \<subseteq> {Done}"
proof -
  have len: "length sts = length (reps S)" and wired: "wired S"
    and st: "\<And>i. i < length (reps S) \<Longrightarrow> stage_ok q m h r (waiting a (Some i)) (sts ! i) (reps S ! i) (down S ! i) (up S ! i)"
    using run by (simp_all add: running_def)
  have silent: "down S ! i = [] \<and> up S ! i = [] \<longleftrightarrow> sts ! i = Counted \<or> sts ! i = Done" if "i < length (reps S)" for i
    using st [OF that] by (cases "sts ! i") (auto simp: stage_ok_def)
  have "quiet S \<longleftrightarrow> set sts \<subseteq> {Counted, Done}"
    unfolding quiet_iff [OF wired] using silent len by (auto simp: subset_code all_set_conv_all_nth)
  also have "\<dots> \<longleftrightarrow> set sts \<subseteq> {Done}"
    using run unfolding running_def by blast
  finally show ?thesis .
qed

lemma running_done:
  assumes run: "running q m h r a sts S" and all: "set sts \<subseteq> {Done}" and fgn: "foreign a"
  shows "synced (q + 1) (fst (kv_step r m)) S"
    and "told (asker_fd a) (server (asked_at a) S) = had a @ [done_text r]"
proof -
  let ?m = "fst (kv_step r m)"
  have len: "length sts = length (reps S)" and top: "topology S = fds_of a"
    and st: "\<And>i. i < length (reps S) \<Longrightarrow> stage_ok q m h r (waiting a (Some i)) (sts ! i) (reps S ! i) (down S ! i) (up S ! i)"
    and tld: "\<And>j. asked_at a = Some j \<Longrightarrow> told (asker_fd a) (reps S ! j) = had a @ (if sts ! j = Done then [done_text r] else [])"
    and wired: "wired S"
    using run by (simp_all add: running_def)
  have done_: "sts ! i = Done" if "i < length (reps S)" for i
    using all that len by (metis nth_mem singletonD subsetD)
  then have "settled_at (q + 1) ?m (reps S ! i) \<and> (\<forall>h. waiter h (reps S ! i) = [])" if "i < length (reps S)" for i
    using st [OF that] that by (simp add: stage_ok_def)
  then have reps: "\<forall>x \<in> set (reps S). settled_at (q + 1) ?m x \<and> (\<forall>h. waiter h x = [])" by (auto simp: in_set_conv_nth)
  have "partition_fds (prim S) \<noteq> []" "partition_fds (prim S) = map connfd (links S)"
    using wired unfolding wired_def can_lead_def by blast+
  then have "links S \<noteq> []" by force
  then have "sts \<noteq> []" using len wired by (auto simp: wired_def)
  then have "\<not> set sts \<subseteq> {Asked, Voting, Counted}" using all by (cases sts) auto
  then have prim: "settled_at (q + 1) ?m (prim S)" "\<forall>h'. waiter h' (prim S) = []"
    and "asked_at a = None \<longrightarrow> told (asker_fd a) (prim S) = had a @ [done_text r]"
    using run unfolding running_def by blast+
  then show "told (asker_fd a) (server (asked_at a) S) = had a @ [done_text r]"
    using tld done_ foreignD(2) [OF fgn top] by (cases "asked_at a") (simp_all add: server_def)
  have "quiet S" using running_quiet [OF run] all by blast
  then show "synced (q + 1) ?m S"
    using wired prim reps by (simp add: synced_def)
qed

text \<open>In the middle of a run every server has the old map or the new one, no replica before the primary.\<close>

lemma running_stores:
  assumes run: "running q m h r a sts S" and fgn: "foreign a"
  shows "i < length (reps S) \<Longrightarrow> store_of (reps S ! i) = m \<or>
      (store_of (reps S ! i) = fst (kv_step r m) \<and> store_of (prim S) = fst (kv_step r m))"
    and "told (asker_fd a) (server (asked_at a) S) = had a \<or> store_of (server (asked_at a) S) = fst (kv_step r m)"
proof -
  have len: "length sts = length (reps S)" and top: "topology S = fds_of a"
    and st: "\<And>i. i < length (reps S) \<Longrightarrow> stage_ok q m h r (waiting a (Some i)) (sts ! i) (reps S ! i) (down S ! i) (up S ! i)"
    and tld: "\<And>j. asked_at a = Some j \<Longrightarrow> told (asker_fd a) (reps S ! j) = had a @ (if sts ! j = Done then [done_text r] else [])"
    and phase: "(set sts \<subseteq> {Asked, Voting, Counted} \<and> (asked_at a = None \<longrightarrow> told (asker_fd a) (prim S) = had a)) \<or>
      settled_at (q + 1) (fst (kv_step r m)) (prim S)"
    using run unfolding running_def by blast+
  have stored: "store_of (reps S ! i) = (if sts ! i = Done then fst (kv_step r m) else m)" if "i < length (reps S)" for i
    using st [OF that] by (cases "sts ! i") (simp_all add: stage_ok_def prepared_def settled_at_def pending_at_def)
  show "store_of (reps S ! i) = m \<or>
      (store_of (reps S ! i) = fst (kv_step r m) \<and> store_of (prim S) = fst (kv_step r m))" if "i < length (reps S)"
  proof (cases "sts ! i = Done")
    case True
    have "sts ! i \<in> set sts" using len that by simp
    then have "store_of (prim S) = fst (kv_step r m)" using phase True by (auto simp: settled_at_def)
    then show ?thesis using stored [OF that] True by simp
  next
    case False
    then show ?thesis using stored [OF that] by simp
  qed
  show "told (asker_fd a) (server (asked_at a) S) = had a \<or> store_of (server (asked_at a) S) = fst (kv_step r m)"
  proof (cases "asked_at a")
    case None
    then show ?thesis using phase by (auto simp: server_def settled_at_def)
  next
    case (Some j)
    then show ?thesis using tld [OF Some] stored [OF foreignD(2) [OF fgn top Some]] by (simp add: server_def)
  qed
qed

section \<open>Lemmas: the start of a transaction\<close>

text \<open>The primary has asked the replicas; they have not answered yet.\<close>

lemma asked:
  assumes wired: "wired S" and top: "topology S = fds_of a" and fgn: "foreign a"
    and reps: "\<And>i. i < length (reps S) \<Longrightarrow> settled_at q m (reps S ! i) \<and> awaits r h (waiting a (Some i)) (reps S ! i) \<and>
      down S ! i = [] \<and> up S ! i = []"
    and tld: "told (asker_fd a) (server (asked_at a) S) = had a"
    and p: "pending_at Free q m h r p" "q + 1 \<notin> set (queued_transactions p)" "wiring p = wiring (prim S)"
      "responses_of p (q + 1) = []" "replicas_of p (q + 1) = alive_replicas (prim S)"
      "net p = net (prim S) @ map (\<lambda>fd. (fd, prepare_msg h (q + 1) (render r) @ crlf)) (partition_fds (prim S))"
      "awaits r h (waiting a None) p"
  shows "running q m h r a (replicate (length (reps S)) Asked) (primary_steps p S)"
proof -
  let ?k = "length (reps S)" and ?P = "prim S" and ?line = "prepare_msg h (q + 1) (render r) @ crlf"
  let ?sts = "replicate ?k Asked"
  have lens: "length (links S) = ?k" "length (down S) = ?k" "length (up S) = ?k"
    and lead: "can_lead ?P" and fds: "partition_fds ?P = map connfd (links S)" "distinct (map connfd (links S))"
    using wired by (simp_all add: wired_def)
  have net: "net p = net ?P @ map (\<lambda>l. (connfd l, ?line)) (links S)" using p(6) fds(1) by (simp add: o_def)
  have "written ?P p (connfd l) = [?line]" if "l \<in> set (links S)" for l
    by (rule written_broadcast [of p ?P ?line "links S" "[]"]) (use net fds(2) that in simp_all)
  then have down: "map2 (\<lambda>l ws. ws @ written ?P p (connfd l)) (links S) (down S) = replicate ?k [?line]"
    using lens reps by (intro nth_equalityI) simp_all
  let ?S = "S\<lparr>prim := p, down := replicate ?k [?line]\<rparr>"
  have S: "primary_steps p S = ?S" by (simp add: primary_steps_def down)
  have wired': "wired ?S" "topology ?S = topology S"
    by (rule wired_primary [OF wired p(3)]; use lens in simp)+
  have st: "stage_ok q m h r (waiting a (Some j)) (?sts ! j) (reps S ! j) (replicate ?k [?line] ! j) (up S ! j)" if "j < ?k" for j
    using that reps [OF that] by (simp add: stage_ok_def)
  have coll: "collects q m h r (waiting a None) p"
    using p wiring_fields(6) [OF p(3)] by (simp add: collects_def)
  have "\<not> set ?sts \<subseteq> {Counted}"
  proof -
    have "partition_fds ?P \<noteq> []" using lead by (simp add: can_lead_def)
    then have "?k \<noteq> 0" using fds(1) lens(1) by force
    then show ?thesis by simp
  qed
  moreover have "counted ?sts ?S = {}" by (auto simp: counted_def)
  moreover have "told (asker_fd a) p = had a" if "asked_at a = None"
    using told_append [OF net, of "asker_fd a"] tld that filter_others [OF foreignD(1) [OF fgn top that]]
    by (simp add: server_def)
  moreover have "told (asker_fd a) (reps S ! j) = had a" "?sts ! j \<noteq> Done" if "asked_at a = Some j" for j
    using tld that foreignD(2) [OF fgn top that] by (simp_all add: server_def)
  ultimately show ?thesis
    using wired' st coll p(4) top unfolding S by (auto simp: running_def)
qed

text \<open>A replica has passed a write on, and the primary has not read it yet.\<close>

definition forwarded :: "int \<Rightarrow> store \<Rightarrow> string \<Rightarrow> request \<Rightarrow> asker \<Rightarrow> nat \<Rightarrow> cluster \<Rightarrow> bool" where
  "forwarded q m h r a j S \<longleftrightarrow>
     asked_at a = Some j \<and> wired S \<and> topology S = fds_of a \<and> settled_at q m (prim S) \<and> (\<forall>h'. waiter h' (prim S) = []) \<and>
     (\<forall>i < length (reps S). settled_at q m (reps S ! i) \<and> awaits r h (waiting a (Some i)) (reps S ! i) \<and> down S ! i = [] \<and>
        up S ! i = (if i = j then [h @ '' '' @ render r @ crlf] else [])) \<and>
     told (asker_fd a) (reps S ! j) = had a"

lemma forwarded_deliver:
  assumes fwd: "forwarded q m h r a j S" and h: "numeric h" and ok: "write_ok r m" and fgn: "foreign a"
  shows "e \<noteq> To_primary j \<Longrightarrow> under_way e S = []" and "under_way (To_primary j) S \<noteq> []"
    and "\<exists>S'. deliver H f (To_primary j) S = Inr S' \<and> running q m h r a (replicate (length (reps S)) Asked) S'"
proof -
  have at: "asked_at a = Some j" and wired: "wired S" and top: "topology S = fds_of a" and set: "settled_at q m (prim S)"
    and none: "\<And>h'. waiter h' (prim S) = []" and tld: "told (asker_fd a) (reps S ! j) = had a"
    and reps: "\<And>i. i < length (reps S) \<Longrightarrow> settled_at q m (reps S ! i) \<and> awaits r h (waiting a (Some i)) (reps S ! i) \<and>
      down S ! i = [] \<and> up S ! i = (if i = j then [h @ '' '' @ render r @ crlf] else [])"
    using fwd by (simp_all add: forwarded_def)
  have lens: "length (links S) = length (reps S)" "length (down S) = length (reps S)" "length (up S) = length (reps S)"
    "rest_up S = replicate (length (reps S)) []" and lead: "can_lead (prim S)"
    using wired by (simp_all add: wired_def)
  have j: "j < length (reps S)" by (rule foreignD(2) [OF fgn top at])
  have uj: "up S ! j = [h @ '' '' @ render r @ crlf]" using reps [OF j] by simp
  show "under_way e S = []" if "e \<noteq> To_primary j"
    using that reps lens by (cases e) (auto simp: under_way_def)
  show "under_way (To_primary j) S \<noteq> []" using j uj lens by (simp add: under_way_def)
  let ?c = "links S ! j" and ?U = "S\<lparr>up := (up S)[j := []], rest_up := (rest_up S)[j := []]\<rparr>"
  have rest: "(rest_up S)[j := []] = rest_up S" using lens(4) j by (simp add: list_update_same_conv)
  have c: "\<not> coord_conn ?c" "backend_conn ?c" using wired j lens(1) by (simp_all add: wired_def)
  then have line: "on_conn ?c h (render r) = h @ '' '' @ render r" by (simp add: on_conn_def)
  from primary_starts [OF set lead c(1) _ ok h, of H f, unfolded line if_P [OF c(2)]] c(2) obtain p where
    p: "serve H f ?c (h @ '' '' @ render r @ crlf) (prim S) = Inr ([], p)" "pending_at Free q m h r p"
    "q + 1 \<notin> set (queued_transactions p)" "wiring p = wiring (prim S)" "responses_of p (q + 1) = []"
    "replicas_of p (q + 1) = alive_replicas (prim S)"
    "net p = net (prim S) @ map (\<lambda>fd. (fd, prepare_msg h (q + 1) (render r) @ crlf)) (partition_fds (prim S))"
    "\<And>h'. waiter h' p = (if h' = h then [] else waiter h' (prim S))" "waits_for r h p"
    by (simp only: append_assoc) blast
  have "awaits r h (waiting a None) p" using p(8,9) none at by (simp add: awaits_def waiting_def)
  have "(up S)[j := []] ! i = []" if "i < length (reps S)" for i
    using reps [OF that] that lens(3) by (cases "i = j") simp_all
  moreover have "wired ?U" "topology ?U = topology S"
    by (rule wired_primary [OF wired]; use lens rest in simp)+
  ultimately have "running q m h r a (replicate (length (reps ?U)) Asked) (primary_steps p ?U)"
    using reps top tld at p(2-7) \<open>awaits r h (waiting a None) p\<close>
    by (intro asked [OF _ _ fgn]) (simp_all add: server_def)
  moreover have "deliver H f (To_primary j) S = Inr (primary_steps p ?U)"
    using uj j lens p(1) by (simp add: deliver_def under_way_def)
  ultimately show "\<exists>S'. deliver H f (To_primary j) S = Inr S' \<and> running q m h r a (replicate (length (reps S)) Asked) S'"
    by auto
qed

section \<open>Lemmas: the life of a write\<close>

text \<open>A write is under way, \<open>d\<close> deliveries before its end.\<close>

definition active :: "int \<Rightarrow> store \<Rightarrow> string \<Rightarrow> request \<Rightarrow> asker \<Rightarrow> nat \<Rightarrow> cluster \<Rightarrow> bool" where
  "active q m h r a d S \<longleftrightarrow>
     (\<exists>j. d = Suc (3 * length (reps S)) \<and> forwarded q m h r a j S) \<or>
     (\<exists>sts. d = sum_list (map to_go sts) \<and> running q m h r a sts S)"

lemma active_deliver:
  assumes act: "active q m h r a d S" and h: "numeric h" and q: "0 \<le> q" "q + 1 < 2 ^ 31"
    and ok: "write_ok r m" and fgn: "foreign a"
  shows "\<exists>S' d'. deliver H f e S = Inr S' \<and> active q m h r a d' S' \<and> d' + (if under_way e S = [] then 0 else 1) = d"
proof -
  from act consider j where "d = Suc (3 * length (reps S))" "forwarded q m h r a j S"
    | sts where "d = sum_list (map to_go sts)" "running q m h r a sts S" unfolding active_def by blast
  then show ?thesis
  proof cases
    case (1 j)
    note fd = forwarded_deliver [OF 1(2) h ok fgn]
    show ?thesis
    proof (cases "e = To_primary j")
      case True
      from fd(3) [of H f] obtain S' where S': "deliver H f (To_primary j) S = Inr S'"
        "running q m h r a (replicate (length (reps S)) Asked) S'" by blast
      have "active q m h r a (3 * length (reps S)) S'"
        unfolding active_def using S'(2) by (intro disjI2 exI [of _ "replicate (length (reps S)) Asked"]) (simp add: sum_list_replicate)
      with S'(1) fd(2) 1(1) True show ?thesis by auto
    next
      case False
      then have "under_way e S = []" by (rule fd(1))
      with act show ?thesis by (auto simp: deliver_def)
    qed
  next
    case (2 sts)
    from running_deliver [OF 2(2) h q ok fgn, of H f e] 2(1) show ?thesis unfolding active_def by blast
  qed
qed

lemma active_run:
  assumes "active q m h r a d S" and h: "numeric h" and q: "0 \<le> q" "q + 1 < 2 ^ 31" and ok: "write_ok r m" and fgn: "foreign a"
  shows "\<exists>S' d'. efold (deliver H f) es S = Inr S' \<and> active q m h r a d' S' \<and> d' + moves H f es S = d"
  using assms(1)
proof (induction es arbitrary: d S)
  case Nil
  then show ?case by auto
next
  case (Cons e es)
  from active_deliver [OF Cons.prems h q ok fgn, of H f e] obtain S1 d1 where
    1: "deliver H f e S = Inr S1" "active q m h r a d1 S1" "d1 + (if under_way e S = [] then 0 else 1) = d" by blast
  from Cons.IH [OF 1(2)] obtain S2 d2 where
    2: "efold (deliver H f) es S1 = Inr S2" "active q m h r a d2 S2" "d2 + moves H f es S1 = d1" by blast
  from 1 2 show ?case by (intro exI [of _ S2] exI [of _ d2]) simp
qed

lemma active_quiet:
  assumes "active q m h r a d S" and "foreign a"
  shows "quiet S \<longleftrightarrow> d = 0"
proof -
  from assms(1) consider j where "d = Suc (3 * length (reps S))" "forwarded q m h r a j S"
    | sts where "d = sum_list (map to_go sts)" "running q m h r a sts S" unfolding active_def by blast
  then show ?thesis
  proof cases
    case (1 j)
    have w: "wired S" and top: "topology S = fds_of a" and at: "asked_at a = Some j"
      using 1(2) by (simp_all add: forwarded_def)
    have "j < length (reps S)" by (rule foreignD(2) [OF assms(2) top at])
    moreover have "up S ! j \<noteq> []" using 1(2) \<open>j < length (reps S)\<close> by (simp add: forwarded_def)
    ultimately show ?thesis using 1(1) quiet_iff [OF w] by auto
  next
    case (2 sts)
    then show ?thesis using running_quiet to_go_zero by metis
  qed
qed

lemma active_done:
  assumes "active q m h r a 0 S" and "foreign a"
  shows "synced (q + 1) (fst (kv_step r m)) S" and "told (asker_fd a) (server (asked_at a) S) = had a @ [done_text r]"
    and "topology S = fds_of a"
proof -
  obtain sts where sts: "0 = sum_list (map to_go sts)" and run: "running q m h r a sts S"
    using assms(1) unfolding active_def by auto
  have "set sts \<subseteq> {Done}" using sts to_go_zero by metis
  note running_done [OF run this assms(2)]
  then show "synced (q + 1) (fst (kv_step r m)) S" "told (asker_fd a) (server (asked_at a) S) = had a @ [done_text r]" by blast+
  show "topology S = fds_of a" using run by (simp add: running_def)
qed

lemma active_stores:
  assumes act: "active q m h r a d S" and fgn: "foreign a"
  shows "i < length (reps S) \<Longrightarrow> store_of (reps S ! i) = m \<or>
      (store_of (reps S ! i) = fst (kv_step r m) \<and> store_of (prim S) = fst (kv_step r m))"
    and "told (asker_fd a) (server (asked_at a) S) = had a \<or> store_of (server (asked_at a) S) = fst (kv_step r m)"
proof -
  from act consider j where "d = Suc (3 * length (reps S))" "forwarded q m h r a j S"
    | sts where "d = sum_list (map to_go sts)" "running q m h r a sts S" unfolding active_def by blast
  then have "(i < length (reps S) \<longrightarrow> store_of (reps S ! i) = m \<or>
      (store_of (reps S ! i) = fst (kv_step r m) \<and> store_of (prim S) = fst (kv_step r m))) \<and>
    (told (asker_fd a) (server (asked_at a) S) = had a \<or> store_of (server (asked_at a) S) = fst (kv_step r m))"
  proof cases
    case (1 j)
    then show ?thesis by (auto simp: forwarded_def server_def settled_at_def)
  next
    case (2 sts)
    then show ?thesis using running_stores [OF 2(2) fgn] by blast
  qed
  then show "i < length (reps S) \<Longrightarrow> store_of (reps S ! i) = m \<or>
      (store_of (reps S ! i) = fst (kv_step r m) \<and> store_of (prim S) = fst (kv_step r m))"
    "told (asker_fd a) (server (asked_at a) S) = had a \<or> store_of (server (asked_at a) S) = fst (kv_step r m)" by blast+
qed

section \<open>Lemmas: a request arrives\<close>

text \<open>A client's connection to a server, which is none of the connections between the servers.\<close>

definition entry_ok :: "nat option \<Rightarrow> conn \<Rightarrow> cluster \<Rightarrow> bool" where
  "entry_ok e c S \<longleftrightarrow>
     client c \<and> 0 \<le> connfd c \<and>
     (case e of
        None \<Rightarrow> connfd c \<notin> connfd ` set (links S)
      | Some i \<Rightarrow> i < length (reps S) \<and> connfd c \<noteq> primary_fd (reps S ! i))"

definition asks :: "nat option \<Rightarrow> conn \<Rightarrow> cluster \<Rightarrow> asker" where
  "asks e c S = \<lparr>asked_at = e, asker_fd = connfd c, had = told (connfd c) (server e S), fds_of = topology S\<rparr>"

text \<open>The deliveries a request takes: three for every replica, one more when a replica passes it on.\<close>

definition deliveries :: "nat option \<Rightarrow> request \<Rightarrow> store \<Rightarrow> cluster \<Rightarrow> nat" where
  "deliveries e r m S =
     (if changes r m then 3 * length (reps S) + (if e = None then 0 else 1) else 0)"

lemma entry_ok_iff: "entry_ok e c S \<longleftrightarrow> client c \<and> 0 \<le> connfd c \<and> foreign (asks e c S)"
  by (auto simp: entry_ok_def foreign_def asks_def topology_def split: option.split)

lemma entry_ok_topology: "topology T = topology S \<Longrightarrow> entry_ok e c T = entry_ok e c S"
  unfolding entry_ok_iff by (simp add: foreign_def asks_def cong: option.case_cong)

lemma syncedD:
  assumes "synced q m S"
  shows "wired S" and "quiet S" and "settled_at q m (prim S)" and "waiter h (prim S) = []"
    and "i < length (reps S) \<Longrightarrow> settled_at q m (reps S ! i)" and "i < length (reps S) \<Longrightarrow> waiter h (reps S ! i) = []"
    and "i < length (reps S) \<Longrightarrow> down S ! i = []" and "i < length (reps S) \<Longrightarrow> up S ! i = []"
  using assms quiet_iff [of S] by (simp_all add: synced_def)

lemma synced_primary:
  assumes sync: "synced q m S" and p: "settled_at q m p" "wiring p = wiring (prim S)" "\<And>h. waiter h p = waiter h (prim S)"
    and w: "\<And>l. l \<in> set (links S) \<Longrightarrow> written (prim S) p (connfd l) = []"
  shows "synced q m (primary_steps p S)" and "topology (primary_steps p S) = topology S" and "prim (primary_steps p S) = p"
proof -
  note S = syncedD [OF sync]
  have lens: "length (links S) = length (reps S)" "length (down S) = length (reps S)" "length (up S) = length (reps S)"
    using S(1) by (simp_all add: wired_def)
  have "map2 (\<lambda>c ws. ws @ written (prim S) p (connfd c)) (links S) (down S) = down S"
    using lens w by (intro map2_same_length) simp_all
  then have T: "primary_steps p S = S\<lparr>prim := p\<rparr>" by (simp add: primary_steps_def)
  have "wired (S\<lparr>prim := p\<rparr>)" "topology (S\<lparr>prim := p\<rparr>) = topology S"
    by (rule wired_primary [OF S(1) p(2)]; use lens in simp)+
  then show "synced q m (primary_steps p S)" "topology (primary_steps p S) = topology S" "prim (primary_steps p S) = p"
    using sync p(1,3) unfolding T by (simp_all add: synced_def quiet_def)
qed

lemma synced_replica:
  assumes sync: "synced q m S" and i: "i < length (reps S)" and p: "settled_at q m p" "wiring p = wiring (reps S ! i)"
    "\<And>h. waiter h p = waiter h (reps S ! i)" and w: "written (reps S ! i) p (primary_fd (reps S ! i)) = []"
  shows "synced q m (replica_steps i p S)" and "topology (replica_steps i p S) = topology S"
    and "reps (replica_steps i p S) ! i = p"
proof -
  note S = syncedD [OF sync]
  have lens: "length (links S) = length (reps S)" "length (down S) = length (reps S)" "length (up S) = length (reps S)"
    using S(1) by (simp_all add: wired_def)
  have T: "replica_steps i p S = S\<lparr>reps := (reps S)[i := p]\<rparr>" using w by (simp add: replica_steps_def)
  have "wired (S\<lparr>reps := (reps S)[i := p]\<rparr>)" "topology (S\<lparr>reps := (reps S)[i := p]\<rparr>) = topology S"
    by (rule wired_replica [OF S(1) i p(2)]; use lens in simp)+
  moreover have "settled_at q m x \<and> (\<forall>h. waiter h x = [])" if "x \<in> set ((reps S)[i := p])" for x
    using that set_update_subset_insert [of "reps S" i p] p(1,3) S(6) [OF i] sync by (auto simp: synced_def)
  ultimately show "synced q m (replica_steps i p S)" "topology (replica_steps i p S) = topology S"
    "reps (replica_steps i p S) ! i = p"
    using sync i unfolding T by (simp_all add: synced_def quiet_def)
qed

text \<open>A request that changes nothing is over at once.\<close>

lemma read_served:
  assumes sync: "synced q m S" and e: "entry_ok e c S" and ok: "request_ok r m" "line_ok r" and un: "\<not> changes r m"
  shows "\<exists>S'. client_line H f e c (render r @ crlf) S = Inr S' \<and> synced q m S' \<and> topology S' = topology S \<and>
     told (connfd c) (server e S') = told (connfd c) (server e S) @ [snd (kv_step r m)]"
proof (cases e)
  case None
  from unchanged_answered [OF syncedD(3) [OF sync] ok _ un, of c H f] e obtain p where
    p: "serve H f c (render r @ crlf) (prim S) = Inr ([], p)" "settled_at q m p" "wiring p = wiring (prim S)"
    "net p = net (prim S) @ [(connfd c, snd (kv_step r m))]" "\<And>h'. waiter h' p = waiter h' (prim S)"
    unfolding entry_ok_def by blast
  have "written (prim S) p (connfd l) = []" if "l \<in> set (links S)" for l
    using e that None written_append [OF p(4), of "connfd l"] by (auto simp: entry_ok_def)
  note T = synced_primary [OF sync p(2,3,5) this]
  show ?thesis
    using p(1) None T told_append [OF p(4), of "connfd c"]
    by (intro exI [of _ "primary_steps p S"]) (simp add: client_line_def server_def)
next
  case (Some i)
  have i: "i < length (reps S)" and fd: "connfd c \<noteq> primary_fd (reps S ! i)" and c: "client c"
    using e Some by (simp_all add: entry_ok_def)
  from unchanged_answered [OF syncedD(5) [OF sync i] ok c un, of H f] obtain p where
    p: "serve H f c (render r @ crlf) (reps S ! i) = Inr ([], p)" "settled_at q m p" "wiring p = wiring (reps S ! i)"
    "net p = net (reps S ! i) @ [(connfd c, snd (kv_step r m))]" "\<And>h'. waiter h' p = waiter h' (reps S ! i)" by blast
  have "written (reps S ! i) p (primary_fd (reps S ! i)) = []"
    using fd written_append [OF p(4), of "primary_fd (reps S ! i)"] by simp
  note T = synced_replica [OF sync i p(2,3,5) this]
  show ?thesis
    using p(1) Some T told_append [OF p(4), of "connfd c"]
    by (intro exI [of _ "replica_steps i p S"]) (simp add: client_line_def server_def)
qed

text \<open>A write is under way.\<close>

lemma write_starts:
  assumes sync: "synced q m S" and e: "entry_ok e c S" and ok: "write_ok r m"
  shows "\<exists>S' h. client_line H f e c (render r @ crlf) S = Inr S' \<and> numeric h \<and>
     active q m h r (asks e c S) (deliveries e r m S) S'"
proof -
  let ?a = "asks e c S" and ?k = "length (reps S)"
  note S = syncedD [OF sync]
  have fgn: "foreign ?a" and c: "client c" "0 \<le> connfd c" using e by (simp_all add: entry_ok_iff)
  have ch: "changes r m" using ok by (simp add: write_ok_def)
  have lens: "length (links S) = ?k" "length (down S) = ?k" "length (up S) = ?k" and lead: "can_lead (prim S)"
    using S(1) by (simp_all add: wired_def)
  show ?thesis
  proof (cases e)
    case None
    let ?h = "create_hash H (prim S) (render r)"
    have nb: "\<not> coord_conn c" "\<not> backend_conn c" using c by (simp_all add: client_def)
    have line: "on_conn c [] (render r) = render r" using nb by (simp add: on_conn_def)
    from primary_starts [OF S(3) lead nb(1) c(2) ok, of "[]" H f, unfolded line if_not_P [OF nb(2)]] obtain p where
      p: "serve H f c (render r @ crlf) (prim S) = Inr ([], p)" "pending_at Free q m ?h r p"
      "q + 1 \<notin> set (queued_transactions p)" "wiring p = wiring (prim S)" "responses_of p (q + 1) = []"
      "replicas_of p (q + 1) = alive_replicas (prim S)"
      "net p = net (prim S) @ map (\<lambda>fd. (fd, prepare_msg ?h (q + 1) (render r) @ crlf)) (partition_fds (prim S))"
      "\<And>h'. waiter h' p = (if h' = ?h then [connfd c] else waiter h' (prim S))" "waits_for r ?h p"
      by (auto simp: numeric_def)
    have "awaits r ?h (waiting ?a None) p" using p(8,9) S(4) None by (simp add: awaits_def waiting_def asks_def)
    moreover have "settled_at q m (reps S ! i) \<and> awaits r ?h (waiting ?a (Some i)) (reps S ! i) \<and> down S ! i = [] \<and> up S ! i = []"
      if "i < ?k" for i
      using S(5-8) [OF that] None by (simp add: waiting_def asks_def awaits_none)
    ultimately have "running q m ?h r ?a (replicate ?k Asked) (primary_steps p S)"
      using p(2-7) by (intro asked [OF S(1) _ fgn]) (simp_all add: asks_def)
    then have "active q m ?h r ?a (3 * ?k) (primary_steps p S)"
      unfolding active_def by (intro disjI2 exI [of _ "replicate ?k Asked"]) (simp add: sum_list_replicate)
    moreover have "client_line H f e c (render r @ crlf) S = Inr (primary_steps p S)" using p(1) None by (simp add: client_line_def)
    ultimately show ?thesis
      using ch None by (intro exI [of _ "primary_steps p S"] exI [of _ ?h]) (simp add: deliveries_def)
  next
    case (Some i)
    let ?x = "reps S ! i"
    let ?h = "create_hash H ?x (render r)"
    have i: "i < ?k" and fd: "connfd c \<noteq> primary_fd ?x" using e Some by (simp_all add: entry_ok_def)
    have x: "\<not> is_primary ?x" "0 \<le> primary_fd ?x" using S(1) nth_mem [OF i] by (simp_all add: wired_def)
    from replica_forwards [OF S(5) [OF i] ok c x, of H f] obtain p where
      p: "serve H f c (render r @ crlf) ?x = Inr ([], p)" "settled_at q m p" "wiring p = wiring ?x"
      "net p = net ?x @ [(primary_fd ?x, ?h @ '' '' @ render r @ crlf)]"
      "\<And>h'. waiter h' p = (if h' = ?h then [connfd c] else waiter h' ?x)" "waits_for r ?h p" by blast
    let ?T = "replica_steps i p S"
    have T: "prim ?T = prim S" "reps ?T = (reps S)[i := p]" "down ?T = down S"
      "up ?T = (up S)[i := [?h @ '' '' @ render r @ crlf]]"
      using S(8) [OF i] written_append [OF p(4), of "primary_fd ?x"] by (simp_all add: replica_steps_def)
    have "wired ?T" "topology ?T = topology S"
      by (rule wired_replica [OF S(1) i p(3)]; use lens T in \<open>simp add: replica_steps_def\<close>)+
    moreover have "settled_at q m (reps ?T ! j) \<and> awaits r ?h (waiting ?a (Some j)) (reps ?T ! j) \<and> down ?T ! j = [] \<and>
        up ?T ! j = (if j = i then [?h @ '' '' @ render r @ crlf] else [])" if "j < ?k" for j
    proof (cases "j = i")
      case True
      have "awaits r ?h (waiting ?a (Some i)) p"
        using p(5,6) S(6) [OF i] Some by (simp add: awaits_def waiting_def asks_def)
      then show ?thesis using True T p(2) S(7) [OF i] i lens by simp
    next
      case False
      then show ?thesis
        using T S(5-8) [OF that] Some by (simp add: waiting_def asks_def awaits_none)
    qed
    moreover have "told (connfd c) p = told (connfd c) ?x" using told_append [OF p(4), of "connfd c"] fd by simp
    ultimately have "forwarded q m ?h r ?a i ?T"
      using S(3,4) T(1,2) i Some unfolding forwarded_def by (simp add: asks_def server_def)
    then have "active q m ?h r ?a (Suc (3 * ?k)) ?T" using T(2) unfolding active_def by auto
    moreover have "client_line H f e c (render r @ crlf) S = Inr ?T" using p(1) Some by (simp add: client_line_def)
    ultimately show ?thesis
      using ch Some by (intro exI [of _ ?T] exI [of _ ?h]) (simp add: deliveries_def)
  qed
qed

text \<open>Once nothing is under way, nothing more happens.\<close>

lemma quiet_under_way: "quiet S \<Longrightarrow> under_way e S = []"
  by (cases e) (simp_all add: quiet_def under_way_def)

lemma quiet_run: "quiet S \<Longrightarrow> efold (deliver H f) es S = Inr S \<and> moves H f es S = 0"
  by (induction es) (simp_all add: quiet_under_way deliver_def)

text \<open>What a request at any server has led to after \<open>k\<close> deliveries.\<close>

definition outcome :: "int \<Rightarrow> store \<Rightarrow> nat option \<Rightarrow> conn \<Rightarrow> request \<Rightarrow> cluster \<Rightarrow> nat \<Rightarrow> cluster \<Rightarrow> bool" where
  "outcome q m e c r S k S' \<longleftrightarrow>
     k \<le> deliveries e r m S \<and> (quiet S' \<longleftrightarrow> k = deliveries e r m S) \<and>
     (quiet S' \<longrightarrow> synced (if changes r m then q + 1 else q) (fst (kv_step r m)) S' \<and> topology S' = topology S \<and>
        told (connfd c) (server e S') = told (connfd c) (server e S) @ [snd (kv_step r m)]) \<and>
     (\<forall>x \<in> set (reps S'). store_of x = m \<or> (store_of x = fst (kv_step r m) \<and> store_of (prim S') = fst (kv_step r m))) \<and>
     (told (connfd c) (server e S') \<noteq> told (connfd c) (server e S) \<longrightarrow> store_of (server e S') = fst (kv_step r m))"

lemma request_run:
  assumes sync: "synced q m S" and q: "0 \<le> q" "q + 1 < 2 ^ 31" and e: "entry_ok e c S" and ok: "request_ok r m" "line_ok r"
  shows "\<exists>S0. client_line H f e c (render r @ crlf) S = Inr S0 \<and>
     (\<forall>es. \<exists>S'. efold (deliver H f) es S0 = Inr S' \<and> outcome q m e c r S (moves H f es S0) S')"
proof (cases "changes r m")
  case True
  then have w: "write_ok r m" using ok by (simp add: write_ok_def)
  let ?a = "asks e c S"
  have fgn: "foreign ?a" using e by (simp add: entry_ok_iff)
  have a: "asked_at ?a = e" "asker_fd ?a = connfd c" "had ?a = told (connfd c) (server e S)" "fds_of ?a = topology S"
    by (simp_all add: asks_def)
  from write_starts [OF sync e w, of H f] obtain S0 h where S0: "client_line H f e c (render r @ crlf) S = Inr S0"
    and h: "numeric h" and act: "active q m h r ?a (deliveries e r m S) S0" by blast
  show ?thesis
  proof (rule exI [of _ S0], rule conjI [OF S0], rule allI)
    fix es
    from active_run [OF act h q w fgn, of H f es] obtain S' d where S': "efold (deliver H f) es S0 = Inr S'"
      "active q m h r ?a d S'" "d + moves H f es S0 = deliveries e r m S" by blast
    note qd = active_quiet [OF S'(2) fgn]
    have fin: "synced (q + 1) (fst (kv_step r m)) S'" "topology S' = topology S"
      "told (connfd c) (server e S') = told (connfd c) (server e S) @ [snd (kv_step r m)]" if "quiet S'"
      using active_done [OF _ fgn, of q m h r S'] S'(2) that qd a done_text_step [OF True] by simp_all
    have "store_of x = m \<or> (store_of x = fst (kv_step r m) \<and> store_of (prim S') = fst (kv_step r m))" if "x \<in> set (reps S')" for x
      using active_stores(1) [OF S'(2) fgn] that by (metis in_set_conv_nth)
    moreover have "told (connfd c) (server e S') \<noteq> told (connfd c) (server e S) \<longrightarrow> store_of (server e S') = fst (kv_step r m)"
      using active_stores(2) [OF S'(2) fgn] a by auto
    moreover have "moves H f es S0 \<le> deliveries e r m S" "d = 0 \<longleftrightarrow> moves H f es S0 = deliveries e r m S" using S'(3) by auto
    ultimately show "\<exists>S'. efold (deliver H f) es S0 = Inr S' \<and> outcome q m e c r S (moves H f es S0) S'"
      using S'(1) qd fin True by (intro exI [of _ S']) (simp add: outcome_def)
  qed
next
  case False
  from read_served [OF sync e ok False, of H f] obtain S0 where S0: "client_line H f e c (render r @ crlf) S = Inr S0"
    "synced q m S0" "topology S0 = topology S"
    "told (connfd c) (server e S0) = told (connfd c) (server e S) @ [snd (kv_step r m)]" by blast
  note un = unchanged_store [OF False]
  have quiet: "quiet S0" using S0(2) by (simp add: synced_def)
  have all: "store_of x = m" if "x \<in> insert (prim S0) (set (reps S0))" for x
    using S0(2) that unfolding synced_def settled_at_def by blast
  have "server e S0 \<in> insert (prim S0) (set (reps S0))"
    using e entry_ok_topology [OF S0(3), of e c] by (cases e) (simp_all add: server_def entry_ok_def)
  then have "store_of (server e S0) = m" by (rule all)
  then show ?thesis
    using S0 False un quiet quiet_run [OF quiet, of H f] all
    by (intro exI [of _ S0]) (simp add: deliveries_def outcome_def)
qed

lemma request_outcome:
  assumes "synced q m S" and "0 \<le> q" and "q + 1 < 2 ^ 31" and "entry_ok e c S" and "request_ok r m" and "line_ok r"
    and "client_line H f e c (render r @ crlf) S = Inr S0" and "efold (deliver H f) es S0 = Inr S'"
  shows "outcome q m e c r S (moves H f es S0) S'"
proof -
  from request_run [OF assms(1-6), of H f] assms(7)
  have "\<forall>es. \<exists>S'. efold (deliver H f) es S0 = Inr S' \<and> outcome q m e c r S (moves H f es S0) S'" by auto
  from spec [OF this, of es] assms(8) show ?thesis by simp
qed

section \<open>Lemmas: one request after the other\<close>

lemma not_quiet:
  assumes "\<not> quiet S"
  shows "\<exists>e. under_way e S \<noteq> []"
proof -
  from assms obtain ws where "ws \<in> set (down S) \<union> set (up S)" "ws \<noteq> []" by (auto simp: quiet_def)
  then consider i where "i < length (down S)" "down S ! i \<noteq> []" | i where "i < length (up S)" "up S ! i \<noteq> []"
    by (auto simp: in_set_conv_nth)
  then show ?thesis
  proof cases
    case (1 i)
    then show ?thesis by (intro exI [of _ "To_replica i"]) (simp add: under_way_def)
  next
    case (2 i)
    then show ?thesis by (intro exI [of _ "To_primary i"]) (simp add: under_way_def)
  qed
qed

text \<open>A request can always be brought to its end.\<close>

lemma active_settles:
  assumes "active q m h r a d S" and "numeric h" and "0 \<le> q" and "q + 1 < 2 ^ 31" and "write_ok r m" and "foreign a"
  shows "\<exists>es S'. efold (deliver H f) es S = Inr S' \<and> quiet S'"
  using assms(1)
proof (induction d arbitrary: S rule: less_induct)
  case (less d)
  show ?case
  proof (cases "quiet S")
    case True
    then show ?thesis by (intro exI [of _ "[]"]) simp
  next
    case False
    then obtain e where e: "under_way e S \<noteq> []" using not_quiet by blast
    from active_deliver [OF less.prems assms(2-6), of H f e] e obtain S1 d1 where
      1: "deliver H f e S = Inr S1" "active q m h r a d1 S1" "d1 < d" by auto
    from less.IH [OF 1(3,2)] obtain es S2 where "efold (deliver H f) es S1 = Inr S2" "quiet S2" by blast
    with 1(1) show ?thesis by (intro exI [of _ "e # es"] exI [of _ S2]) simp
  qed
qed

lemma request_settles:
  assumes sync: "synced q m S" and q: "0 \<le> q" "q + 1 < 2 ^ 31" and e: "entry_ok e c S" and ok: "request_ok r m" "line_ok r"
  shows "\<exists>S0 es S1. client_line H f e c (render r @ crlf) S = Inr S0 \<and> efold (deliver H f) es S0 = Inr S1 \<and> quiet S1"
proof (cases "changes r m")
  case True
  then have w: "write_ok r m" using ok by (simp add: write_ok_def)
  from write_starts [OF sync e w, of H f] obtain S0 h where "client_line H f e c (render r @ crlf) S = Inr S0"
    "numeric h" "active q m h r (asks e c S) (deliveries e r m S) S0" by blast
  with active_settles [OF _ _ q w, of h "asks e c S" _ S0 H f] e show ?thesis by (auto simp: entry_ok_iff)
next
  case False
  from read_served [OF sync e ok False, of H f] obtain S0 where "client_line H f e c (render r @ crlf) S = Inr S0" "synced q m S0"
    by blast
  then show ?thesis by (intro exI [of _ S0] exI [of _ "[]"]) (simp add: synced_def)
qed

text \<open>
  Requests at any servers, each when the one before has come to rest; what each client is told in
  the meantime is collected.
\<close>

type_synonym asked_requests = "(nat option \<times> conn \<times> request) list"

inductive serves_requests :: "(string \<Rightarrow> nat) \<Rightarrow> int \<Rightarrow> cluster \<Rightarrow> asked_requests \<Rightarrow> string list list \<Rightarrow> cluster \<Rightarrow> bool"
  for H :: "string \<Rightarrow> nat" and f :: int where
  rest: "serves_requests H f S [] [] S"
| one: "client_line H f e c (render r @ crlf) S = Inr S0 \<Longrightarrow> efold (deliver H f) es S0 = Inr S1 \<Longrightarrow> quiet S1 \<Longrightarrow>
    told (connfd c) (server e S1) = told (connfd c) (server e S) @ ans \<Longrightarrow>
    serves_requests H f S1 rs anss S2 \<Longrightarrow> serves_requests H f S ((e, c, r) # rs) (ans # anss) S2"

inductive_cases serves_NilE: "serves_requests H f S [] anss S'"
inductive_cases serves_ConsE: "serves_requests H f S ((e, c, r) # rs) anss S'"

definition session_ok :: "asked_requests \<Rightarrow> cluster \<Rightarrow> bool" where
  "session_ok rs S \<longleftrightarrow> (\<forall>(e, c, r) \<in> set rs. entry_ok e c S \<and> line_ok r)"

definition requests_of :: "asked_requests \<Rightarrow> request list" where
  "requests_of = map (\<lambda>(e, c, r). r)"

lemma session_run:
  assumes "synced q m S" and "0 \<le> q" and "q + int (length rs) < 2 ^ 31" and "session_ok rs S"
    and "requests_ok (requests_of rs) m"
  shows "(\<exists>anss S'. serves_requests H f S rs anss S') \<and>
    (\<forall>anss S'. serves_requests H f S rs anss S' \<longrightarrow>
       anss = map (\<lambda>t. [t]) (snd (kv_run (requests_of rs) m)) \<and> (\<exists>q'. synced q' (fst (kv_run (requests_of rs) m)) S'))"
  using assms
proof (induction rs arbitrary: q m S)
  case Nil
  then show ?case by (auto simp: requests_of_def intro: serves_requests.rest elim: serves_NilE)
next
  case (Cons x rs)
  obtain e c r where x: "x = (e, c, r)" by (cases x)
  let ?m = "fst (kv_step r m)" and ?q = "if changes r m then q + 1 else q"
  have ok: "entry_ok e c S" "line_ok r" "request_ok r m" using Cons.prems(4,5) x by (simp_all add: session_ok_def requests_of_def)
  have q: "q + 1 < 2 ^ 31" "0 \<le> ?q" "?q + int (length rs) < 2 ^ 31" using Cons.prems(2,3) by auto
  have step: "synced ?q ?m S1 \<and> topology S1 = topology S \<and>
      told (connfd c) (server e S1) = told (connfd c) (server e S) @ [snd (kv_step r m)]"
    if "client_line H f e c (render r @ crlf) S = Inr S0" "efold (deliver H f) es S0 = Inr S1" "quiet S1" for S0 es S1
    using request_outcome [OF Cons.prems(1,2) q(1) ok(1,3,2) that(1,2)] that(3) by (simp add: outcome_def)
  have later: "(\<exists>anss S'. serves_requests H f S1 rs anss S') \<and>
      (\<forall>anss S'. serves_requests H f S1 rs anss S' \<longrightarrow>
       anss = map (\<lambda>t. [t]) (snd (kv_run (requests_of rs) ?m)) \<and> (\<exists>q'. synced q' (fst (kv_run (requests_of rs) ?m)) S'))"
    if s: "synced ?q ?m S1" and t: "topology S1 = topology S" for S1
  proof (rule Cons.IH [OF s q(2,3)])
    show "session_ok rs S1" using Cons.prems(4) entry_ok_topology [OF t] by (auto simp: session_ok_def)
    show "requests_ok (requests_of rs) ?m" using Cons.prems(5) x by (simp add: requests_of_def)
  qed
  from request_settles [OF Cons.prems(1,2) q(1) ok(1,3,2), of H f] obtain S0 es S1 where
    1: "client_line H f e c (render r @ crlf) S = Inr S0" "efold (deliver H f) es S0 = Inr S1" "quiet S1" by blast
  with step [OF 1] later have "\<exists>anss S'. serves_requests H f S (x # rs) anss S'"
    unfolding x by (blast intro: serves_requests.one)
  moreover have "anss = map (\<lambda>t. [t]) (snd (kv_run (requests_of (x # rs)) m)) \<and>
      (\<exists>q'. synced q' (fst (kv_run (requests_of (x # rs)) m)) S')" if "serves_requests H f S (x # rs) anss S'" for anss S'
  proof -
    from that obtain S0 es S1 ans anss' where 2: "client_line H f e c (render r @ crlf) S = Inr S0"
      "efold (deliver H f) es S0 = Inr S1" "quiet S1"
      "told (connfd c) (server e S1) = told (connfd c) (server e S) @ ans" "serves_requests H f S1 rs anss' S'" "anss = ans # anss'"
      unfolding x by (blast elim: serves_ConsE)
    have "ans = [snd (kv_step r m)]" using step [OF 2(1-3)] 2(4) by simp
    with 2(5,6) later [of S1] step [OF 2(1-3)] show ?thesis
      by (simp add: x requests_of_def case_prod_unfold)
  qed
  ultimately show ?case by blast
qed

section \<open>Lemmas: between the decision and its delivery\<close>

lemma undecided_long:
  "set sts \<subseteq> {Asked, Voting, Counted} \<Longrightarrow> length sts \<le> sum_list (map to_go sts) \<and>
     (\<not> set sts \<subseteq> {Counted} \<longrightarrow> length sts < sum_list (map to_go sts))"
  by (induction sts) auto

lemma ordered_all:
  assumes "set sts \<subseteq> {Ordered, Done}" and "length sts \<le> sum_list (map to_go sts)"
  shows "sts = replicate (length sts) Ordered"
proof -
  have "set sts \<subseteq> {Ordered, Done} \<Longrightarrow> sum_list (map to_go sts) \<le> length sts \<and>
      (length sts \<le> sum_list (map to_go sts) \<longrightarrow> sts = replicate (length sts) Ordered)"
    by (induction sts) auto
  with assms show ?thesis by blast
qed

text \<open>Every undecided write can be decided, with no replica told of it yet.\<close>

lemma reaches_decision:
  assumes "running q m h r a sts S" and "\<not> set sts \<subseteq> {Ordered, Done}" and "numeric h" and "0 \<le> q" and "q + 1 < 2 ^ 31"
    and "write_ok r m" and "foreign a"
  shows "\<exists>es S'. efold (deliver H f) es S = Inr S' \<and> running q m h r a (replicate (length (reps S')) Ordered) S'"
  using assms(1,2)
proof (induction "sum_list (map to_go sts)" arbitrary: sts S rule: less_induct)
  case less
  have phase: "set sts \<subseteq> {Asked, Voting, Counted}" "\<not> set sts \<subseteq> {Counted}" and len: "length sts = length (reps S)" and w: "wired S"
    and st: "\<And>i. i < length (reps S) \<Longrightarrow> stage_ok q m h r (waiting a (Some i)) (sts ! i) (reps S ! i) (down S ! i) (up S ! i)"
    using less.prems unfolding running_def by blast+
  have lens: "length (down S) = length (reps S)" "length (up S) = length (reps S)" using w by (simp_all add: wired_def)
  from phase obtain x where "x \<in> set sts" "x \<in> {Asked, Voting}" by blast
  then obtain i where i: "i < length (reps S)" "sts ! i = Asked \<or> sts ! i = Voting" using len by (auto simp: in_set_conv_nth)
  have "\<exists>e. under_way e S \<noteq> []"
    using i(2) st [OF i(1)] lens i(1)
    by (intro exI [of _ "if sts ! i = Asked then To_replica i else To_primary i"]) (auto simp: under_way_def stage_ok_def)
  then obtain e where e: "under_way e S \<noteq> []" by blast
  from running_deliver [OF less.prems(1) assms(3-7), of H f e] e obtain S1 sts1 where
    1: "deliver H f e S = Inr S1" "running q m h r a sts1 S1" "sum_list (map to_go sts1) + 1 = sum_list (map to_go sts)" by auto
  have len1: "length sts1 = length (reps S1)" using 1(2) by (simp add: running_def)
  show ?case
  proof (cases "set sts1 \<subseteq> {Ordered, Done}")
    case True
    have "topology S1 = topology S" using 1(2) less.prems(1) by (simp add: running_def)
    then have "length (reps S1) = length (reps S)" unfolding topology_def by (metis length_map prod.inject)
    then have "sts1 = replicate (length (reps S1)) Ordered"
      using ordered_all [OF True] undecided_long [OF phase(1)] phase(2) 1(3) len len1 by simp
    with 1 show ?thesis by (intro exI [of _ "[e]"] exI [of _ S1]) simp
  next
    case False
    from less.hyps [OF _ 1(2) False] 1(3) obtain es S2 where "efold (deliver H f) es S1 = Inr S2"
      "running q m h r a (replicate (length (reps S2)) Ordered) S2" by auto
    with 1(1) show ?thesis by (intro exI [of _ "e # es"] exI [of _ S2]) simp
  qed
qed

text \<open>A replica that has voted and not been told the decision reads the old map, locked or not.\<close>

lemma prepared_reads:
  assumes "prepared q m h r ws n" and c: "client c" and ok: "request_ok (Get row col) m" "line_ok (Get row col)"
  obtains p where "serve H f c (render (Get row col) @ crlf) n = Inr ([], p)"
    and "net p = net n @ [(connfd c, snd (kv_step (Get row col) m))]"
proof -
  let ?g = "Get row col" and ?k = "(row, col)"
  have n: "store_of n = m" "tablets_up n" "map_of (row_locks n) (request_key r) = Some Writer"
    and inv: "lock_inv (n\<lparr>row_locks := AList.update (request_key r) Free (row_locks n)\<rparr>)"
    using assms(1) by (simp_all add: prepared_def pending_at_def)
  have lock: "map_of (row_locks n) ?k \<noteq> None" if "lookup n (get_tablet row) ?k \<noteq> None"
    using lock_invD(2) [OF inv, of "get_tablet row" ?k] that n(3) by (cases "?k = request_key r") (auto simp: lookup_def)
  note line = render_line [OF ok]
  have conn: "on_conn c [] s = s" for s using c by (simp add: on_conn_def client_def)
  have lk: "lookup n (get_tablet row) ?k = m ?k" using n(1) by (simp add: store_of_lookup)
  have "read_cell_value (get_tablet row) ?k n = Inr v" if "m ?k = Some v" for v
    using lock lk that by (auto simp: read_cell_value_def)
  then have "get_command c (render ?g) row col n = Inr (do_write_backend (connfd c) (snd (kv_step ?g m)) n)"
    using tablets_upD(1,2) [OF n(2), of row] ok(1) lk
    by (cases "m ?k") (simp_all add: get_command_def ensure_loaded_def Let_def)
  then have "dispatch H f c (render ?g) n = Inr (do_write_backend (connfd c) (snd (kv_step ?g m)) n)"
    using dispatch_request [OF c request_words(3) [OF ok(1)], of H f n]
      command_message_request(1) [of "[]" row H c col n] request_words(1) [OF ok(1)]
    by (simp add: conn)
  then have "serve H f c (render ?g @ crlf) n = Inr ([], do_write_backend (connfd c) (snd (kv_step ?g m)) n)"
    by (simp only: serve_line [OF line(1-3)] ebind_Inr)
  then show thesis by (rule that) (simp add: do_write_backend_def)
qed

section \<open>Properties\<close>

text \<open>
  C3: a request at any server of a partition at rest, the primary or a replica, gets the answer of
  the key-value store, once, whatever the order in which the connections deliver, and no step fails.
  A change takes three deliveries for every replica, and one more when a replica has to pass it on:
  not before, nothing is under way any more, and then every server has the new map and no lock is
  held.
\<close>

theorem partition_answers_request:
  assumes "synced q m S" and "0 \<le> q" and "q + 1 < 2 ^ 31" and "entry_ok e c S" and "request_ok r m" and "line_ok r"
  shows "\<exists>S0. client_line H f e c (render r @ crlf) S = Inr S0 \<and>
     (\<forall>es. \<exists>S'. efold (deliver H f) es S0 = Inr S' \<and> moves H f es S0 \<le> deliveries e r m S \<and>
        (quiet S' \<longleftrightarrow> moves H f es S0 = deliveries e r m S) \<and>
        (quiet S' \<longrightarrow> synced (if changes r m then q + 1 else q) (fst (kv_step r m)) S' \<and>
           told (connfd c) (server e S') = told (connfd c) (server e S) @ [snd (kv_step r m)]))"
proof -
  from request_run [OF assms, of H f] obtain S0 where S0: "client_line H f e c (render r @ crlf) S = Inr S0"
    and run: "\<forall>es. \<exists>S'. efold (deliver H f) es S0 = Inr S' \<and> outcome q m e c r S (moves H f es S0) S'" by blast
  show ?thesis
  proof (rule exI [of _ S0], rule conjI [OF S0], rule allI)
    fix es
    from spec [OF run, of es] obtain S' where "efold (deliver H f) es S0 = Inr S'" "outcome q m e c r S (moves H f es S0) S'" by blast
    then show "\<exists>S'. efold (deliver H f) es S0 = Inr S' \<and> moves H f es S0 \<le> deliveries e r m S \<and>
        (quiet S' \<longleftrightarrow> moves H f es S0 = deliveries e r m S) \<and>
        (quiet S' \<longrightarrow> synced (if changes r m then q + 1 else q) (fst (kv_step r m)) S' \<and>
           told (connfd c) (server e S') = told (connfd c) (server e S) @ [snd (kv_step r m)])"
      by (intro exI [of _ S']) (simp add: outcome_def)
  qed
qed

text \<open>
  C2: a partition is the key-value store of the specification, whichever servers its clients talk to:
  any sequence of requests, each when the one before has come to rest, can be served, and whatever
  the order of the deliveries the answers are those of \<open>kv_run\<close>, each given once, and at the end
  every server holds the map \<open>kv_run\<close> ends with.
\<close>

theorem partition_refines_store:
  assumes "synced q m S" and "0 \<le> q" and "q + int (length rs) < 2 ^ 31" and "session_ok rs S"
    and "requests_ok (requests_of rs) m"
  shows "(\<exists>anss S'. serves_requests H f S rs anss S') \<and>
    (\<forall>anss S'. serves_requests H f S rs anss S' \<longrightarrow>
       anss = map (\<lambda>t. [t]) (snd (kv_run (requests_of rs) m)) \<and> (\<exists>q'. synced q' (fst (kv_run (requests_of rs) m)) S'))"
  by (rule session_run [OF assms])

text \<open>
  C4: at every moment of a request each replica has the old map or the new one, and the new one only
  when the primary has it; a client is answered only when the server he asked has the new one.
\<close>

theorem replicas_never_ahead:
  assumes "synced q m S" and "0 \<le> q" and "q + 1 < 2 ^ 31" and "entry_ok e c S" and "request_ok r m" and "line_ok r"
    and "client_line H f e c (render r @ crlf) S = Inr S0" and "efold (deliver H f) es S0 = Inr S'"
  shows "(\<forall>x \<in> set (reps S'). store_of x = m \<or> (store_of x = fst (kv_step r m) \<and> store_of (prim S') = fst (kv_step r m))) \<and>
     (told (connfd c) (server e S') \<noteq> told (connfd c) (server e S) \<longrightarrow> store_of (server e S') = fst (kv_step r m))"
  using request_outcome [OF assms] by (simp add: outcome_def)

text \<open>
  a replica that votes against a write ends the primary in undefined behaviour: the abort unlocks
  the key, which the primary locks only when all votes are in.
\<close>

theorem no_vote_unlocks_free_lock:
  assumes "settled_at q m n" and "can_lead n" and "0 \<le> q" and "q + 1 < 2 ^ 31" and "client c" and "0 \<le> connfd c"
    and "write_ok r m" and "serve H f c (render r @ crlf) n = Inr ([], p)" and "numeric (IP x)" and "\<not> coord_conn l"
  shows "serve H f l (vote_msg ''NO'' (create_hash H n (render r)) (q + 1) x @ crlf) p = Inl Undefined_behaviour"
proof -
  have c: "\<not> coord_conn c" "\<not> backend_conn c" "on_conn c [] (render r) = render r"
    using assms(5) by (simp_all add: client_def on_conn_def)
  have "numeric []" by (simp add: numeric_def)
  from primary_starts [OF assms(1,2) c(1) assms(6,7) this, of H f, unfolded c(3) if_not_P [OF c(2)]] assms(8) have
    p: "pending_at Free q m (create_hash H n (render r)) r p" "q + 1 \<notin> set (queued_transactions p)" and "wiring p = wiring n"
    by auto
  then have "can_lead p" using assms(2) can_lead_wiring by blast
  from no_vote [OF p this numeric_hash assms(3,4,9,10)] assms(7) show ?thesis by (simp add: write_ok_def)
qed

text \<open>
  C38: an answered write need not be seen by others: after the primary has told its client that the
  write is done, a replica can still answer the old value to another client.
\<close>

theorem stale_read_after_answer:
  assumes "synced q m S" and "0 \<le> q" and "q + 1 < 2 ^ 31" and "entry_ok None c S" and "write_ok r m"
    and "entry_ok (Some i) c' S" and "request_ok (Get row col) m" and "line_ok (Get row col)"
  shows "\<exists>S0 es S1 S2. client_line H f None c (render r @ crlf) S = Inr S0 \<and> efold (deliver H f) es S0 = Inr S1 \<and>
     told (connfd c) (prim S1) = told (connfd c) (prim S) @ [snd (kv_step r m)] \<and>
     client_line H f (Some i) c' (render (Get row col) @ crlf) S1 = Inr S2 \<and>
     told (connfd c') (reps S2 ! i) = told (connfd c') (reps S1 ! i) @ [snd (kv_step (Get row col) m)]"
proof -
  let ?a = "asks None c S" and ?g = "Get row col"
  have fgn: "foreign ?a" using assms(4) by (simp add: entry_ok_iff)
  from write_starts [OF assms(1,4,5), of H f] obtain S0 h where S0: "client_line H f None c (render r @ crlf) S = Inr S0"
    and h: "numeric h" and act: "active q m h r ?a (deliveries None r m S) S0" by blast
  from act obtain sts where run: "running q m h r ?a sts S0" and sum: "sum_list (map to_go sts) = deliveries None r m S"
    by (auto simp: active_def forwarded_def asks_def)
  have "\<not> set sts \<subseteq> {Ordered, Done}"
  proof
    assume "set sts \<subseteq> {Ordered, Done}"
    then have "sum_list (map to_go sts) \<le> length sts" by (induction sts) auto
    moreover have "length sts = length (reps S0)" "topology S0 = topology S" "wired S0"
      using run by (simp_all add: running_def asks_def)
    moreover from this have "length (reps S) = length (reps S0)" unfolding topology_def by (metis length_map prod.inject)
    moreover have "reps S0 \<noteq> []" using \<open>wired S0\<close> by (auto simp: wired_def can_lead_def)
    ultimately show False using sum assms(5) by (simp add: deliveries_def write_ok_def)
  qed
  from reaches_decision [OF run this h assms(2,3,5) fgn, of H f] obtain es S1 where
    S1: "efold (deliver H f) es S0 = Inr S1" and run1: "running q m h r ?a (replicate (length (reps S1)) Ordered) S1" by blast
  have top: "topology S1 = topology S" and ne: "reps S1 \<noteq> []" using run1 by (auto simp: running_def asks_def wired_def can_lead_def)
  have e: "i < length (reps S1)" "client c'" using assms(6) entry_ok_topology [OF top, of "Some i" c'] by (simp_all add: entry_ok_def)
  have tld: "told (connfd c) (prim S1) = told (connfd c) (prim S) @ [snd (kv_step r m)]"
    using run1 ne done_text_step [of r m] assms(5) by (auto simp: running_def asks_def server_def write_ok_def)
  have "prepared q m h r (waiting ?a (Some i)) (reps S1 ! i)" using run1 e(1) by (auto simp: running_def stage_ok_def)
  from prepared_reads [OF this e(2) assms(7,8), of H f] obtain p where
    p: "serve H f c' (render ?g @ crlf) (reps S1 ! i) = Inr ([], p)" "net p = net (reps S1 ! i) @ [(connfd c', snd (kv_step ?g m))]"
    by blast
  have "client_line H f (Some i) c' (render ?g @ crlf) S1 = Inr (replica_steps i p S1)"
    using p(1) by (simp add: client_line_def)
  moreover have "told (connfd c') (reps (replica_steps i p S1) ! i) = told (connfd c') (reps S1 ! i) @ [snd (kv_step ?g m)]"
    using told_append [OF p(2), of "connfd c'"] e(1) by (simp add: replica_steps_def)
  ultimately show ?thesis using S0 S1 tld by blast
qed

section \<open>Witnesses\<close>

definition sample_replica :: "string \<Rightarrow> node" where
  "sample_replica ip = initial_node\<lparr>IP := ip, primary_port := 5000, primary_fd := 9, active_tablets := (\<lambda>_. True)\<rparr>"

definition sample_leader :: node where
  "sample_leader = initial_node\<lparr>is_primary := True, partition_fds := [5, 6], primary_fd := -1,
     alive_replicas := [''10.0.0.2:5000'', ''10.0.0.3:5000''], active_tablets := (\<lambda>_. True)\<rparr>"

definition sample_partition :: cluster where
  "sample_partition =
     \<lparr>prim = sample_leader, reps = [sample_replica ''10.0.0.2'', sample_replica ''10.0.0.3''],
      links = [\<lparr>connfd = 5, coord_conn = False, backend_conn = True, conn_address = ''10.0.0.2:5000''\<rparr>,
               \<lparr>connfd = 6, coord_conn = False, backend_conn = True, conn_address = ''10.0.0.3:5000''\<rparr>],
      down = [[], []], up = [[], []], rest_down = [[], []], rest_up = [[], []]\<rparr>"

lemma sample_settled:
  "settled_at 0 Map.empty (sample_replica ip)" "settled_at 0 Map.empty sample_leader" "can_lead sample_leader"
  "waiter h (sample_replica ip) = []" "waiter h sample_leader = []" "\<not> is_primary (sample_replica ip)"
  by (auto simp: settled_at_def sample_replica_def sample_leader_def initial_node_def lock_inv_def lookup_def tablets_up_def
      store_of_fields can_lead_def waiter_def)

lemma sample_numeric: "numeric (IP (sample_replica ''10.0.0.2''))" "numeric (IP (sample_replica ''10.0.0.3''))"
  "0 \<le> primary_fd (sample_replica ip)"
  by (simp_all add: sample_replica_def numeric_def isdigit_def)

lemma sample_synced: "synced 0 Map.empty sample_partition"
proof -
  have "voter (sample_replica ''10.0.0.2'') \<noteq> voter (sample_replica ''10.0.0.3'')"
    by (simp add: voter_def sample_replica_def)
  moreover have "partition_fds sample_leader = [5, 6]" by (simp add: sample_leader_def)
  ultimately show ?thesis
    using sample_settled sample_numeric
    by (auto simp: synced_def wired_def quiet_def sample_partition_def numeral_2_eq_2)
qed

lemma sample_entries: "entry_ok None frontend sample_partition" "entry_ok (Some 1) frontend sample_partition"
  using frontend_client by (simp_all add: entry_ok_def frontend_def sample_partition_def sample_replica_def)

definition sample_session :: asked_requests where
  "sample_session = [(None, frontend, Put ''k'' ''c'' ''x''), (Some 1, frontend, Get ''k'' ''c''),
     (Some 1, frontend, Cput ''k'' ''c'' ''x'' ''y z''), (Some 1, frontend, Delete ''k'' ''c''), (None, frontend, Get ''k'' ''c'')]"

lemma sample_request_ok:
  "request_ok (Put ''k'' ''c'' ''x'') m" "line_ok (Put ''k'' ''c'' ''x'')" "write_ok (Put ''k'' ''c'' ''x'') m"
  "request_ok (Get ''k'' ''c'') m" "line_ok (Get ''k'' ''c'')"
  by (simp_all add: word_ok_def value_ok_def ordinary_def put_cmd_def contains_def str_find_def line_ok_def isspace_def
      write_ok_def changes_def)

lemma sample_session_ok: "session_ok sample_session sample_partition" "requests_ok (requests_of sample_session) Map.empty"
  using sample_entries
  by (simp_all add: session_ok_def requests_of_def sample_session_def line_ok_def word_ok_def value_ok_def ordinary_def
      cput_clear_def put_cmd_def cput_cmd_def delete_cmd_def contains_def str_find_def isspace_def)

theorem partition_answers_request_witness:
  "\<exists>S0 S'. client_line (\<lambda>_. 0) 0 (Some 1) frontend (render (Put ''k'' ''c'' ''x'') @ crlf) sample_partition = Inr S0 \<and>
     efold (deliver (\<lambda>_. 0) 0) [To_primary 1, To_replica 1, To_primary 1, To_replica 0, To_primary 0, To_replica 0, To_replica 1] S0
       = Inr S' \<and>
     (quiet S' \<longrightarrow> synced 1 [(''k'', ''c'') \<mapsto> ''x''] S' \<and>
        told 4 (server (Some 1) S') = told 4 (server (Some 1) sample_partition) @ [ok_text ''PUT SUCCESSFUL.''])"
  using partition_answers_request [OF sample_synced _ _ sample_entries(2) sample_request_ok(1,2), of "\<lambda>_. 0" 0]
  by (fastforce simp: changes_def frontend_def)

theorem partition_refines_store_witness:
  "\<exists>anss S'. serves_requests (\<lambda>_. 0) 0 sample_partition sample_session anss S' \<and>
     anss = [[ok_text ''PUT SUCCESSFUL.''], [''x'' @ crlf], [ok_text ''Replaced value one with value two in table.''],
       [ok_text ''DELETE successful.''], [reply_204]]"
proof -
  have l: "0 + int (length sample_session) < 2 ^ 31" by (simp add: sample_session_def)
  from partition_refines_store [OF sample_synced order_refl l sample_session_ok, of "\<lambda>_. 0" 0] show ?thesis
    by (auto simp: sample_session_def requests_of_def)
qed

theorem replicas_never_ahead_witness:
  "\<exists>S0 es S'. client_line (\<lambda>_. 0) 0 None frontend (render (Put ''k'' ''c'' ''x'') @ crlf) sample_partition = Inr S0 \<and>
     efold (deliver (\<lambda>_. 0) 0) es S0 = Inr S' \<and>
     (\<forall>x \<in> set (reps S'). store_of x = Map.empty \<or> store_of x = [(''k'', ''c'') \<mapsto> ''x''])"
proof -
  from request_settles [OF sample_synced _ _ sample_entries(1) sample_request_ok(1,2), of "\<lambda>_. 0" 0] obtain S0 es S' where
    "client_line (\<lambda>_. 0) 0 None frontend (render (Put ''k'' ''c'' ''x'') @ crlf) sample_partition = Inr S0"
    "efold (deliver (\<lambda>_. 0) 0) es S0 = Inr S'" by auto
  with replicas_never_ahead [OF sample_synced _ _ sample_entries(1) sample_request_ok(1,2) this] show ?thesis by fastforce
qed

theorem no_vote_unlocks_free_lock_witness:
  "\<exists>p. serve (\<lambda>_. 0) 0 frontend (render (Put ''k'' ''c'' ''x'') @ crlf) sample_leader = Inr ([], p) \<and>
     serve (\<lambda>_. 0) 0 (links sample_partition ! 0)
       (vote_msg ''NO'' (create_hash (\<lambda>_. 0) sample_leader (render (Put ''k'' ''c'' ''x''))) (0 + 1) (sample_replica ''10.0.0.2'') @ crlf) p
       = Inl Undefined_behaviour"
proof -
  have c: "client frontend" "\<not> coord_conn frontend" "0 \<le> connfd frontend" "on_conn frontend [] s = s" for s
    using frontend_client by (simp_all add: client_def on_conn_def frontend_def)
  from primary_starts [OF sample_settled(2,3) c(2,3) sample_request_ok(3), of "[]" "\<lambda>_. 0" 0, unfolded c(4)] obtain p where
    p: "serve (\<lambda>_. 0) 0 frontend (render (Put ''k'' ''c'' ''x'') @ crlf) sample_leader = Inr ([], p)" by (auto simp: numeric_def)
  have "\<not> coord_conn (links sample_partition ! 0)" by (simp add: sample_partition_def)
  from no_vote_unlocks_free_lock [OF sample_settled(2,3) _ _ c(1,3) sample_request_ok(3) p sample_numeric(1) this] p
  show ?thesis by (intro exI [of _ p]) simp
qed

theorem stale_read_after_answer_witness:
  "\<exists>S0 es S1 S2. client_line (\<lambda>_. 0) 0 None frontend (render (Put ''k'' ''c'' ''x'') @ crlf) sample_partition = Inr S0 \<and>
     efold (deliver (\<lambda>_. 0) 0) es S0 = Inr S1 \<and>
     told 4 (prim S1) = told 4 (prim sample_partition) @ [ok_text ''PUT SUCCESSFUL.''] \<and>
     client_line (\<lambda>_. 0) 0 (Some 1) frontend (render (Get ''k'' ''c'') @ crlf) S1 = Inr S2 \<and>
     told 4 (reps S2 ! 1) = told 4 (reps S1 ! 1) @ [reply_204]"
  using stale_read_after_answer [OF sample_synced _ _ sample_entries(1) sample_request_ok(3) sample_entries(2) sample_request_ok(4,5),
      of "\<lambda>_. 0" 0]
  by (simp add: frontend_def)

end
