(* ===== verification/Mail_Exchange.thy ===== *)
theory Mail_Exchange
  imports Web_Mail
begin

text \<open>
  Finding the mail server of another domain (\<open>frontend/src/email.cc\<close>): reading the answer of the
  name service, connecting to a host. The resolver is a parameter: \<open>ns_initparse\<close> and \<open>ns_parserr\<close>
  give the records of a message, or fail; \<open>dn_expand\<close> reads a domain name; \<open>getaddrinfo\<close> gives the
  addresses of a host.
\<close>

section \<open>Records\<close>

text \<open>\<open>rdata\<close> are the bytes of the message from the data of the record on.\<close>

record dns_rr =
  rr_type :: nat
  rdata :: "8 word list"

definition ns_t_mx :: nat where
  "ns_t_mx = 15"

text \<open>A 16-bit load of the (little-endian) machine, and \<open>ntohs\<close>, which swaps its bytes.\<close>

definition load16 :: "8 word list \<Rightarrow> 16 word" where
  "load16 bs = ucast (bs ! 0) + 256 * ucast (bs ! 1)"

definition ntohs :: "16 word \<Rightarrow> 16 word" where
  "ntohs w = w * 256 + w div 256"

definition mx_record :: "(8 word list \<Rightarrow> string option) \<Rightarrow> dns_rr option \<Rightarrow> (int \<times> string) list" where
  "mx_record dn_expand r =
     (case r of
        None \<Rightarrow> []
      | Some rr \<Rightarrow>
          if rr_type rr \<noteq> ns_t_mx then []
          else (case dn_expand (drop 2 (rdata rr)) of
                  None \<Rightarrow> []
                | Some name \<Rightarrow> [(uint (ntohs (load16 (rdata rr))), name)]))"

definition parse_MX_records :: "(8 word list \<Rightarrow> string option) \<Rightarrow> dns_rr option list option \<Rightarrow> (int \<times> string) list" where
  "parse_MX_records dn_expand msg =
     (case msg of None \<Rightarrow> [] | Some rrs \<Rightarrow> concat (map (mx_record dn_expand) rrs))"

section \<open>Connecting\<close>

text \<open>
  \<open>attempt\<close> is what \<open>socket\<close> and \<open>connect\<close> make of an address: the descriptor, or nothing. The
  first address that works is taken.
\<close>

primrec connect_first :: "('a \<Rightarrow> int option) \<Rightarrow> 'a list \<Rightarrow> int" where
  "connect_first attempt [] = -1"
| "connect_first attempt (a # as) =
     (case attempt a of Some fd \<Rightarrow> fd | None \<Rightarrow> connect_first attempt as)"

definition connect_SMTP_server :: "(string \<Rightarrow> 'a list option) \<Rightarrow> ('a \<Rightarrow> int option) \<Rightarrow> string \<Rightarrow> int" where
  "connect_SMTP_server getaddrinfo attempt hostname =
     (case getaddrinfo hostname of None \<Rightarrow> -1 | Some as \<Rightarrow> connect_first attempt as)"

text \<open>One \<open>recv\<close> of at most 1023 bytes, read as a C string: \<open>bytes\<close> is what is there.\<close>

definition receive_response :: "string \<Rightarrow> string" where
  "receive_response bytes = c_string (take 1023 bytes)"

section \<open>Lemmas\<close>

text \<open>The preference is read with its high byte first.\<close>

lemma ntohs_load16: "uint (ntohs (load16 (hi # lo # bs))) = 256 * uint hi + uint lo"
proof -
  have "unat hi < 2 ^ LENGTH(8)" "unat lo < 2 ^ LENGTH(8)" by (rule unsigned_less)+
  then have b: "unat hi < 256" "unat lo < 256" by simp_all
  have c: "unat (ucast w :: 16 word) = unat w" if "unat w < 256" for w :: "8 word"
    using that by (simp add: unsigned_ucast_eq take_bit_nat_eq_self)
  have u: "unat (load16 (hi # lo # bs)) = unat hi + 256 * unat lo"
    using b by (simp add: load16_def unat_word_ariths c)
  have "unat (ntohs (load16 (hi # lo # bs))) = 256 * unat hi + unat lo"
    using b by (simp add: ntohs_def unat_word_ariths unat_div u)
  then show ?thesis by (metis of_nat_add of_nat_mult of_nat_numeral uint_nat)
qed

lemma mem_parse_MX_records:
  "(p, h) \<in> set (parse_MX_records ex (Some rrs)) \<longleftrightarrow>
     (\<exists>rr. Some rr \<in> set rrs \<and> rr_type rr = ns_t_mx \<and> ex (drop 2 (rdata rr)) = Some h \<and> p = uint (ntohs (load16 (rdata rr))))"
  by (force simp: parse_MX_records_def mx_record_def split: option.splits if_splits)

lemma foldl_min_least:
  fixes r :: "'a :: linorder"
  shows "foldl min r rs \<in> set (r # rs) \<and> (\<forall>x \<in> set (r # rs). foldl min r rs \<le> x)"
proof (induction rs arbitrary: r)
  case (Cons x rs)
  from Cons.IH [of "min r x"] show ?case by (auto simp: min_def split: if_splits)
qed simp


lemma connect_first_eq:
  "connect_first attempt as = (case filter (\<lambda>a. attempt a \<noteq> None) as of [] \<Rightarrow> -1 | a # _ \<Rightarrow> the (attempt a))"
  by (induction as) (auto split: option.split)

section \<open>Properties\<close>

text \<open>
  C31: a mail to another domain goes to the exchanger with the least preference number among the
  MX records that can be read, and to no other: when it cannot be reached the user is told so,
  although the protocol asks to try the next one.
\<close>

theorem mail_goes_to_best_exchanger:
  assumes "mx_records E (domain_of (dat mail ''recipient'')) = Some (parse_MX_records ex (Some rrs))"
    and "parse_MX_records ex (Some rrs) \<noteq> []"
  shows "\<exists>rr h. Some rr \<in> set rrs \<and> rr_type rr = ns_t_mx \<and> ex (drop 2 (rdata rr)) = Some h
     \<and> (\<forall>rr' h'. Some rr' \<in> set rrs \<and> rr_type rr' = ns_t_mx \<and> ex (drop 2 (rdata rr')) = Some h'
          \<longrightarrow> ntohs (load16 (rdata rr)) \<le> ntohs (load16 (rdata rr')))
     \<and> send_external E data user mail s =
         (case smtp_connect E h of
            None \<Rightarrow> reply data 500 s
          | Some server \<Rightarrow> ebind (smtp_dialogue E server (external_lines E user mail) [] s) (\<lambda>(status, s').
              reply data (if only_at_start status ''250'' then 200 else 500) s'))"
proof -
  obtain r rs where recs: "parse_MX_records ex (Some rrs) = r # rs" using assms(2) by (cases "parse_MX_records ex (Some rrs)") auto
  obtain p h where m: "foldl min r rs = (p, h)" by (metis surj_pair)
  from foldl_min_least [of r rs] m recs have mem: "(p, h) \<in> set (parse_MX_records ex (Some rrs))"
    and least: "\<forall>x \<in> set (parse_MX_records ex (Some rrs)). (p, h) \<le> x" by auto
  from mem obtain rr where rr: "Some rr \<in> set rrs" "rr_type rr = ns_t_mx" "ex (drop 2 (rdata rr)) = Some h"
    "p = uint (ntohs (load16 (rdata rr)))"
    unfolding mem_parse_MX_records by blast
  have "ntohs (load16 (rdata rr)) \<le> ntohs (load16 (rdata rr'))"
    if "Some rr' \<in> set rrs" "rr_type rr' = ns_t_mx" "ex (drop 2 (rdata rr')) = Some h'" for rr' h'
  proof -
    have "(uint (ntohs (load16 (rdata rr'))), h') \<in> set (parse_MX_records ex (Some rrs))"
      unfolding mem_parse_MX_records using that by blast
    with least have "p \<le> uint (ntohs (load16 (rdata rr')))" by (auto simp: less_eq_prod_def)
    then show ?thesis by (simp add: rr(4) word_le_def)
  qed
  then show ?thesis
    using rr(1-3) by (intro exI [of _ rr] exI [of _ h]) (auto simp: send_external_def assms(1) recs m)
qed


text \<open>Two exchangers, the better one second; it cannot be reached.\<close>

definition two_exchangers :: "dns_rr option list" where
  "two_exchangers = [Some \<lparr>rr_type = ns_t_mx, rdata = [0, 20, 65]\<rparr>, None, Some \<lparr>rr_type = ns_t_mx, rdata = [0, 10, 66]\<rparr>]"

definition one_label :: "8 word list \<Rightarrow> string option" where
  "one_label bs = Some (if bs = [65] then ''A'' else ''B'')"

definition mailing :: "nat env" where
  "mailing = \<lparr>call = (\<lambda>_ _ _. Inl Diverges), bcoord = [], flb = [], sha256 = (\<lambda>_. []), md5 = (\<lambda>_ _. 0), src_dir = [],
     file_content = (\<lambda>_. None), mt = (\<lambda>_. 0), smtp_connect = (\<lambda>h. if h = ''A'' then Some ''A:25'' else None),
     mx_records = (\<lambda>_. Some (parse_MX_records one_label (Some two_exchangers))), ctime = [], unix_time = 0\<rparr>"

lemma two_exchangers_names: "Some rr \<in> set two_exchangers \<Longrightarrow> one_label (drop 2 (rdata rr)) = Some h \<Longrightarrow>
    ntohs (load16 (rdata rr)) = (if h = ''A'' then 20 else 10) \<and> (h = ''A'' \<or> h = ''B'')"
  by (auto simp: two_exchangers_def one_label_def load16_def ntohs_def)

theorem mail_goes_to_best_exchanger_witness:
  "send_external mailing [(''Host'', ''h'')] ''u'' [(''recipient'', ''x@y'')] 3 = reply [(''Host'', ''h'')] 500 3"
proof -
  let ?rr = "\<lparr>rr_type = ns_t_mx, rdata = [0, 10, 66]\<rparr>"
  have B: "Some ?rr \<in> set two_exchangers" "one_label (drop 2 (rdata ?rr)) = Some ''B''"
    by (simp_all add: two_exchangers_def one_label_def)
  have "parse_MX_records one_label (Some two_exchangers) \<noteq> []"
    by (simp add: parse_MX_records_def two_exchangers_def mx_record_def one_label_def)
  then obtain rr h where h: "Some rr \<in> set two_exchangers" "one_label (drop 2 (rdata rr)) = Some h"
    and least: "ntohs (load16 (rdata rr)) \<le> ntohs (load16 (rdata ?rr))"
    and run: "send_external mailing [(''Host'', ''h'')] ''u'' [(''recipient'', ''x@y'')] 3 =
         (case smtp_connect mailing h of
            None \<Rightarrow> reply [(''Host'', ''h'')] 500 3
          | Some server \<Rightarrow> ebind (smtp_dialogue mailing server (external_lines mailing ''u'' [(''recipient'', ''x@y'')]) [] 3) (\<lambda>(status, s').
              reply [(''Host'', ''h'')] (if only_at_start status ''250'' then 200 else 500) s'))"
    using mail_goes_to_best_exchanger [of mailing "[(''recipient'', ''x@y'')]" one_label two_exchangers "[(''Host'', ''h'')]" "''u''" 3] B
    by (auto simp: mailing_def)
  from two_exchangers_names [OF h] two_exchangers_names [OF B] least have "h = ''B''" by auto
  then show ?thesis unfolding run by (simp add: mailing_def)
qed

end
