(* ===== verification/Test_Client.thy ===== *)
theory Test_Client
  imports Coordinator
begin

text \<open>
  The interactive client for tests (\<open>backend/test_client.cpp\<close>): it sends what is typed, prints what
  comes back, and changes to the storage server that a reply names.
\<close>

section \<open>State\<close>

text \<open>\<open>sock\<close> is the address the socket is connected to; \<open>sent\<close> the trace of what was written.\<close>

record test_client =
  sock :: string
  storage_IP :: string
  storage_port :: int
  sent :: "(string \<times> string) list"

definition start_client :: "string \<Rightarrow> exn + test_client" where
  "start_client arg =
     (if length (split arg CHR '':'') \<noteq> 2 then Inl Process_exit
      else Inr \<lparr>sock = arg, storage_IP = [], storage_port = -1, sent = []\<rparr>)"

section \<open>Steps\<close>

text \<open>
  The line end is put behind the \<open>n\<close> bytes read into an array of 1000: with more than 998 it is
  written past its end.
\<close>

definition typed :: "string option \<Rightarrow> test_client \<Rightarrow> exn + test_client" where
  "typed input c =
     (case input of
        None \<Rightarrow> Inl Process_exit
      | Some text \<Rightarrow>
          if 998 < length text then Inl Undefined_behaviour
          else Inr (c\<lparr>sent := sent c @ [(sock c, text @ crlf)]\<rparr>))"

text \<open>
  \<open>do_read\<close>: the answers of \<open>read\<close>, \<open>None\<close> for a failure, which raises when the buffer is printed
  (\<open>string (buf, -1)\<close>), and no byte for a closed connection. \<open>None\<close> as the result: the client waits.
\<close>

primrec read_reply :: "string \<Rightarrow> string option list \<Rightarrow> (exn + string) option" where
  "read_reply message [] = None"
| "read_reply message (r # rs) =
     (case r of
        None \<Rightarrow> Some (Inl Runtime_error)
      | Some bytes \<Rightarrow>
          if bytes = [] then Some (Inr [])
          else (case str_find (message @ bytes) crlf of
                  Some i \<Rightarrow> Some (Inr (take i (message @ bytes)))
                | None \<Rightarrow> read_reply (message @ bytes) rs))"

definition names_server :: "string \<Rightarrow> bool" where
  "names_server response =
     (contains response '':'' \<and> \<not> contains response ''ON'' \<and> \<not> contains response ''OFF'')"

definition got_reply :: "string \<Rightarrow> test_client \<Rightarrow> exn + test_client" where
  "got_reply response c =
     (if response = [] then Inl Process_exit
      else if \<not> names_server response then Inr c
      else
        ebind (at (split response CHR '' '') 1) (\<lambda>ip_port.
        ebind (at (split ip_port CHR '':'') 0) (\<lambda>ip.
        ebind (at (split ip_port CHR '':'') 1) (\<lambda>p. ebind (stoi p) (\<lambda>port.
          Inr (c\<lparr>storage_IP := ip, storage_port := port, sock := ip @ '':'' @ to_string port\<rparr>))))))"

section \<open>Lemmas\<close>

text \<open>The coordinator's answer to \<open>HELO\<close> connects the client to the server it names.\<close>

lemma client_follows_reply:
  assumes "CHR '' '' \<notin> set ip" and "CHR '':'' \<notin> set ip" and "0 \<le> port" and "port < 2 ^ 31"
    and "\<not> contains (''+OK '' @ ip @ '':'' @ to_string port) ''ON''"
    and "\<not> contains (''+OK '' @ ip @ '':'' @ to_string port) ''OFF''"
  shows "got_reply (''+OK '' @ ip @ '':'' @ to_string port) c =
    Inr (c\<lparr>storage_IP := ip, storage_port := port, sock := ip @ '':'' @ to_string port\<rparr>)"
proof -
  let ?a = "ip @ '':'' @ to_string port"
  have a: "split (''+OK '' @ ?a) CHR '' '' = [''+OK'', ?a]"
    using split_append_delim [of "CHR '' ''" "''+OK''" ?a] split_no_delim [of "CHR '' ''" ?a] assms(1) by simp
  have b: "split ?a CHR '':'' = [ip, to_string port]"
    using assms(2) by (simp add: split_no_delim)
  have "contains (''+OK '' @ ?a) '':''"
    unfolding contains_iff sublist_def by (intro exI [of _ "''+OK '' @ ip"] exI [of _ "to_string port"]) simp
  then show ?thesis
    using assms(3-6) by (simp only: got_reply_def names_server_def a) (simp add: at_def b [simplified] stoi_to_string)
qed

end
