(* ===== verification/Spec2Isabelle.thy ===== *)
theory Spec2Isabelle
  imports Site Cluster Command_Line Connections Coordinator_Roster Server_Threads Replication Sockets Mail_Exchange Test_Client
begin

text \<open>
  Verification library of PennMail and PennDrive, a mail and file storage service.

  \<^bold>\<open>The program.\<close> Browsers talk to web frontends (\<open>frontend/fserver.cc\<close>, \<open>frontend/src/http.cc\<close>) that
  a load balancer (\<open>frontend/loadbalancer.cc\<close>) hands out in turn; mail comes in through a mail
  server (\<open>frontend/smtp_server.cc\<close>). Both ask the coordinator (\<open>backend/coordinator.cpp\<close>) for the
  storage server of a user and send that server GET, PUT, CPUT and DELETE commands on cells named
  by a row (the user) and a column. The storage servers of one partition
  (\<open>backend/table.cpp\<close>, \<open>backend/src/threads.cpp\<close>, \<open>backend/src/utils.cpp\<close>) replicate writes by two-phase
  commit under a primary that the coordinator elects, and keep a write-ahead log and checkpoints
  of each of five tablets.

  \<^bold>\<open>How it is modelled.\<close> Every operation is a function on the explicit state of its process
  (records named after the globals), with the sum type \<open>exn + 'a\<close> of \<open>Prelude\<close> for exceptions,
  \<open>exit\<close>, undefined behaviour, a lock nobody will release and a loop that does not end. Strings are
  lists of bytes, \<open>npos\<close> is \<open>None\<close>, maps are association lists in iteration order, the writes to
  sockets a trace. A handler of a message is one step, from its first line to its last, and so is a
  round of one of the coordinator's two threads: what threads do to each other inside a handler or a
  round is not modelled, but for one race that matters (\<open>decisions_race\<close>: both decisions of a
  transaction pass the check that neither was taken, and both are logged).

  \<^item> \<open>Prelude\<close>, \<open>Cpp_String\<close>: failures, association lists; \<open>std::string\<close>, \<open>getline\<close>, \<open>stoi\<close>, \<open>atoi\<close>,
    \<open>to_string\<close>, the backend's \<open>split\<close> and \<open>trim_trailing_newline\<close>, with their laws.
  \<^item> \<open>Node\<close>: the globals of a storage server (\<open>externs.h\<close>), sending, placement, row locks.
    \<open>Tablet\<close>: running, locking and replaying commands. \<open>Wal\<close>: log, checkpoints, loading and clearing
    of tablets; the round trips of checkpoint and log. \<open>Tpc\<close>, \<open>Tpc_Handlers\<close>: the queue of
    transactions, votes, decisions, recovery. \<open>Server\<close>: connections, the messages and their routing
    (\<open>dispatch\<close> is the body of \<open>start_func\<close>). \<open>Kv_Store\<close>: the abstract key-value map, the refinement
    of a primary without replicas to it, and its durability. \<open>Tpc_Safety\<close>: all runs of a server
    (\<open>node_run\<close>; \<open>one_line_run\<close> when no message puts a line feed into the log), and what its 2PC log can
    never hold. \<open>Tpc_Writes\<close>: one write through two-phase commit on
    one server, from the client's line or the replica's to the reply, for every request that changes the
    map. \<open>Replication\<close>: a primary, its replicas and the connections between them refine the key-value map,
    whichever servers the clients ask and in whatever order the connections deliver.
    \<open>Server_Threads\<close>: the accept loop, the threads and their places, the loop of one connection, the
    interrupt.
  \<^item> \<open>Coordinator\<close>: live, paused and primary servers, heartbeats, failures, elections, the
    administrator's requests, and the storage file. \<open>Coordinator_Loops\<close>: the rounds of its two threads
    as sequences of these events, its shutdown, the process. \<open>Coordinator_Roster\<close>: the servers it lists
    are those of the storage file, each in its partition; what an unknown address can do.
    \<open>Test_Client\<close>: the interactive client.
  \<^item> \<open>Startup\<close>, \<open>Cluster\<close>: the configuration files as servers, coordinator and frontends read them;
    the parsers agree, the elected server knows that it was meant, and its replicas join it.
    \<open>Endpoints\<close>: the sockets they make and the addresses the other side sees. \<open>Command_Line\<close>: \<open>getopt\<close>,
    the options of every process, and the \<open>main\<close> functions up to their loops.
    \<open>Connections\<close>: the tables of open connections of the web server and the mail server; a client whose
    last message cannot be written ends the web server's shutdown before the others are told.
  \<^item> \<open>Encodings\<close>, \<open>Text_Utils\<close>: bit strings, base64, JSON, form data, chunked transfer, cookies; the
    reader of chunked requests is a \<open>while_option\<close> over its 64-bit counters.
    \<open>Backend_Client\<close>: the frontend's side of the protocol, and the interfaces of the storage service
    (locales \<open>kv_table\<close> and \<open>kv_backend\<close>). \<open>Http\<close>, \<open>Drive\<close>, \<open>Accounts\<close>, \<open>Web_Mail\<close>, \<open>Web_Server\<close>: the
    handlers of \<open>http.cc\<close>, proved in the locale \<open>web_site\<close> against that interface. \<open>Smtp\<close>: a mail
    session as a state machine over the bytes it reads. \<open>Balancer\<close>: the load balancer. \<open>Sockets\<close>: the
    loops around \<open>write\<close> and \<open>recv\<close>, with the \<open>int\<close> or \<open>unsigned long\<close> lengths of each. \<open>Mail_Exchange\<close>: MX records and the exchanger that is connected.
  \<^item> \<open>Deployment\<close>, \<open>Site\<close>: coordinator and storage server put together as they run; they keep the laws
    of \<open>kv_backend\<close> (\<open>interpretation site\<close>) and \<open>web_site\<close> (\<open>interpretation web\<close>), so the properties of
    the handlers hold for the whole site.

  \<^bold>\<open>What is shown.\<close> A primary refines the key-value map and a restart gives back what it served;
  a replicated partition refines it too: every request at any of its servers gets the map's answer,
  a change comes to rest on every replica after three deliveries per replica, whatever their order, and
  no replica is ever ahead of the primary (but one can be behind an answer); no transaction is
  decided twice in any run with restarts whose handlers do not overlap and whose hashes hold no line
  feed; the coordinator lists servers only in the partition of the
  storage file, and a recorded primary is alive and not paused; processes started with the same files
  meet at the same addresses; a file that is uploaded is downloaded unchanged, a mail that is sent to one recipient is listed, a session
  needs the stored cookie while the storage server answers; a POST request is answered once however the
  network cuts it, and as if it came at once when its body sets no header; a mail
  session never reads text without sender and recipient; browsers are sent to live frontends, to
  all of them in turn. Where the code fails, the failure is a theorem: a transaction after a
  decided one is lost, an early decision leaves the queue locked, an elected server ignores its
  pending transactions or blocks, a checkpoint before a flush can crash the recovery, stopping the
  last server hangs the coordinator, an unknown address ends it, a server on another host is never
  recognised, a silent server is never dropped, a chunked request is never
  read, two resets free memory twice, a storage server that closes its connection lets the empty cookie in
  (\<open>closed_server_accepts_empty_cookie\<close>), deleting an unlisted file ends the frontend, a second mail in a
  session or a login form without a name ends the coordinator, a vote against a write makes the primary
  unlock what it has not locked, a failed \<open>write\<close> repeats a byte.

  \<^bold>\<open>Bounds and hypotheses.\<close> No fuel is used: loops are structural, have a measure or are a
  \<open>while_option\<close>, and a loop that can run for ever ends in \<open>Diverges\<close>. Rows and columns are words (\<open>word\<close>: not empty, no space, no
  line end, no zero byte), values must not contain the words the server's routing searches for
  (\<open>val_ok\<close>); both are what the code relies on, and the error theorems show what happens otherwise.
  A 2PC or log theorem about files starts from files the program wrote. The theorems on a partition take
  one request at a time, from servers at rest (\<open>synced\<close>: same map, same sequence numbers, all five
  tablets loaded, no lock held) to servers at rest, with sequence numbers below 2147483648 as \<open>stoi\<close> reads
  them; several writes at once can lose one (\<open>successor_is_lost\<close>).

  \<^bold>\<open>Parameters.\<close> The bytes of SHA-256 and MD5 (the hexadecimal text of them is modelled),
  \<open>std::hash\<close>, the random generators, the clock, the contents of page templates, the resolver's
  functions, free memory, what the system calls report (\<open>accept\<close>, \<open>poll\<close>, \<open>select\<close>, \<open>read\<close>,
  \<open>write\<close>, \<open>socket\<close>, \<open>bind\<close>, \<open>listen\<close>, \<open>connect\<close>, \<open>pthread_create\<close>) and the descriptors new
  connections get.

  \<^bold>\<open>Not modelled.\<close> Failing writes of the backend, thread scheduling inside a handler or a round, signals but for
  the interrupt handlers, socket options, the iteration order of unordered containers (any order is
  allowed by the model's lists), \<open>checkpoint_helper\<close> and \<open>parse_log_file\<close> (unused). Some undefined behaviour is
  continued as compiled code does: the byte \<open>compute_hash_16\<close> writes past its array, the missing
  terminator of the text that \<open>delete_email\<close> hashes, \<open>malloc(strlen(x))\<close> for a recipient,
  past which \<open>strcpy\<close> writes its zero. Reads that overflow a buffer of the mail server end the run.
\<close>

end
